(* ===== verification/Prelude.thy ===== *)
theory Prelude
  imports Main "HOL-Library.Word" "HOL-Library.Monad_Syntax"
begin

text \<open>
  Shared vocabulary of the development.

  \<^item> \<open>size_t\<close> arithmetic: values are natural numbers below \<open>2 ^ 64\<close>, and every C++
    addition and subtraction is written with its wrap-around (\<open>sz_add\<close>, \<open>sz_sub\<close>).
  \<^item> Faults: an operation that may stop the process (a failed \<open>assert\<close>, a
    \<open>LOG_FATAL\<close>, an exception nobody catches, an access outside a vector) returns an
    \<open>option\<close>; \<open>None\<close> is the stopped process. The build modelled is the Debug build,
    the default of \<open>CMakeLists.txt\<close>, in which \<open>assert\<close> is active. \<open>assert_that\<close>
    is the statement \<open>assert(c)\<close> in the \<open>do\<close> notation of the option monad.
  \<^item> Vectors of bytes: slices, block writes and \<open>resize\<close>.
  \<^item> Searching: \<open>find_index\<close> (\<open>std::find\<close>, \<open>memchr\<close>) and \<open>search_index\<close>
    (\<open>std::search\<close>) return the offset of the first match.
\<close>

type_synonym size_t = nat
type_synonym bytes = "char list"
type_synonym fd = int
type_synonym tid = int

named_theorems sz_simps
named_theorems vec_simps

subsection \<open>Machine sizes\<close>

definition sz_add :: "size_t \<Rightarrow> size_t \<Rightarrow> size_t" where
  "sz_add a b = (a + b) mod 2 ^ 64"

definition sz_sub :: "size_t \<Rightarrow> size_t \<Rightarrow> size_t" where
  "sz_sub a b = (a + 2 ^ 64 - b) mod 2 ^ 64"

text \<open>The largest size a \<open>std::vector<char>\<close> accepts (\<open>PTRDIFF_MAX\<close>).\<close>

definition max_size :: size_t where
  "max_size = 2 ^ 63 - 1"

lemma sz_add_no_wrap [sz_simps]: "a + b < 2 ^ 64 \<Longrightarrow> sz_add a b = a + b"
  by (simp add: sz_add_def)

lemma sz_sub_no_wrap [sz_simps]: "b \<le> a \<Longrightarrow> a < 2 ^ 64 \<Longrightarrow> sz_sub a b = a - b"
proof -
  assume ba: "b \<le> a" and a: "a < 2 ^ 64"
  have "a + 2 ^ 64 - b = (a - b) + 2 ^ 64" using ba by (rule add_diff_assoc2 [symmetric])
  then have "sz_sub a b = (a - b) mod 2 ^ 64" by (simp only: sz_sub_def mod_add_self2)
  also have "\<dots> = a - b" using a by (intro mod_less) (rule le_less_trans [OF diff_le_self])
  finally show ?thesis .
qed

lemma sz_sub_underflow: "a < b \<Longrightarrow> b < 2 ^ 64 \<Longrightarrow> sz_sub a b = a + 2 ^ 64 - b"
  unfolding sz_sub_def by (intro mod_less) linarith

subsection \<open>Faults\<close>

definition assert_that :: "bool \<Rightarrow> unit option" where
  "assert_that c = (if c then Some () else None)"

lemma assert_that_simps [simp]:
  "assert_that True = Some ()" "assert_that False = None"
  by (simp_all add: assert_that_def)

lemma assert_that_eq_Some [simp]: "assert_that c = Some u \<longleftrightarrow> c"
  by (simp add: assert_that_def)

lemma assert_that_eq_None [simp]: "assert_that c = None \<longleftrightarrow> \<not> c"
  by (simp add: assert_that_def)

lemma assert_that_bind_Some [simp]:
  "Option.bind (assert_that c) f = Some y \<longleftrightarrow> c \<and> f () = Some y"
  by (simp add: assert_that_def)

lemma assert_that_bind_True: "c \<Longrightarrow> Option.bind (assert_that c) f = f ()"
  by (simp add: assert_that_def)

lemma assert_that_bind_None [simp]:
  "Option.bind (assert_that c) f = None \<longleftrightarrow> (c \<longrightarrow> f () = None)"
  by (simp add: assert_that_def)

subsection \<open>Byte vectors\<close>

text \<open>\<open>slice i j xs\<close> is the range \<open>[i, j)\<close> of a vector.\<close>

definition slice :: "nat \<Rightarrow> nat \<Rightarrow> 'a list \<Rightarrow> 'a list" where
  "slice i j xs = take (j - i) (drop i xs)"

text \<open>\<open>std::copy\<close> of \<open>ys\<close> into the vector at offset \<open>i\<close>; outside the vector it is a fault.\<close>

definition vec_write :: "'a list \<Rightarrow> nat \<Rightarrow> 'a list \<Rightarrow> 'a list option" where
  "vec_write xs i ys =
     (if i + length ys \<le> length xs then Some (take i xs @ ys @ drop (i + length ys) xs) else None)"

text \<open>\<open>std::vector<char>::resize\<close>: new elements are zero; too large a size throws.\<close>

definition vec_resize :: "bytes \<Rightarrow> size_t \<Rightarrow> bytes option" where
  "vec_resize xs n =
     (if n > max_size then None
      else Some (take n xs @ replicate (n - length xs) (CHR 0x00)))"

lemma length_slice [simp]: "length (slice i j xs) = min (j - i) (length xs - i)"
  by (simp add: slice_def)

lemma slice_empty [simp]: "j \<le> i \<Longrightarrow> slice i j xs = []"
  by (simp add: slice_def)

lemma slice_split: "i \<le> k \<Longrightarrow> k \<le> j \<Longrightarrow> slice i j xs = slice i k xs @ slice k j xs"
proof -
  assume ik: "i \<le> k" and kj: "k \<le> j"
  have "slice i j xs = take ((k - i) + (j - k)) (drop i xs)"
    using ik kj by (simp add: slice_def)
  also have "\<dots> = slice i k xs @ slice k j xs"
    unfolding take_add slice_def using ik by simp
  finally show ?thesis .
qed

lemma drop_slice: "drop n (slice i j xs) = slice (i + n) j xs"
  by (simp add: slice_def drop_take add.commute)

lemma take_slice: "n \<le> j - i \<Longrightarrow> take n (slice i j xs) = slice i (i + n) xs"
  by (simp add: slice_def min_def)

lemma length_vec_write: "vec_write xs i ys = Some zs \<Longrightarrow> length zs = length xs"
  by (auto simp: vec_write_def split: if_splits)

lemma slice_vec_write_before:
  "vec_write xs i ys = Some zs \<Longrightarrow> k \<le> i \<Longrightarrow> slice j k zs = slice j k xs"
proof (cases "j \<le> k")
  case True
  assume w: "vec_write xs i ys = Some zs" and k: "k \<le> i"
  then have z: "zs = take i xs @ ys @ drop (i + length ys) xs" and l: "i \<le> length xs"
    by (auto simp: vec_write_def split: if_splits)
  have "slice j k zs = take (k - j) (drop j (take i xs))"
    using z l k True by (simp add: slice_def)
  also have "\<dots> = slice j k xs"
    using k True by (simp add: slice_def drop_take min_def)
  finally show ?thesis .
qed simp

lemma slice_vec_write_at:
  "vec_write xs i ys = Some zs \<Longrightarrow> slice i (i + length ys) zs = ys"
  by (auto simp: vec_write_def slice_def split: if_splits)

lemma slice_vec_write_after:
  "vec_write xs i ys = Some zs \<Longrightarrow> i + length ys \<le> j \<Longrightarrow> slice j k zs = slice j k xs"
  by (auto simp: vec_write_def slice_def split: if_splits)

lemma vec_write_fits: "i + length ys \<le> length xs \<Longrightarrow> \<exists>zs. vec_write xs i ys = Some zs"
  by (simp add: vec_write_def)

lemmas vec_write_rules [vec_simps] =
  slice_vec_write_before slice_vec_write_at slice_vec_write_after length_vec_write

lemma vec_resize_grow:
  "length xs \<le> n \<Longrightarrow> n \<le> max_size \<Longrightarrow>
     vec_resize xs n = Some (xs @ replicate (n - length xs) (CHR 0x00))"
  by (simp add: vec_resize_def)

lemma slice_append_left: "j \<le> length xs \<Longrightarrow> slice i j (xs @ ys) = slice i j xs"
  by (simp add: slice_def)

subsection \<open>Searching\<close>

fun find_index :: "'a \<Rightarrow> 'a list \<Rightarrow> nat option" where
  "find_index c [] = None"
| "find_index c (x # xs) = (if x = c then Some 0 else map_option Suc (find_index c xs))"

fun starts_with :: "'a list \<Rightarrow> 'a list \<Rightarrow> bool" where
  "starts_with [] xs = True"
| "starts_with (p # ps) [] = False"
| "starts_with (p # ps) (x # xs) = (p = x \<and> starts_with ps xs)"

fun search_index :: "'a list \<Rightarrow> 'a list \<Rightarrow> nat option" where
  "search_index pat [] = (if pat = [] then Some 0 else None)"
| "search_index pat (x # xs) =
     (if starts_with pat (x # xs) then Some 0 else map_option Suc (search_index pat xs))"

lemma find_index_None: "find_index c xs = None \<longleftrightarrow> c \<notin> set xs"
  by (induction xs) auto

lemma find_index_Some:
  "find_index c xs = Some i \<longleftrightarrow> i < length xs \<and> xs ! i = c \<and> c \<notin> set (take i xs)"
proof (induction xs arbitrary: i)
  case Nil
  then show ?case by simp
next
  case (Cons x xs)
  show ?case
    by (cases i) (auto simp: Cons.IH)
qed

lemma starts_with_append: "starts_with p xs \<longleftrightarrow> (\<exists>ys. xs = p @ ys)"
  by (induction p xs rule: starts_with.induct) auto

lemma starts_with_take: "starts_with p xs \<longleftrightarrow> take (length p) xs = p"
  by (induction p xs rule: starts_with.induct) auto

lemma search_index_Some_bound:
  "search_index p xs = Some i \<Longrightarrow> i + length p \<le> length xs"
proof (induction xs arbitrary: i)
  case Nil
  then show ?case by (auto split: if_splits)
next
  case (Cons x xs)
  then show ?case
    by (auto simp: starts_with_append split: if_splits dest: arg_cong [of _ _ length])
qed

lemma search_index_Some_match:
  "search_index p xs = Some i \<Longrightarrow> starts_with p (drop i xs)"
  by (induction xs arbitrary: i) (auto split: if_splits)

lemma search_index_Some_first:
  "search_index p xs = Some i \<Longrightarrow> j < i \<Longrightarrow> \<not> starts_with p (drop j xs)"
proof (induction xs arbitrary: i j)
  case Nil
  then show ?case by (auto split: if_splits)
next
  case (Cons x xs)
  then show ?case by (cases j) (auto split: if_splits)
qed

lemma search_index_None:
  "search_index p xs = None \<Longrightarrow> j \<le> length xs \<Longrightarrow> \<not> starts_with p (drop j xs)"
proof (induction xs arbitrary: j)
  case Nil
  then show ?case by (cases p) (auto split: if_splits)
next
  case (Cons x xs)
  then show ?case by (cases j) (auto split: if_splits)
qed

text \<open>A match found in a prefix of the data is the match found in all of it.\<close>

lemma starts_with_mono: "starts_with p xs \<Longrightarrow> starts_with p (xs @ ys)"
  by (auto simp: starts_with_append)

lemma search_index_append:
  "search_index p xs = Some i \<Longrightarrow> search_index p (xs @ ys) = Some i"
proof (induction xs arbitrary: i)
  case Nil
  then have "p = []" by (auto split: if_splits)
  with Nil show ?case by (cases ys) auto
next
  case (Cons x xs)
  show ?case
  proof (cases "starts_with p (x # xs)")
    case True
    then have "starts_with p ((x # xs) @ ys)" by (rule starts_with_mono)
    with True Cons.prems show ?thesis by simp
  next
    case False
    with Cons.prems obtain i' where i': "search_index p xs = Some i'" "i = Suc i'"
      by auto
    have "length p \<le> length (x # xs)"
      using search_index_Some_bound [OF i'(1)] by simp
    then have "take (length p) (x # xs @ ys) = take (length p) (x # xs)"
      using take_append [of "length p" "x # xs" ys] by simp
    then have "\<not> starts_with p (x # xs @ ys)"
      using False by (metis starts_with_take)
    with Cons.IH [OF i'(1)] i'(2) show ?thesis by simp
  qed
qed

end
