(* ===== verification/Endian.thy ===== *)
theory Endian
  imports Prelude
begin

text \<open>
  \<open>tmuduo/net/Endian.h\<close>: conversions between host and network byte order. A machine
  integer in memory is the list of its bytes, least significant first (the host is
  little-endian, as the x86 targets of \<open>-march=native\<close> are); \<open>htobe\<close>/\<open>betoh\<close>
  reverse that list. The main facts are that the conversions are inverse to each other and
  that the bytes of a converted value are its big-endian bytes.
\<close>

subsection \<open>Integers in memory\<close>

definition byte_of :: "nat \<Rightarrow> char" where
  "byte_of n = char_of n"

fun le_bytes :: "nat \<Rightarrow> nat \<Rightarrow> bytes" where
  "le_bytes 0 v = []"
| "le_bytes (Suc n) v = byte_of v # le_bytes n (v div 256)"

fun le_nat :: "bytes \<Rightarrow> nat" where
  "le_nat [] = 0"
| "le_nat (c # cs) = of_char c + 256 * le_nat cs"

definition bswap :: "nat \<Rightarrow> nat \<Rightarrow> nat" where
  "bswap n v = le_nat (rev (le_bytes n v))"

subsection \<open>The conversions of Endian.h\<close>

definition hostToNetwork64 :: "64 word \<Rightarrow> 64 word" where
  "hostToNetwork64 host64 = of_nat (bswap 8 (unat host64))"

definition hostToNetwork32 :: "32 word \<Rightarrow> 32 word" where
  "hostToNetwork32 host32 = of_nat (bswap 4 (unat host32))"

definition hostToNetwork16 :: "16 word \<Rightarrow> 16 word" where
  "hostToNetwork16 host16 = of_nat (bswap 2 (unat host16))"

definition networkToHost64 :: "64 word \<Rightarrow> 64 word" where
  "networkToHost64 net64 = of_nat (bswap 8 (unat net64))"

definition networkToHost32 :: "32 word \<Rightarrow> 32 word" where
  "networkToHost32 net32 = of_nat (bswap 4 (unat net32))"

definition networkToHost16 :: "16 word \<Rightarrow> 16 word" where
  "networkToHost16 net16 = of_nat (bswap 2 (unat net16))"

subsection \<open>Lemmas\<close>

lemma length_le_bytes [simp]: "length (le_bytes n v) = n"
  by (induction n arbitrary: v) auto

lemma of_char_byte_of: "(of_char (byte_of v) :: nat) = v mod 256"
  by (simp add: byte_of_def)

lemma byte_of_mod: "byte_of (v mod 256) = byte_of v"
  by (simp add: byte_of_def)

lemma byte_of_of_char: "byte_of (of_char c + 256 * n) = c"
proof -
  have "byte_of (of_char c + 256 * n) = byte_of ((of_char c + 256 * n) mod 256)"
    by (rule byte_of_mod [symmetric])
  also have "\<dots> = byte_of (of_char c)"
    by (simp add: byte_of_mod)
  finally show ?thesis by (simp add: byte_of_def)
qed

lemma le_nat_le_bytes: "le_nat (le_bytes n v) = v mod 256 ^ n"
proof (induction n arbitrary: v)
  case 0
  then show ?case by simp
next
  case (Suc n)
  have "le_nat (le_bytes (Suc n) v) = v mod 256 + 256 * (v div 256 mod 256 ^ n)"
    by (simp add: Suc.IH of_char_byte_of)
  also have "\<dots> = v mod 256 ^ Suc n"
    by (simp add: mod_mult2_eq)
  finally show ?case .
qed

lemma of_char_div_256 [simp]: "(of_char c :: nat) div 256 = 0"
  by (simp add: of_char_def)

lemma le_bytes_le_nat: "le_bytes (length bs) (le_nat bs) = bs"
  by (induction bs) (simp_all add: byte_of_of_char)

lemma of_char_less_256: "(of_char c :: nat) < 256"
  by (simp add: of_char_def)

lemma le_nat_bound: "le_nat bs < 256 ^ length bs"
proof (induction bs)
  case Nil
  then show ?case by simp
next
  case (Cons c cs)
  then have "256 * le_nat cs + 256 \<le> 256 * 256 ^ length cs" by simp
  moreover have "(of_char c :: nat) < 256" by (rule of_char_less_256)
  ultimately have "of_char c + 256 * le_nat cs < 256 * 256 ^ length cs" by linarith
  then show ?case by simp
qed

lemma bswap_bound: "bswap n v < 256 ^ n"
  using le_nat_bound [of "rev (le_bytes n v)"] by (simp add: bswap_def)

lemma le_bytes_bswap: "le_bytes n (bswap n v) = rev (le_bytes n v)"
  using le_bytes_le_nat [of "rev (le_bytes n v)"] by (simp add: bswap_def)

lemma bswap_bswap: "v < 256 ^ n \<Longrightarrow> bswap n (bswap n v) = v"
  by (simp add: bswap_def le_bytes_bswap [unfolded bswap_def] le_nat_le_bytes)

lemma unat_hostToNetwork:
  "unat (hostToNetwork64 x64) = bswap 8 (unat x64)"
  "unat (hostToNetwork32 x32) = bswap 4 (unat x32)"
  "unat (hostToNetwork16 x16) = bswap 2 (unat x16)"
  using bswap_bound [of 8 "unat x64"] bswap_bound [of 4 "unat x32"] bswap_bound [of 2 "unat x16"]
  by (simp_all add: hostToNetwork64_def hostToNetwork32_def hostToNetwork16_def unat_of_nat)

lemma networkToHost_of_bytes:
  "length bs = 8 \<Longrightarrow> networkToHost64 (of_nat (le_nat bs)) = of_nat (le_nat (rev bs))"
  "length bs = 4 \<Longrightarrow> networkToHost32 (of_nat (le_nat bs)) = of_nat (le_nat (rev bs))"
  "length bs = 2 \<Longrightarrow> networkToHost16 (of_nat (le_nat bs)) = of_nat (le_nat (rev bs))"
  using le_nat_bound [of bs] le_bytes_le_nat [of bs]
  by (simp_all add: networkToHost64_def networkToHost32_def networkToHost16_def bswap_def
      unat_of_nat)

text \<open>The bytes in memory of a converted integer are its big-endian bytes.\<close>

definition be_bytes :: "nat \<Rightarrow> nat \<Rightarrow> bytes" where
  "be_bytes n v = rev (le_bytes n v)"

lemma length_be_bytes [simp]: "length (be_bytes n v) = n"
  by (simp add: be_bytes_def)

lemma memory_of_hostToNetwork:
  "le_bytes 8 (unat (hostToNetwork64 x64)) = be_bytes 8 (unat x64)"
  "le_bytes 4 (unat (hostToNetwork32 x32)) = be_bytes 4 (unat x32)"
  "le_bytes 2 (unat (hostToNetwork16 x16)) = be_bytes 2 (unat x16)"
  by (simp_all add: unat_hostToNetwork le_bytes_bswap be_bytes_def)

lemma unat_width:
  "unat (x64 :: 64 word) < 18446744073709551616"
  "unat (x32 :: 32 word) < 4294967296"
  "unat (x16 :: 16 word) < 65536"
  using unsigned_less [where 'a = nat, of x64] unsigned_less [where 'a = nat, of x32]
    unsigned_less [where 'a = nat, of x16] by simp_all

lemma networkToHost_be_bytes:
  "networkToHost64 (of_nat (le_nat (be_bytes 8 (unat x64)))) = x64"
  "networkToHost32 (of_nat (le_nat (be_bytes 4 (unat x32)))) = x32"
  "networkToHost16 (of_nat (le_nat (be_bytes 2 (unat x16)))) = x16"
  by (simp_all add: networkToHost_of_bytes be_bytes_def le_nat_le_bytes unat_width)

end
