(* ===== verification/Buffer.thy ===== *)
theory Buffer
  imports Endian
begin

text \<open>
  \<open>tmuduo/net/Buffer.h\<close> and \<open>Buffer.cc\<close>: the byte buffer of a connection, a vector
  with a read and a write index. The record has the class's three fields; a pointer into the
  vector is its offset; every assertion of the source is an \<open>assert_that\<close>. Index
  arithmetic is on \<open>size_t\<close> with wrap-around.

  \<open>buffer_wf\<close> is the class invariant and \<open>readable\<close> the abstraction of a buffer to the
  bytes it holds. The locale \<open>fifo_buffer\<close> states the buffer's contract (a queue of bytes)
  and is interpreted on the operations below.
\<close>

subsection \<open>State\<close>

record buffer =
  vec :: bytes
  readerIndex :: size_t
  writerIndex :: size_t

definition kCheapPrepend :: size_t where
  "kCheapPrepend = 8"

definition kInitialSize :: size_t where
  "kInitialSize = 1024"

definition kCRLF :: bytes where
  "kCRLF = [CHR 0x0D, CHR 0x0A]"

subsection \<open>Operations\<close>

definition readableBytes :: "buffer \<Rightarrow> size_t" where
  "readableBytes b = sz_sub (writerIndex b) (readerIndex b)"

definition writableBytes :: "buffer \<Rightarrow> size_t" where
  "writableBytes b = sz_sub (length (vec b)) (writerIndex b)"

definition prependableBytes :: "buffer \<Rightarrow> size_t" where
  "prependableBytes b = readerIndex b"

definition peek :: "buffer \<Rightarrow> size_t" where
  "peek b = readerIndex b"

definition beginWrite :: "buffer \<Rightarrow> size_t" where
  "beginWrite b = writerIndex b"

definition Buffer_ctor :: "buffer option" where
  "Buffer_ctor = do {
     let b = \<lparr>vec = replicate (kCheapPrepend + kInitialSize) (CHR 0x00),
              readerIndex = kCheapPrepend, writerIndex = kCheapPrepend\<rparr>;
     assert_that (readableBytes b = 0);
     assert_that (writableBytes b = kInitialSize);
     assert_that (prependableBytes b = kCheapPrepend);
     Some b }"

definition Buffer_swap :: "buffer \<Rightarrow> buffer \<Rightarrow> buffer \<times> buffer" where
  "Buffer_swap b rhs = (rhs, b)"

text \<open>
  \<open>mem b i n\<close> is the memory read by a C function given a pointer to offset \<open>i\<close> and a
  length \<open>n\<close>.
\<close>

definition mem :: "buffer \<Rightarrow> size_t \<Rightarrow> size_t \<Rightarrow> bytes" where
  "mem b i n = slice i (i + n) (vec b)"

definition findEOL :: "buffer \<Rightarrow> size_t option" where
  "findEOL b =
     map_option (\<lambda>i. peek b + i) (find_index (CHR 0x0A) (mem b (peek b) (readableBytes b)))"

definition findEOL_from :: "buffer \<Rightarrow> size_t \<Rightarrow> size_t option option" where
  "findEOL_from b start = do {
     assert_that (peek b \<le> start);
     assert_that (start \<le> beginWrite b);
     Some (map_option (\<lambda>i. start + i)
             (find_index (CHR 0x0A) (mem b start (sz_sub (beginWrite b) start)))) }"

definition findCRLF :: "buffer \<Rightarrow> size_t option" where
  "findCRLF b =
     map_option (\<lambda>i. peek b + i) (search_index kCRLF (slice (peek b) (beginWrite b) (vec b)))"

definition findCRLF_from :: "buffer \<Rightarrow> size_t \<Rightarrow> size_t option option" where
  "findCRLF_from b start = do {
     assert_that (peek b \<le> start);
     assert_that (start \<le> beginWrite b);
     Some (map_option (\<lambda>i. start + i)
             (search_index kCRLF (slice start (beginWrite b) (vec b)))) }"

definition retrieveAll :: "buffer \<Rightarrow> buffer" where
  "retrieveAll b = b\<lparr>readerIndex := kCheapPrepend, writerIndex := kCheapPrepend\<rparr>"

definition retrieve :: "size_t \<Rightarrow> buffer \<Rightarrow> buffer" where
  "retrieve len b =
     (if len < readableBytes b then b\<lparr>readerIndex := sz_add (readerIndex b) len\<rparr>
      else retrieveAll b)"

definition retrieveUntil :: "size_t \<Rightarrow> buffer \<Rightarrow> buffer option" where
  "retrieveUntil p b = do {
     assert_that (peek b \<le> p);
     assert_that (p \<le> beginWrite b);
     Some (retrieve (sz_sub p (peek b)) b) }"

definition retrieveInt64 :: "buffer \<Rightarrow> buffer" where
  "retrieveInt64 b = retrieve 8 b"

definition retrieveInt32 :: "buffer \<Rightarrow> buffer" where
  "retrieveInt32 b = retrieve 4 b"

definition retrieveInt16 :: "buffer \<Rightarrow> buffer" where
  "retrieveInt16 b = retrieve 2 b"

definition retrieveInt8 :: "buffer \<Rightarrow> buffer" where
  "retrieveInt8 b = retrieve 1 b"

definition retrieveAsString :: "size_t \<Rightarrow> buffer \<Rightarrow> (bytes \<times> buffer) option" where
  "retrieveAsString len b = do {
     assert_that (len \<le> readableBytes b);
     Some (mem b (peek b) len, retrieve len b) }"

definition retrieveAllAsString :: "buffer \<Rightarrow> (bytes \<times> buffer) option" where
  "retrieveAllAsString b = retrieveAsString (readableBytes b) b"

definition makeSpace :: "size_t \<Rightarrow> buffer \<Rightarrow> buffer option" where
  "makeSpace len b =
     (if sz_add (writableBytes b) (prependableBytes b) < sz_add len kCheapPrepend then do {
        v \<leftarrow> vec_resize (vec b) (sz_add (writerIndex b) len);
        Some (b\<lparr>vec := v\<rparr>) }
      else do {
        assert_that (kCheapPrepend < readerIndex b);
        let readable = readableBytes b;
        v \<leftarrow> vec_write (vec b) kCheapPrepend
               (slice (readerIndex b) (writerIndex b) (vec b));
        let b' = b\<lparr>vec := v, readerIndex := kCheapPrepend,
                   writerIndex := sz_add kCheapPrepend readable\<rparr>;
        assert_that (readable = readableBytes b');
        Some b' })"

definition ensureWritableBytes :: "size_t \<Rightarrow> buffer \<Rightarrow> buffer option" where
  "ensureWritableBytes len b = do {
     b' \<leftarrow> (if writableBytes b < len then makeSpace len b else Some b);
     assert_that (writableBytes b' \<ge> len);
     Some b' }"

definition hasWritten :: "size_t \<Rightarrow> buffer \<Rightarrow> buffer" where
  "hasWritten len b = b\<lparr>writerIndex := sz_add (writerIndex b) len\<rparr>"

definition Buffer_append :: "bytes \<Rightarrow> buffer \<Rightarrow> buffer option" where
  "Buffer_append data b = do {
     b' \<leftarrow> ensureWritableBytes (length data) b;
     v \<leftarrow> vec_write (vec b') (beginWrite b') data;
     Some (hasWritten (length data) (b'\<lparr>vec := v\<rparr>)) }"

definition appendInt64 :: "64 word \<Rightarrow> buffer \<Rightarrow> buffer option" where
  "appendInt64 x b = Buffer_append (le_bytes 8 (unat (hostToNetwork64 x))) b"

definition appendInt32 :: "32 word \<Rightarrow> buffer \<Rightarrow> buffer option" where
  "appendInt32 x b = Buffer_append (le_bytes 4 (unat (hostToNetwork32 x))) b"

definition appendInt16 :: "16 word \<Rightarrow> buffer \<Rightarrow> buffer option" where
  "appendInt16 x b = Buffer_append (le_bytes 2 (unat (hostToNetwork16 x))) b"

definition appendInt8 :: "8 word \<Rightarrow> buffer \<Rightarrow> buffer option" where
  "appendInt8 x b = Buffer_append (le_bytes 1 (unat x)) b"

definition toStringView :: "buffer \<Rightarrow> bytes" where
  "toStringView b = mem b (peek b) (readableBytes b)"

definition peekInt64 :: "buffer \<Rightarrow> 64 word option" where
  "peekInt64 b = do {
     assert_that (readableBytes b \<ge> 8);
     Some (networkToHost64 (of_nat (le_nat (mem b (peek b) 8)))) }"

definition peekInt32 :: "buffer \<Rightarrow> 32 word option" where
  "peekInt32 b = do {
     assert_that (readableBytes b \<ge> 4);
     Some (networkToHost32 (of_nat (le_nat (mem b (peek b) 4)))) }"

definition peekInt16 :: "buffer \<Rightarrow> 16 word option" where
  "peekInt16 b = do {
     assert_that (readableBytes b \<ge> 2);
     Some (networkToHost16 (of_nat (le_nat (mem b (peek b) 2)))) }"

definition peekInt8 :: "buffer \<Rightarrow> 8 word option" where
  "peekInt8 b = do {
     assert_that (readableBytes b \<ge> 1);
     Some (of_nat (le_nat (mem b (peek b) 1))) }"

definition readInt64 :: "buffer \<Rightarrow> (64 word \<times> buffer) option" where
  "readInt64 b = do { result \<leftarrow> peekInt64 b; Some (result, retrieveInt64 b) }"

definition readInt32 :: "buffer \<Rightarrow> (32 word \<times> buffer) option" where
  "readInt32 b = do { result \<leftarrow> peekInt32 b; Some (result, retrieveInt32 b) }"

definition readInt16 :: "buffer \<Rightarrow> (16 word \<times> buffer) option" where
  "readInt16 b = do { result \<leftarrow> peekInt16 b; Some (result, retrieveInt16 b) }"

definition readInt8 :: "buffer \<Rightarrow> (8 word \<times> buffer) option" where
  "readInt8 b = do { result \<leftarrow> peekInt8 b; Some (result, retrieveInt8 b) }"

definition prepend :: "bytes \<Rightarrow> buffer \<Rightarrow> buffer option" where
  "prepend data b = do {
     assert_that (length data \<le> prependableBytes b);
     let r = sz_sub (readerIndex b) (length data);
     v \<leftarrow> vec_write (vec b) r data;
     Some (b\<lparr>vec := v, readerIndex := r\<rparr>) }"

definition prependInt64 :: "64 word \<Rightarrow> buffer \<Rightarrow> buffer option" where
  "prependInt64 x b = prepend (le_bytes 8 (unat (hostToNetwork64 x))) b"

definition prependInt32 :: "32 word \<Rightarrow> buffer \<Rightarrow> buffer option" where
  "prependInt32 x b = prepend (le_bytes 4 (unat (hostToNetwork32 x))) b"

definition prependInt16 :: "16 word \<Rightarrow> buffer \<Rightarrow> buffer option" where
  "prependInt16 x b = prepend (le_bytes 2 (unat (hostToNetwork16 x))) b"

definition prependInt8 :: "8 word \<Rightarrow> buffer \<Rightarrow> buffer option" where
  "prependInt8 x b = prepend (le_bytes 1 (unat x)) b"

definition shrink :: "size_t \<Rightarrow> buffer \<Rightarrow> buffer option" where
  "shrink reserve b = do {
     other \<leftarrow> Buffer_ctor;
     other \<leftarrow> ensureWritableBytes (sz_add (readableBytes b) reserve) other;
     other \<leftarrow> Buffer_append (toStringView b) other;
     Some (fst (Buffer_swap b other)) }"

text \<open>
  \<open>readFd\<close> takes the outcome of \<open>readv\<close> on the free space followed by a stack buffer of
  65536 bytes: \<open>Inl e\<close> is the return value \<open>-1\<close> with \<open>errno = e\<close>, \<open>Inr data\<close> the
  bytes the kernel delivered, first into the free space and then into the stack buffer. The
  result is the return value, the saved errno and the buffer.
\<close>

definition readFd :: "(size_t \<Rightarrow> int + bytes) \<Rightarrow> int \<Rightarrow> buffer \<Rightarrow> (int \<times> int \<times> buffer) option" where
  "readFd readv savedErrno b =
     (let writable = writableBytes b in
      case readv (writable + 65536) of
        Inl e \<Rightarrow> Some (- 1, e, b)
      | Inr data \<Rightarrow>
          (if length data \<le> writable then do {
             v \<leftarrow> vec_write (vec b) (writerIndex b) data;
             Some (int (length data), savedErrno,
                   b\<lparr>vec := v, writerIndex := sz_add (writerIndex b) (length data)\<rparr>) }
           else do {
             v \<leftarrow> vec_write (vec b) (writerIndex b) (take writable data);
             b' \<leftarrow> Buffer_append (drop writable data)
                     (b\<lparr>vec := v, writerIndex := length v\<rparr>);
             Some (int (length data), savedErrno, b') }))"

subsection \<open>Invariant and abstraction\<close>

text \<open>
  The write index never lies in the prepend space: only \<open>prepend\<close> uses that space, and it
  moves the read index.
\<close>

definition buffer_wf :: "buffer \<Rightarrow> bool" where
  "buffer_wf b \<longleftrightarrow> kCheapPrepend \<le> writerIndex b \<and>
     readerIndex b \<le> writerIndex b \<and> writerIndex b \<le> length (vec b) \<and> length (vec b) \<le> max_size"

definition readable :: "buffer \<Rightarrow> bytes" where
  "readable b = slice (readerIndex b) (writerIndex b) (vec b)"

text \<open>The vector can take \<open>n\<close> more bytes behind the write index.\<close>

definition has_room :: "buffer \<Rightarrow> size_t \<Rightarrow> bool" where
  "has_room b n \<longleftrightarrow> writerIndex b + n \<le> max_size"

lemma max_size_prepend: "a \<le> max_size \<Longrightarrow> a + kCheapPrepend < 2 ^ 64"
  by (simp add: max_size_def kCheapPrepend_def)

lemma max_size_lt: "a \<le> max_size \<Longrightarrow> a < 2 ^ 64"
  by (simp add: max_size_def)

lemma buffer_wfD:
  assumes "buffer_wf b"
  shows "kCheapPrepend \<le> writerIndex b" "readerIndex b \<le> writerIndex b"
    "writerIndex b \<le> length (vec b)" "length (vec b) \<le> max_size"
  using assms by (simp_all add: buffer_wf_def)

lemma readableBytes_wf: "buffer_wf b \<Longrightarrow> readableBytes b = writerIndex b - readerIndex b"
  unfolding buffer_wf_def readableBytes_def by (intro sz_sub_no_wrap max_size_lt) auto

lemma writableBytes_wf: "buffer_wf b \<Longrightarrow> writableBytes b = length (vec b) - writerIndex b"
  unfolding buffer_wf_def writableBytes_def by (intro sz_sub_no_wrap max_size_lt) auto

lemma length_readable: "buffer_wf b \<Longrightarrow> length (readable b) = writerIndex b - readerIndex b"
  using buffer_wfD(3) [of b] by (simp add: readable_def min_def)

lemma readableBytes_length: "buffer_wf b \<Longrightarrow> readableBytes b = length (readable b)"
  by (simp add: readableBytes_wf length_readable)

lemma mem_readable:
  "buffer_wf b \<Longrightarrow> n \<le> length (readable b) \<Longrightarrow> mem b (peek b) n = take n (readable b)"
  by (simp add: mem_def peek_def length_readable) (simp add: readable_def take_slice)

lemma toStringView_readable: "buffer_wf b \<Longrightarrow> toStringView b = readable b"
  by (simp add: toStringView_def readableBytes_length mem_readable)

subsection \<open>The constructor\<close>

definition empty_buffer :: buffer where
  "empty_buffer = \<lparr>vec = replicate 1032 (CHR 0x00), readerIndex = 8, writerIndex = 8\<rparr>"

lemma empty_buffer_wf [simp]: "buffer_wf empty_buffer"
  by (simp add: buffer_wf_def empty_buffer_def max_size_def kCheapPrepend_def)

lemma readable_empty [simp]: "readable empty_buffer = []"
  by (simp add: readable_def empty_buffer_def)

lemma Buffer_ctor_eq: "Buffer_ctor = Some empty_buffer"
proof -
  have "writableBytes empty_buffer = 1024" "readableBytes empty_buffer = 0"
    by (simp_all add: writableBytes_wf readableBytes_wf) (simp_all add: empty_buffer_def)
  then show ?thesis
    by (simp add: Buffer_ctor_def kCheapPrepend_def kInitialSize_def prependableBytes_def
        empty_buffer_def)
qed

subsection \<open>Consuming\<close>

lemma retrieveAll_wf: "buffer_wf b \<Longrightarrow> buffer_wf (retrieveAll b)"
  by (simp add: buffer_wf_def retrieveAll_def)

lemma readable_retrieveAll [simp]: "readable (retrieveAll b) = []"
  by (simp add: readable_def retrieveAll_def)

lemma retrieve_index:
  assumes wf: "buffer_wf b" and n: "n < readableBytes b"
  shows "retrieve n b = b\<lparr>readerIndex := readerIndex b + n\<rparr>" "readerIndex b + n \<le> writerIndex b"
proof -
  from wf n show le: "readerIndex b + n \<le> writerIndex b" by (simp add: readableBytes_wf)
  with buffer_wfD [OF wf] have "readerIndex b + n \<le> max_size" by linarith
  then have "sz_add (readerIndex b) n = readerIndex b + n"
    by (intro sz_add_no_wrap max_size_lt)
  with n show "retrieve n b = b\<lparr>readerIndex := readerIndex b + n\<rparr>" by (simp add: retrieve_def)
qed

lemma retrieve_readable: "buffer_wf b \<Longrightarrow> readable (retrieve n b) = drop n (readable b)"
proof (cases "n < readableBytes b")
  case True
  assume "buffer_wf b"
  with True show ?thesis by (simp add: retrieve_index) (simp add: readable_def drop_slice)
next
  case False
  assume "buffer_wf b"
  with False show ?thesis by (simp add: retrieve_def readableBytes_length)
qed

lemma retrieve_wf: "buffer_wf b \<Longrightarrow> buffer_wf (retrieve n b)"
proof (cases "n < readableBytes b")
  case True
  assume wf: "buffer_wf b"
  note i = retrieve_index [OF wf True]
  from wf i(2) show ?thesis unfolding i(1) by (simp add: buffer_wf_def)
next
  case False
  assume "buffer_wf b"
  with False show ?thesis by (simp add: retrieve_def retrieveAll_wf)
qed

lemma retrieve_has_room: "buffer_wf b \<Longrightarrow> has_room b k \<Longrightarrow> has_room (retrieve n b) k"
  by (simp add: retrieve_def retrieveAll_def has_room_def buffer_wf_def)

lemma retrieveUntil_eq:
  assumes wf: "buffer_wf b" and n: "n \<le> length (readable b)"
  shows "retrieveUntil (peek b + n) b = Some (retrieve n b)"
proof -
  have le: "readerIndex b + n \<le> writerIndex b"
    using n buffer_wfD [OF wf] by (simp add: length_readable [OF wf])
  with buffer_wfD [OF wf] have "readerIndex b + n \<le> max_size" by linarith
  then have "sz_sub (readerIndex b + n) (readerIndex b) = n"
    by (simp only: sz_sub_no_wrap [OF le_add1 max_size_lt] add_diff_cancel_left')
  with le show ?thesis by (simp add: retrieveUntil_def peek_def beginWrite_def)
qed

lemma retrieveAsString_eq:
  "buffer_wf b \<Longrightarrow> n \<le> length (readable b) \<Longrightarrow>
     retrieveAsString n b = Some (take n (readable b), retrieve n b)"
  by (simp add: retrieveAsString_def readableBytes_length mem_readable)

lemma retrieveAllAsString_eq:
  "buffer_wf b \<Longrightarrow> retrieveAllAsString b = Some (readable b, retrieveAll b)"
  by (simp add: retrieveAllAsString_def readableBytes_length retrieveAsString_eq)
    (simp add: retrieve_def readableBytes_length)

subsection \<open>Making room and appending\<close>

lemma makeSpace_grow:
  assumes wf: "buffer_wf b" and room: "has_room b n" and n: "writableBytes b < n"
    and grow: "writableBytes b + prependableBytes b < n + kCheapPrepend"
  shows "\<exists>b'. makeSpace n b = Some b' \<and> buffer_wf b' \<and> readable b' = readable b \<and>
    length (vec b') = writerIndex b + n \<and> writerIndex b' = writerIndex b"
proof -
  note w = buffer_wfD [OF wf]
  have s1: "sz_add (writableBytes b) (prependableBytes b) = writableBytes b + prependableBytes b"
    using w by (intro sz_add_no_wrap max_size_lt)
      (simp add: writableBytes_wf [OF wf] prependableBytes_def)
  have s2: "sz_add n kCheapPrepend = n + kCheapPrepend"
    using room by (intro sz_add_no_wrap max_size_prepend) (simp add: has_room_def)
  have s3: "sz_add (writerIndex b) n = writerIndex b + n"
    using room by (intro sz_add_no_wrap max_size_lt) (simp add: has_room_def)
  have le: "length (vec b) \<le> writerIndex b + n"
    using n w by (simp add: writableBytes_wf [OF wf])
  have r: "vec_resize (vec b) (writerIndex b + n) =
      Some (vec b @ replicate (writerIndex b + n - length (vec b)) (CHR 0x00))"
    using le room by (intro vec_resize_grow) (simp_all add: has_room_def)
  show ?thesis
    using grow w le room
    by (simp add: makeSpace_def s1 s2 s3 r)
      (simp add: buffer_wf_def readable_def slice_append_left has_room_def)
qed

lemma makeSpace_move:
  assumes wf: "buffer_wf b" and room: "has_room b n" and n: "writableBytes b < n"
    and move: "n + kCheapPrepend \<le> writableBytes b + prependableBytes b"
  shows "\<exists>b'. makeSpace n b = Some b' \<and> buffer_wf b' \<and> readable b' = readable b \<and>
    length (vec b') = length (vec b) \<and> writerIndex b' + n \<le> length (vec b) \<and>
    readerIndex b' = kCheapPrepend \<and> writerIndex b' \<le> writerIndex b"
proof -
  note w = buffer_wfD [OF wf]
  have s1: "sz_add (writableBytes b) (prependableBytes b) = writableBytes b + prependableBytes b"
    using w by (intro sz_add_no_wrap max_size_lt)
      (simp add: writableBytes_wf [OF wf] prependableBytes_def)
  have s2: "sz_add n kCheapPrepend = n + kCheapPrepend"
    using room by (intro sz_add_no_wrap max_size_prepend) (simp add: has_room_def)
  have r: "kCheapPrepend < readerIndex b"
    using n move by (simp add: prependableBytes_def)
  let ?rd = "readable b"
  have len: "length ?rd = writerIndex b - readerIndex b" by (rule length_readable [OF wf])
  have fits: "kCheapPrepend + length ?rd \<le> length (vec b)" using r w len by simp
  then obtain v where v: "vec_write (vec b) kCheapPrepend ?rd = Some v"
    using vec_write_fits by blast
  have s3: "sz_add kCheapPrepend (length ?rd) = kCheapPrepend + length ?rd"
    using fits w by (intro sz_add_no_wrap max_size_lt) simp
  let ?b' = "b\<lparr>vec := v, readerIndex := kCheapPrepend, writerIndex := kCheapPrepend + length ?rd\<rparr>"
  have lv: "length v = length (vec b)" by (rule length_vec_write [OF v])
  have wf': "buffer_wf ?b'" using fits w lv by (simp add: buffer_wf_def)
  have rd': "readable ?b' = ?rd" using slice_vec_write_at [OF v] by (simp add: readable_def)
  have "makeSpace n b = Some ?b'"
    using r v move n readableBytes_length [OF wf'] rd' readableBytes_length [OF wf]
    by (simp add: makeSpace_def s1 s2 s3 Let_def readable_def [symmetric])
  moreover have "kCheapPrepend + length ?rd + n \<le> length (vec b)"
    using move w len by (simp add: writableBytes_wf [OF wf] prependableBytes_def)
  moreover have "kCheapPrepend + length ?rd \<le> writerIndex b" using r w(2) len by linarith
  ultimately show ?thesis using wf' rd' lv by simp
qed

lemma ensureWritableBytes_ok:
  assumes wf: "buffer_wf b" and room: "has_room b n"
  shows "\<exists>b'. ensureWritableBytes n b = Some b' \<and> buffer_wf b' \<and> readable b' = readable b \<and>
    writerIndex b' + n \<le> length (vec b') \<and> writerIndex b' \<le> writerIndex b"
proof (cases "writableBytes b < n")
  case False
  with wf have "writerIndex b + n \<le> length (vec b)"
    using buffer_wfD [OF wf] by (simp add: writableBytes_wf)
  with wf False show ?thesis by (simp add: ensureWritableBytes_def)
next
  case True
  have "\<exists>b'. makeSpace n b = Some b' \<and> buffer_wf b' \<and> readable b' = readable b \<and>
      writerIndex b' + n \<le> length (vec b') \<and> writerIndex b' \<le> writerIndex b"
    using makeSpace_grow [OF wf room True] makeSpace_move [OF wf room True]
    by (cases "writableBytes b + prependableBytes b < n + kCheapPrepend") force+
  then obtain b' where b': "makeSpace n b = Some b'" "buffer_wf b'" "readable b' = readable b"
    "writerIndex b' + n \<le> length (vec b')" "writerIndex b' \<le> writerIndex b" by blast
  then have "n \<le> writableBytes b'" by (simp add: writableBytes_wf)
  with b' True show ?thesis by (simp add: ensureWritableBytes_def)
qed

lemma Buffer_append_ok:
  assumes wf: "buffer_wf b" and room: "has_room b (length d)"
  shows "\<exists>b'. Buffer_append d b = Some b' \<and> buffer_wf b' \<and> readable b' = readable b @ d \<and>
    writerIndex b' \<le> writerIndex b + length d"
proof -
  obtain c where c: "ensureWritableBytes (length d) b = Some c" "buffer_wf c"
    "readable c = readable b" "writerIndex c + length d \<le> length (vec c)"
    "writerIndex c \<le> writerIndex b"
    using ensureWritableBytes_ok [OF wf room] by blast
  note w = buffer_wfD [OF c(2)]
  obtain v where v: "vec_write (vec c) (writerIndex c) d = Some v"
    using vec_write_fits [OF c(4)] by blast
  have s: "sz_add (writerIndex c) (length d) = writerIndex c + length d"
    using c(4) w by (intro sz_add_no_wrap max_size_lt) simp
  have lv: "length v = length (vec c)" by (rule length_vec_write [OF v])
  let ?b' = "c\<lparr>vec := v, writerIndex := writerIndex c + length d\<rparr>"
  have "Buffer_append d b = Some ?b'"
    using c(1) v by (simp add: Buffer_append_def beginWrite_def hasWritten_def s)
  moreover have "buffer_wf ?b'" using w c(4) lv by (simp add: buffer_wf_def)
  moreover have "readable ?b' = readable b @ d"
    using slice_vec_write_at [OF v] slice_vec_write_before [OF v, of "writerIndex c"] w(2)
      slice_split [of "readerIndex c" "writerIndex c" "writerIndex c + length d" v]
    by (simp add: readable_def c(3) [unfolded readable_def, symmetric])
  moreover have "writerIndex ?b' \<le> writerIndex b + length d" using c(5) by simp
  ultimately show ?thesis by blast
qed


subsection \<open>Prepending, integers, shrinking, reading from a descriptor\<close>

lemma prepend_ok:
  assumes wf: "buffer_wf b" and fits: "length d \<le> readerIndex b"
  shows "\<exists>b'. prepend d b = Some b' \<and> buffer_wf b' \<and> readable b' = d @ readable b \<and>
    writerIndex b' = writerIndex b"
proof -
  note w = buffer_wfD [OF wf]
  let ?r = "readerIndex b - length d"
  have "readerIndex b \<le> max_size" using w by linarith
  then have s: "sz_sub (readerIndex b) (length d) = ?r"
    using fits by (intro sz_sub_no_wrap max_size_lt)
  have "?r + length d \<le> length (vec b)" using fits w by linarith
  then obtain v where v: "vec_write (vec b) ?r d = Some v" using vec_write_fits by blast
  have lv: "length v = length (vec b)" by (rule length_vec_write [OF v])
  let ?b' = "b\<lparr>vec := v, readerIndex := ?r\<rparr>"
  have "prepend d b = Some ?b'"
    using fits v by (simp add: prepend_def prependableBytes_def s)
  moreover have "buffer_wf ?b'" using w lv by (simp add: buffer_wf_def)
  moreover have "readable ?b' = d @ readable b"
    using slice_vec_write_at [OF v] slice_vec_write_after [OF v, of "readerIndex b"] w(2) fits
      slice_split [of ?r "readerIndex b" "writerIndex b" v]
    by (simp add: readable_def)
  ultimately show ?thesis by simp
qed

lemma shrink_ok:
  assumes wf: "buffer_wf b" and fit: "kCheapPrepend + length (readable b) + reserve \<le> max_size"
  shows "\<exists>b'. shrink reserve b = Some b' \<and> buffer_wf b' \<and> readable b' = readable b"
proof -
  let ?n = "length (readable b) + reserve"
  have s: "sz_add (readableBytes b) reserve = ?n"
    using fit unfolding readableBytes_length [OF wf] by (intro sz_add_no_wrap max_size_lt) simp
  have "has_room empty_buffer ?n"
    using fit by (simp add: has_room_def empty_buffer_def kCheapPrepend_def)
  then obtain c where c: "ensureWritableBytes ?n empty_buffer = Some c" "buffer_wf c"
    "readable c = []" "writerIndex c + ?n \<le> length (vec c)"
    using ensureWritableBytes_ok [OF empty_buffer_wf] by fastforce
  have "has_room c (length (readable b))"
    using c(4) buffer_wfD(4) [OF c(2)] by (simp add: has_room_def)
  then obtain e where "Buffer_append (readable b) c = Some e" "buffer_wf e" "readable e = readable b"
    using Buffer_append_ok [OF c(2)] c(3) by fastforce
  with c(1) show ?thesis
    by (simp add: shrink_def Buffer_ctor_eq s toStringView_readable [OF wf] Buffer_swap_def)
qed

lemma write_free:
  assumes wf: "buffer_wf b" and "length d \<le> writableBytes b"
  shows "\<exists>v. vec_write (vec b) (writerIndex b) d = Some v \<and> length v = length (vec b) \<and>
    slice (readerIndex b) (writerIndex b + length d) v = readable b @ d"
proof -
  note w = buffer_wfD [OF wf]
  let ?w = "writerIndex b"
  have "?w + length d \<le> length (vec b)" using assms(2) w writableBytes_wf [OF wf] by linarith
  then obtain v where v: "vec_write (vec b) ?w d = Some v" using vec_write_fits by blast
  with slice_split [of "readerIndex b" ?w "?w + length d" v] w(2) show ?thesis
    using slice_vec_write_at [OF v] slice_vec_write_before [OF v, of ?w] length_vec_write [OF v]
    by (simp add: readable_def)
qed

lemma readFd_ok:
  assumes wf: "buffer_wf b" and data: "readv (writableBytes b + 65536) = Inr d"
    and room: "has_room b (length d)"
  shows "\<exists>b'. readFd readv e b = Some (int (length d), e, b') \<and> buffer_wf b' \<and>
    readable b' = readable b @ d \<and> writerIndex b' \<le> writerIndex b + length d"
proof -
  note w = buffer_wfD [OF wf]
  let ?w = "writerIndex b" and ?free = "writableBytes b"
  have free: "?free = length (vec b) - ?w" by (rule writableBytes_wf [OF wf])
  show ?thesis
  proof (cases "length d \<le> ?free")
    case True
    from write_free [OF wf this] obtain v where v: "vec_write (vec b) ?w d = Some v"
      "length v = length (vec b)" "slice (readerIndex b) (?w + length d) v = readable b @ d" by blast
    have "?w + length d \<le> length (vec b)" using True w free by linarith
    moreover have "sz_add ?w (length d) = ?w + length d"
      using room by (intro sz_add_no_wrap max_size_lt) (simp add: has_room_def)
    ultimately show ?thesis
      using True v w data by (simp add: readFd_def Let_def) (simp add: buffer_wf_def readable_def)
  next
    case False
    let ?d1 = "take ?free d" and ?d2 = "drop ?free d"
    from write_free [OF wf, of ?d1] False obtain v where v: "vec_write (vec b) ?w ?d1 = Some v"
      "length v = length (vec b)" "slice (readerIndex b) (?w + ?free) v = readable b @ ?d1" by auto
    let ?c = "b\<lparr>vec := v, writerIndex := length v\<rparr>"
    have end_eq: "?w + ?free = length v" using w free v(2) by simp
    have c: "buffer_wf ?c" "readable ?c = readable b @ ?d1"
      using w v end_eq by (simp_all add: buffer_wf_def readable_def)
    have len: "length v + length ?d2 = ?w + length d" using end_eq False by simp
    then have "has_room ?c (length ?d2)" using room by (simp add: has_room_def)
    from Buffer_append_ok [OF c(1) this] obtain b' where
      "Buffer_append ?d2 ?c = Some b'" "buffer_wf b'" "readable b' = readable b @ d"
      "writerIndex b' \<le> ?w + length d"
      using c(2) len by auto
    with False v(1) data show ?thesis by (simp add: readFd_def Let_def)
  qed
qed

lemma readFd_error: "readv (writableBytes b + 65536) = Inl err \<Longrightarrow> readFd readv e b = Some (- 1, err, b)"
  by (simp add: readFd_def Let_def)


subsection \<open>The contract: a queue of bytes\<close>

text \<open>
  A client sequence of insertions and removals, run on an implementation and on the list
  that specifies it.
\<close>

datatype 'a queue_op = Put "'a list" | Take nat

fun run_ops :: "('a list \<Rightarrow> 'b \<Rightarrow> 'b option) \<Rightarrow> (nat \<Rightarrow> 'b \<Rightarrow> 'b) \<Rightarrow> 'a queue_op list \<Rightarrow> 'b \<Rightarrow> 'b option"
where
  "run_ops put get [] b = Some b"
| "run_ops put get (Put d # ops) b = do { b' \<leftarrow> put d b; run_ops put get ops b' }"
| "run_ops put get (Take n # ops) b = run_ops put get ops (get n b)"

fun run_queue :: "'a queue_op list \<Rightarrow> 'a list \<Rightarrow> 'a list" where
  "run_queue [] q = q"
| "run_queue (Put d # ops) q = run_queue ops (q @ d)"
| "run_queue (Take n # ops) q = run_queue ops (drop n q)"

fun put_total :: "'a queue_op list \<Rightarrow> nat" where
  "put_total [] = 0"
| "put_total (Put d # ops) = length d + put_total ops"
| "put_total (Take n # ops) = put_total ops"

locale fifo_buffer =
  fixes invar :: "'b \<Rightarrow> bool"
    and content :: "'b \<Rightarrow> 'a list"
    and room :: "'b \<Rightarrow> nat \<Rightarrow> bool"
    and put :: "'a list \<Rightarrow> 'b \<Rightarrow> 'b option"
    and get :: "nat \<Rightarrow> 'b \<Rightarrow> 'b"
  assumes put_ok: "invar b \<Longrightarrow> room b (length d) \<Longrightarrow>
      \<exists>b'. put d b = Some b' \<and> invar b' \<and> content b' = content b @ d"
    and put_room: "invar b \<Longrightarrow> room b (length d + n) \<Longrightarrow> put d b = Some b' \<Longrightarrow> room b' n"
    and room_mono: "room b n \<Longrightarrow> m \<le> n \<Longrightarrow> room b m"
    and get_invar: "invar b \<Longrightarrow> invar (get n b)"
    and get_content: "invar b \<Longrightarrow> content (get n b) = drop n (content b)"
    and get_room: "invar b \<Longrightarrow> room b m \<Longrightarrow> room (get n b) m"
begin

lemma put_SomeD:
  assumes "invar b" and "room b (length d)" and "put d b = Some b'"
  shows "invar b'" "content b' = content b @ d"
  using put_ok [OF assms(1,2)] assms(3) by auto

lemma run_ops_refines:
  "invar b \<Longrightarrow> room b (put_total ops) \<Longrightarrow>
     \<exists>b'. run_ops put get ops b = Some b' \<and> invar b' \<and> content b' = run_queue ops (content b)"
proof (induction ops arbitrary: b)
  case Nil
  then show ?case by simp
next
  case (Cons op ops)
  show ?case
  proof (cases op)
    case (Put d)
    with Cons.prems have r: "room b (length d + put_total ops)" by simp
    then have "room b (length d)" by (rule room_mono) simp
    with put_ok Cons.prems(1) obtain b' where
      b': "put d b = Some b'" "invar b'" "content b' = content b @ d" by blast
    then have "room b' (put_total ops)" using put_room Cons.prems(1) r by blast
    with Cons.IH [OF b'(2)] b' Put show ?thesis by simp
  next
    case (Take n)
    with Cons.prems have "invar (get n b)" "room (get n b) (put_total ops)"
      by (simp_all add: get_invar get_room)
    with Cons.IH [of "get n b"] Take Cons.prems(1) show ?thesis by (simp add: get_content)
  qed
qed

lemma get_get_content: "invar b \<Longrightarrow> content (get m (get n b)) = content (get (n + m) b)"
  by (simp add: get_content get_invar add.commute)

end

interpretation buf: fifo_buffer buffer_wf readable has_room Buffer_append retrieve
proof (unfold_locales, goal_cases)
  case (1 b d)
  then show ?case using Buffer_append_ok by blast
next
  case (2 b d n b')
  then have "has_room b (length d)" by (simp add: has_room_def)
  with Buffer_append_ok [OF 2(1)] 2(3) have "writerIndex b' \<le> writerIndex b + length d" by fastforce
  with 2(2) show ?case by (simp add: has_room_def)
next
  case (3 b n m)
  then show ?case by (simp add: has_room_def)
next
  case (4 b n)
  then show ?case by (rule retrieve_wf)
next
  case (5 b n)
  then show ?case by (rule retrieve_readable)
next
  case (6 b m n)
  then show ?case by (rule retrieve_has_room)
qed


subsection \<open>Integers and searching on the readable bytes\<close>

lemma appendInt_ok:
  "buffer_wf b \<Longrightarrow> has_room b 8 \<Longrightarrow>
     \<exists>b'. appendInt64 x64 b = Some b' \<and> buffer_wf b' \<and> readable b' = readable b @ be_bytes 8 (unat x64)"
  "buffer_wf b \<Longrightarrow> has_room b 4 \<Longrightarrow>
     \<exists>b'. appendInt32 x32 b = Some b' \<and> buffer_wf b' \<and> readable b' = readable b @ be_bytes 4 (unat x32)"
  "buffer_wf b \<Longrightarrow> has_room b 2 \<Longrightarrow>
     \<exists>b'. appendInt16 x16 b = Some b' \<and> buffer_wf b' \<and> readable b' = readable b @ be_bytes 2 (unat x16)"
  "buffer_wf b \<Longrightarrow> has_room b 1 \<Longrightarrow>
     \<exists>b'. appendInt8 x8 b = Some b' \<and> buffer_wf b' \<and> readable b' = readable b @ le_bytes 1 (unat x8)"
  unfolding appendInt64_def appendInt32_def appendInt16_def appendInt8_def memory_of_hostToNetwork
  using buf.put_ok [of b "be_bytes 8 (unat x64)"] buf.put_ok [of b "be_bytes 4 (unat x32)"]
    buf.put_ok [of b "be_bytes 2 (unat x16)"] buf.put_ok [of b "le_bytes 1 (unat x8)"]
  by simp_all

lemma mem_prefix: "buffer_wf b \<Longrightarrow> readable b = d @ rest \<Longrightarrow> mem b (peek b) (length d) = d"
  by (simp add: mem_readable)

lemma le_nat_byte: "(of_nat (le_nat (le_bytes 1 (unat x))) :: 8 word) = x"
  using unsigned_less [where 'a = nat, of x] by (simp add: le_nat_le_bytes del: le_bytes.simps)

lemma readInt_ok:
  "buffer_wf b \<Longrightarrow> readable b = be_bytes 8 (unat x64) @ rest \<Longrightarrow> readInt64 b = Some (x64, retrieve 8 b)"
  "buffer_wf b \<Longrightarrow> readable b = be_bytes 4 (unat x32) @ rest \<Longrightarrow> readInt32 b = Some (x32, retrieve 4 b)"
  "buffer_wf b \<Longrightarrow> readable b = be_bytes 2 (unat x16) @ rest \<Longrightarrow> readInt16 b = Some (x16, retrieve 2 b)"
  "buffer_wf b \<Longrightarrow> readable b = le_bytes 1 (unat x8) @ rest \<Longrightarrow> readInt8 b = Some (x8, retrieve 1 b)"
  using mem_prefix [of b "be_bytes 8 (unat x64)" rest] mem_prefix [of b "be_bytes 4 (unat x32)" rest]
    mem_prefix [of b "be_bytes 2 (unat x16)" rest] mem_prefix [of b "le_bytes 1 (unat x8)" rest]
  by (simp_all add: readInt64_def readInt32_def readInt16_def readInt8_def peekInt64_def
      peekInt32_def peekInt16_def peekInt8_def retrieveInt64_def retrieveInt32_def
      retrieveInt16_def retrieveInt8_def readableBytes_length networkToHost_be_bytes le_nat_byte
      del: le_bytes.simps One_nat_def)

lemma findCRLF_eq:
  "buffer_wf b \<Longrightarrow> findCRLF b = map_option (\<lambda>i. peek b + i) (search_index kCRLF (readable b))"
  by (simp add: findCRLF_def peek_def beginWrite_def readable_def)

lemma findEOL_eq:
  "buffer_wf b \<Longrightarrow> findEOL b = map_option (\<lambda>i. peek b + i) (find_index (CHR 0x0A) (readable b))"
  using toStringView_readable [of b] by (simp add: findEOL_def toStringView_def)

lemma findCRLF_from_eq:
  "buffer_wf b \<Longrightarrow> k \<le> length (readable b) \<Longrightarrow> findCRLF_from b (peek b + k) =
     Some (map_option (\<lambda>i. peek b + k + i) (search_index kCRLF (drop k (readable b))))"
  using buffer_wfD(2) [of b]
  by (simp add: findCRLF_from_def peek_def beginWrite_def length_readable)
    (simp add: readable_def drop_slice)


subsection \<open>Properties\<close>

text \<open>
  C1: a freshly constructed buffer is a queue of bytes. Any sequence of \<open>append\<close> and
  \<open>retrieve\<close> calls whose appended bytes fit a vector runs without a failed assertion, an
  exception or an access outside the vector, keeps the class invariant, and leaves exactly the
  bytes the list specification leaves, whichever mix of growing and moving \<open>makeSpace\<close> did.
\<close>

theorem buffer_refines_byte_queue:
  assumes "Buffer_ctor = Some b" and "kCheapPrepend + put_total ops \<le> max_size"
  shows "\<exists>b'. run_ops Buffer_append retrieve ops b = Some b' \<and> buffer_wf b' \<and>
    toStringView b' = run_queue ops [] \<and> readableBytes b' = length (run_queue ops [])"
proof -
  have b: "b = empty_buffer" using assms(1) by (simp add: Buffer_ctor_eq)
  have "has_room empty_buffer (put_total ops)"
    using assms(2) by (simp add: has_room_def empty_buffer_def kCheapPrepend_def)
  from buf.run_ops_refines [OF empty_buffer_wf this] show ?thesis
    using b by (auto simp: toStringView_readable readableBytes_length)
qed

theorem buffer_refines_byte_queue_witness:
  "\<exists>b b'. Buffer_ctor = Some b \<and>
     run_ops Buffer_append retrieve [Put ''hello'', Take 2, Put ''!''] b = Some b' \<and>
     toStringView b' = ''llo!''"
proof -
  have "kCheapPrepend + put_total [Put ''hello'', Take 2, Put ''!''] \<le> max_size"
    by (simp add: kCheapPrepend_def max_size_def)
  from buffer_refines_byte_queue [OF Buffer_ctor_eq this] show ?thesis
    by (auto simp: Buffer_ctor_eq)
qed

text \<open>
  C23: integers written in network byte order are read back unchanged, in the order written:
  appending an 8-, a 16-, a 32- and a 64-bit integer to an empty buffer and reading the same
  widths returns the four values and leaves the buffer empty.
\<close>

theorem buffer_int_roundtrip:
  assumes "buffer_wf b" and "readable b = []" and "has_room b 15"
  shows "\<exists>b1 b2 b3 b4 c1 c2 c3 c4.
    appendInt8 w b = Some b1 \<and> appendInt16 x b1 = Some b2 \<and> appendInt32 y b2 = Some b3 \<and>
    appendInt64 z b3 = Some b4 \<and> readInt8 b4 = Some (w, c1) \<and> readInt16 c1 = Some (x, c2) \<and>
    readInt32 c2 = Some (y, c3) \<and> readInt64 c3 = Some (z, c4) \<and> buffer_wf c4 \<and> readable c4 = []"
proof -
  let ?w = "le_bytes 1 (unat w)" and ?x = "be_bytes 2 (unat x)"
  let ?y = "be_bytes 4 (unat y)" and ?z = "be_bytes 8 (unat z)"
  let ?d = "?w @ ?x @ ?y @ ?z"
  have r: "has_room b 1" using assms(3) by (simp add: has_room_def)
  obtain b1 where b1: "appendInt8 w b = Some b1" "buffer_wf b1" "readable b1 = ?w" "has_room b1 14"
    using appendInt_ok(4) [OF assms(1) r, of w] buf.put_room [OF assms(1), of ?w 14] assms(2,3)
    by (auto simp: appendInt8_def simp del: le_bytes.simps One_nat_def)
  have r1: "has_room b1 2" using b1(4) by (simp add: has_room_def)
  obtain b2 where b2: "appendInt16 x b1 = Some b2" "buffer_wf b2" "readable b2 = ?w @ ?x" "has_room b2 12"
    using appendInt_ok(3) [OF b1(2) r1, of x] buf.put_room [OF b1(2), of ?x 12] b1(3,4)
    by (auto simp: appendInt16_def memory_of_hostToNetwork simp del: le_bytes.simps One_nat_def)
  have r2: "has_room b2 4" using b2(4) by (simp add: has_room_def)
  obtain b3 where b3: "appendInt32 y b2 = Some b3" "buffer_wf b3" "readable b3 = ?w @ ?x @ ?y" "has_room b3 8"
    using appendInt_ok(2) [OF b2(2) r2, of y] buf.put_room [OF b2(2), of ?y 8] b2(3,4)
    by (auto simp: appendInt32_def memory_of_hostToNetwork simp del: le_bytes.simps One_nat_def)
  obtain b4 where b4: "appendInt64 z b3 = Some b4" "buffer_wf b4" "readable b4 = ?d"
    using appendInt_ok(1) [OF b3(2,4), of z] b3(3) by auto
  let ?c1 = "retrieve 1 b4"
  let ?c2 = "retrieve 2 ?c1"
  let ?c3 = "retrieve 4 ?c2"
  let ?c4 = "retrieve 8 ?c3"
  have c1: "buffer_wf ?c1" "readable ?c1 = ?x @ ?y @ ?z"
    using b4 by (simp_all add: buf.get_invar buf.get_content del: le_bytes.simps One_nat_def)
  have c2: "buffer_wf ?c2" "readable ?c2 = ?y @ ?z"
    using c1 by (simp_all add: buf.get_invar buf.get_content)
  have c3: "buffer_wf ?c3" "readable ?c3 = ?z @ []"
    using c2 by (simp_all add: buf.get_invar buf.get_content)
  have c4: "buffer_wf ?c4" "readable ?c4 = []"
    using c3 by (simp_all add: buf.get_invar buf.get_content)
  show ?thesis
    using b1(1) b2(1) b3(1) b4(1) c4 readInt_ok(4) [OF b4(2,3)] readInt_ok(3) [OF c1]
      readInt_ok(2) [OF c2] readInt_ok(1) [OF c3]
    by blast
qed

theorem buffer_int_roundtrip_witness:
  "\<exists>b1 b2 b3 b4 c1 c2 c3 c4.
    appendInt8 (- 1) empty_buffer = Some b1 \<and> appendInt16 (- 2) b1 = Some b2 \<and>
    appendInt32 (- 3) b2 = Some b3 \<and> appendInt64 7 b3 = Some b4 \<and> readInt8 b4 = Some (- 1, c1) \<and>
    readInt16 c1 = Some (- 2, c2) \<and> readInt32 c2 = Some (- 3, c3) \<and> readInt64 c3 = Some (7, c4) \<and>
    buffer_wf c4 \<and> readable c4 = []"
proof -
  have "has_room empty_buffer 15" by (simp add: has_room_def empty_buffer_def max_size_def)
  from buffer_int_roundtrip [OF empty_buffer_wf readable_empty this] show ?thesis .
qed

text \<open>
  C24: \<open>readFd\<close> loses and reorders nothing. On a well-formed buffer, whatever the kernel
  delivers to \<open>readv\<close> (into the free space and, beyond it, into the 65536-byte stack buffer)
  is appended behind the bytes already there, the return value is the byte count, and no
  assertion fails.
\<close>

theorem readFd_appends_all:
  assumes "buffer_wf b" and "readv (writableBytes b + 65536) = Inr d"
    and "length d \<le> writableBytes b + 65536" and "length (vec b) + 65536 \<le> max_size"
  shows "\<exists>b'. readFd readv e b = Some (int (length d), e, b') \<and> buffer_wf b' \<and>
    toStringView b' = toStringView b @ d"
proof -
  have "has_room b (length d)"
    using assms(3,4) buffer_wfD [OF assms(1)] by (simp add: has_room_def writableBytes_wf [OF assms(1)])
  from readFd_ok [of b readv d e, OF assms(1,2) this] assms(1) show ?thesis by (auto simp: toStringView_readable)
qed

theorem readFd_appends_all_witness:
  "\<exists>b'. readFd (\<lambda>n. Inr (replicate 2000 (CHR ''x''))) 0 empty_buffer = Some (2000, 0, b') \<and>
     buffer_wf b' \<and> toStringView b' = replicate 2000 (CHR ''x'')"
proof -
  have w: "writableBytes empty_buffer = 1024"
    by (simp add: writableBytes_wf) (simp add: empty_buffer_def)
  have "length (vec empty_buffer) + 65536 \<le> max_size" by (simp add: empty_buffer_def max_size_def)
  from readFd_appends_all [OF empty_buffer_wf, where readv = "\<lambda>n. Inr (replicate 2000 (CHR ''x''))",
      OF refl _ this, of 0] w
  show ?thesis by (simp add: toStringView_readable)
qed

end
