(* ===== verification/Codec.thy ===== *)
theory Codec
  imports Buffer
begin

text \<open>
  \<open>examples/chat/codec.h\<close>, \<open>LengthHeaderCodec\<close>: messages on a TCP stream, each behind
  a 4-byte big-endian length. \<open>codec_send\<close> builds the buffer handed to
  \<open>TcpConnection::send\<close>; \<open>codec_loop\<close> is the message callback, a loop over the
  input buffer that calls the user's \<open>StringMessageCallback\<close>, a function on the user's state. Its result is the
  buffer left behind, the user's state, and whether it called \<open>conn->shutdown()\<close>. \<open>codec_onMessage\<close> is the
  loop with a user that collects the messages.
\<close>

definition kHeaderLen :: size_t where
  "kHeaderLen = 4"

definition codec_send :: "bytes \<Rightarrow> buffer option" where
  "codec_send message = do {
     b \<leftarrow> Buffer_ctor;
     b \<leftarrow> Buffer_append message b;
     let len = (of_nat (length message) :: 32 word);
     let be32 = hostToNetwork32 len;
     prepend (le_bytes 4 (unat be32)) b }"

text \<open>The length field at the read index, an \<open>int32_t\<close>.\<close>

definition header_len :: "buffer \<Rightarrow> int" where
  "header_len b = sint (networkToHost32 (of_nat (le_nat (mem b (peek b) 4))))"

partial_function (option) codec_loop ::
  "(bytes \<Rightarrow> 's \<Rightarrow> 's option) \<Rightarrow> buffer \<Rightarrow> 's \<Rightarrow> (buffer \<times> 's \<times> bool) option"
where
  "codec_loop messageCallback b s =
     (if readableBytes b \<ge> kHeaderLen then
        (let len = header_len b in
         if len > 65536 \<or> len < 0 then Some (b, s, True)
         else if readableBytes b \<ge> nat len + kHeaderLen then
           (let b1 = retrieve kHeaderLen b;
                message = mem b1 (peek b1) (nat len)
            in do {
              s \<leftarrow> messageCallback message s;
              codec_loop messageCallback (retrieve (nat len) b1) s })
         else Some (b, s, False))
      else Some (b, s, False))"

definition collect :: "bytes \<Rightarrow> bytes list \<Rightarrow> bytes list option" where
  "collect message out = Some (out @ [message])"

definition codec_onMessage :: "buffer \<Rightarrow> (buffer \<times> bytes list \<times> bool) option" where
  "codec_onMessage b = codec_loop collect b []"

text \<open>The calls that a list of messages leads to.\<close>

primrec deliver :: "(bytes \<Rightarrow> 's \<Rightarrow> 's option) \<Rightarrow> bytes list \<Rightarrow> 's \<Rightarrow> 's option" where
  "deliver messageCallback [] s = Some s"
| "deliver messageCallback (m # ms) s = messageCallback m s \<bind> deliver messageCallback ms"

lemma deliver_collect: "deliver collect ms out = Some (out @ ms)"
  by (induction ms arbitrary: out) (simp_all add: collect_def)

subsection \<open>The framing, on the byte stream\<close>

definition frame_len :: "bytes \<Rightarrow> int" where
  "frame_len bs = sint (of_nat (le_nat (rev (take 4 bs))) :: 32 word)"

function frames :: "bytes \<Rightarrow> bytes list \<times> bytes \<times> bool" where
  "frames bs =
     (if length bs < 4 then ([], bs, False)
      else if frame_len bs > 65536 \<or> frame_len bs < 0 then ([], bs, True)
      else if length bs < 4 + nat (frame_len bs) then ([], bs, False)
      else (let (ms, rest, bad) = frames (drop (4 + nat (frame_len bs)) bs)
            in (take (nat (frame_len bs)) (drop 4 bs) # ms, rest, bad)))"
  by pat_completeness auto
termination
  by (relation "measure length") auto

declare frames.simps [simp del]

lemma header_len_eq:
  assumes "buffer_wf b" and "4 \<le> length (readable b)"
  shows "header_len b = frame_len (readable b)"
proof -
  have "mem b (peek b) 4 = take 4 (readable b)" using assms by (simp add: mem_readable)
  then show ?thesis
    using assms(2) networkToHost_of_bytes(2) [of "take 4 (readable b)"]
    by (simp add: header_len_def frame_len_def)
qed

text \<open>The loop terminates on every well-formed buffer and computes the framing.\<close>

lemma codec_loop_frames:
  assumes "buffer_wf b" and "frames (readable b) = (ms, rest, bad)" and "deliver cb ms s = Some s'"
  shows "\<exists>b'. codec_loop cb b s = Some (b', s', bad) \<and> buffer_wf b' \<and> readable b' = rest \<and>
    (\<forall>n. has_room b n \<longrightarrow> has_room b' n)"
  using assms
proof (induction "length (readable b)" arbitrary: b s ms rest bad rule: less_induct)
  case less
  note wf = less.prems(1)
  note fr = less.prems(2) [unfolded frames.simps [of "readable b"]]
  note loop = codec_loop.simps [of cb b s] readableBytes_length [OF wf]
  show ?case
  proof (cases "length (readable b) < 4")
    case True
    then have "s' = s" using fr less.prems(3) by simp
    with True show ?thesis using fr wf by (simp add: loop kHeaderLen_def)
  next
    case len: False
    then have h: "header_len b = frame_len (readable b)" using wf by (simp add: header_len_eq)
    let ?n = "nat (frame_len (readable b))"
    show ?thesis
    proof (cases "frame_len (readable b) > 65536 \<or> frame_len (readable b) < 0 \<or> length (readable b) < 4 + ?n")
      case True
      then have "s' = s" using fr len less.prems(3) by (auto split: if_splits)
      with True show ?thesis using fr wf len h by (auto simp: loop kHeaderLen_def Let_def split: if_splits)
    next
      case False
      let ?b1 = "retrieve kHeaderLen b"
      let ?b2 = "retrieve ?n ?b1"
      obtain ms' where ms': "frames (drop (4 + ?n) (readable b)) = (ms', rest, bad)"
        "ms = take ?n (drop 4 (readable b)) # ms'"
        using fr False len by (auto simp: Let_def split: prod.splits)
      have b1: "buffer_wf ?b1" "readable ?b1 = drop 4 (readable b)"
        using wf by (simp_all add: buf.get_invar buf.get_content kHeaderLen_def)
      have b2: "buffer_wf ?b2" "readable ?b2 = drop (4 + ?n) (readable b)"
        using b1 by (simp_all add: buf.get_invar buf.get_content add.commute)
      have m: "mem ?b1 (peek ?b1) ?n = take ?n (drop 4 (readable b))"
        using b1 False len by (intro trans [OF mem_readable]) auto
      obtain s1 where s1: "cb (take ?n (drop 4 (readable b))) s = Some s1" "deliver cb ms' s1 = Some s'"
        using less.prems(3) ms'(2) by (auto simp: bind_eq_Some_conv)
      have step: "codec_loop cb b s = codec_loop cb ?b2 s1"
        using False len h m s1(1) by (simp add: loop Let_def) (simp add: kHeaderLen_def)
      have "length (readable ?b2) < length (readable b)" using b2(2) len by simp
      from less.hyps [OF this b2(1), of ms' rest bad s1]
      obtain b' where b': "codec_loop cb ?b2 s1 = Some (b', s', bad)"
        "buffer_wf b'" "readable b' = rest" "\<forall>n. has_room ?b2 n \<longrightarrow> has_room b' n"
        using ms' b2(2) s1(2) by auto
      have "\<forall>n. has_room b n \<longrightarrow> has_room b' n"
        using b'(4) buf.get_room [OF wf] buf.get_room [OF b1(1)] by blast
      with b'(1-3) step show ?thesis by auto
    qed
  qed
qed

subsection \<open>Incremental decoding\<close>

lemma frame_len_append: "4 \<le> length xs \<Longrightarrow> frame_len (xs @ ys) = frame_len xs"
  by (simp add: frame_len_def)

lemma frames_append:
  "frames xs = (ms, rest, stuck) \<Longrightarrow> frames (rest @ ys) = (ns, rest', bad) \<Longrightarrow>
     frames (xs @ ys) = (ms @ ns, rest', bad)"
proof (induction xs arbitrary: ms rule: frames.induct)
  case (1 xs)
  note fr = "1.prems"(1) [unfolded frames.simps [of xs]]
  let ?n = "nat (frame_len xs)"
  show ?case
  proof (cases "length xs < 4 \<or> frame_len xs > 65536 \<or> frame_len xs < 0 \<or> length xs < 4 + ?n")
    case True
    then have "ms = []" "rest = xs" using fr by (auto split: if_splits)
    with "1.prems"(2) show ?thesis by simp
  next
    case False
    then obtain ms' where ms': "frames (drop (4 + ?n) xs) = (ms', rest, stuck)"
      "ms = take ?n (drop 4 xs) # ms'"
      using fr by (auto simp: Let_def split: prod.splits)
    have IH: "frames (drop (4 + ?n) xs @ ys) = (ms' @ ns, rest', bad)"
      using "1.IH" False ms'(1) "1.prems"(2) by (simp add: not_less)
    have "frame_len (xs @ ys) = frame_len xs" using False by (simp add: frame_len_append)
    with False IH ms'(2) show ?thesis
      by (simp add: frames.simps [of "xs @ ys"])
  qed
qed

lemma frames_rest: "frames xs = (ms, rest, False) \<Longrightarrow> frames rest = ([], rest, False)"
proof (induction xs arbitrary: ms rule: frames.induct)
  case (1 xs)
  note fr = "1.prems" [unfolded frames.simps [of xs]]
  show ?case
  proof (cases "length xs < 4 \<or> frame_len xs > 65536 \<or> frame_len xs < 0 \<or>
      length xs < 4 + nat (frame_len xs)")
    case True
    then have "rest = xs \<and> ms = []" using fr by (auto split: if_splits)
    with "1.prems" show ?thesis by simp
  next
    case False
    with fr "1.IH" show ?thesis by (auto simp: Let_def split: prod.splits)
  qed
qed

text \<open>An invalid length stays invalid however the stream goes on.\<close>

lemma frames_stuck: "frames xs = (ms, rest, True) \<Longrightarrow> frames (rest @ ys) = ([], rest @ ys, True)"
proof (induction xs arbitrary: ms rule: frames.induct)
  case (1 xs)
  note fr = "1.prems" [unfolded frames.simps [of xs]]
  have len: "4 \<le> length xs" using fr by (auto split: if_splits)
  show ?case
  proof (cases "frame_len xs > 65536 \<or> frame_len xs < 0")
    case True
    then have "rest = xs" using fr len by (auto split: if_splits)
    with True len frame_len_append [OF len, of ys] show ?thesis by (simp add: frames.simps [of "xs @ ys"])
  next
    case False
    with fr len "1.IH" show ?thesis by (auto simp: Let_def split: prod.splits if_splits)
  qed
qed

lemma frames_bad_append: "frames xs = (ms, rest, True) \<Longrightarrow> snd (snd (frames (xs @ ys)))"
  using frames_append [OF _ frames_stuck] by fastforce

definition wire :: "bytes \<Rightarrow> bytes" where
  "wire m = be_bytes 4 (length m) @ m"

lemma length_wire [simp]: "length (wire m) = 4 + length m"
  by (simp add: wire_def)

lemma frame_len_wire: "length m \<le> 65536 \<Longrightarrow> frame_len (wire m @ rest) = int (length m)"
proof -
  assume le: "length m \<le> 65536"
  have "le_nat (rev (take 4 (wire m @ rest))) = length m"
    using le by (simp add: wire_def be_bytes_def le_nat_le_bytes)
  moreover have "sint (word_of_nat (length m) :: 32 word) = int (length m)"
    using le by (simp add: signed_of_nat signed_take_bit_int_eq_self)
  ultimately show ?thesis by (simp add: frame_len_def)
qed

text \<open>\<open>send\<close> has no limit, but the receiving side has: it takes a longer message for an error and shuts the connection down.\<close>

lemma frames_too_long:
  assumes "65536 < length m" "length m < 2 ^ 31"
  shows "frames (wire m @ rest) = ([], wire m @ rest, True)"
proof -
  have "le_nat (rev (take 4 (wire m @ rest))) = length m"
    using assms by (simp add: wire_def be_bytes_def le_nat_le_bytes)
  moreover have "sint (word_of_nat (length m) :: 32 word) = int (length m)"
    using assms by (simp add: signed_of_nat signed_take_bit_int_eq_self)
  ultimately have "frame_len (wire m @ rest) = int (length m)" by (simp add: frame_len_def)
  then show ?thesis using assms(1) by (simp add: frames.simps [of "wire m @ rest"])
qed

lemma frames_wire:
  "length m \<le> 65536 \<Longrightarrow> frames rest = (ms, r, bad) \<Longrightarrow> frames (wire m @ rest) = (m # ms, r, bad)"
  using frame_len_wire [of m rest]
  by (simp add: frames.simps [of "wire m @ rest"]) (simp add: wire_def)

lemma frames_small: "frames xs = (ms, rest, bad) \<Longrightarrow> list_all (\<lambda>m. length m \<le> 65536) ms"
proof (induction xs arbitrary: ms rule: frames.induct)
  case (1 xs)
  note fr = "1.prems" [unfolded frames.simps [of xs]]
  show ?case
  proof (cases "length xs < 4 \<or> frame_len xs > 65536 \<or> frame_len xs < 0 \<or> length xs < 4 + nat (frame_len xs)")
    case True
    then show ?thesis using fr by (auto split: if_splits)
  next
    case False
    then obtain ms' where "frames (drop (4 + nat (frame_len xs)) xs) = (ms', rest, bad)" "ms = take (nat (frame_len xs)) (drop 4 xs) # ms'"
      using fr by (auto simp: Let_def split: prod.splits)
    with False "1.IH" show ?thesis by (auto simp: not_less)
  qed
qed

lemma frames_stream: "list_all (\<lambda>m. length m \<le> 65536) ms \<Longrightarrow> frames (concat (map wire ms)) = (ms, [], False)"
  by (induction ms) (simp_all add: frames_wire frames.simps [of "[]"])

lemma codec_send_wire:
  assumes "length m \<le> 65536"
  shows "\<exists>b. codec_send m = Some b \<and> buffer_wf b \<and> toStringView b = wire m"
proof -
  have "has_room empty_buffer (length m)"
    using assms by (simp add: has_room_def empty_buffer_def max_size_def)
  then obtain b where b: "Buffer_append m empty_buffer = Some b" "buffer_wf b" "readable b = m"
    using buf.put_ok [OF empty_buffer_wf] by fastforce
  have "8 \<le> readerIndex b"
    using b(1) assms
    by (auto simp: Buffer_append_def ensureWritableBytes_def makeSpace_def bind_eq_Some_conv
        hasWritten_def empty_buffer_def kCheapPrepend_def Let_def split: if_splits)
  then have "length (be_bytes 4 (length m)) \<le> readerIndex b" by simp
  moreover have "unat (of_nat (length m) :: 32 word) = length m"
    using assms by (simp add: unat_of_nat)
  ultimately show ?thesis
    using prepend_ok [OF b(2), of "be_bytes 4 (length m)"] b
    by (auto simp: codec_send_def Buffer_ctor_eq memory_of_hostToNetwork Let_def
        toStringView_readable wire_def)
qed

lemma codec_send_wires:
  "list_all (\<lambda>m. length m \<le> 65536) ms \<Longrightarrow> map codec_send ms = map Some outs \<Longrightarrow> map toStringView outs = map wire ms"
proof (induction ms arbitrary: outs)
  case (Cons m ms)
  then obtain out outs' where o: "outs = out # outs'" "codec_send m = Some out" by (cases outs) auto
  with Cons codec_send_wire [of m] show ?case by auto
qed simp

subsection \<open>Delivery over a stream cut into chunks\<close>

text \<open>
  The receiving side: the connection appends each chunk it reads to the input buffer and then
  calls the codec.
\<close>

fun codec_feed :: "bytes list \<Rightarrow> buffer \<Rightarrow> bytes list \<Rightarrow> (buffer \<times> bytes list \<times> bool) option" where
  "codec_feed [] b out = Some (b, out, False)"
| "codec_feed (c # cs) b out = do {
     b \<leftarrow> Buffer_append c b;
     (b, ms, bad) \<leftarrow> codec_onMessage b;
     if bad then Some (b, out @ ms, True) else codec_feed cs b (out @ ms) }"

lemma codec_feed_frames:
  assumes "buffer_wf b" and "frames (readable b) = ([], readable b, False)"
    and "frames (readable b @ concat cs) = (ms, rest, False)"
    and "has_room b (length (concat cs))"
  shows "\<exists>b'. codec_feed cs b out = Some (b', out @ ms, False) \<and> buffer_wf b' \<and> readable b' = rest"
  using assms
proof (induction cs arbitrary: b out ms)
  case Nil
  then show ?case by simp
next
  case (Cons c cs)
  have rc: "has_room b (length c)" using Cons.prems(4) by (simp add: has_room_def)
  obtain b1 where b1: "Buffer_append c b = Some b1" "buffer_wf b1" "readable b1 = readable b @ c"
    using buf.put_ok [OF Cons.prems(1) rc] by blast
  have room1: "has_room b1 (length (concat cs))"
    using buf.put_room [OF Cons.prems(1) _ b1(1)] Cons.prems(4) by simp
  obtain ms1 r1 bad1 where f1: "frames (readable b1) = (ms1, r1, bad1)" by (metis prod_cases3)
  have good: "\<not> bad1"
    using frames_bad_append [of "readable b1" ms1 r1 "concat cs"] f1 b1(3) Cons.prems(3) by auto
  obtain ms2 rest2 bad2 where f2: "frames (r1 @ concat cs) = (ms2, rest2, bad2)" by (metis prod_cases3)
  have eq: "ms = ms1 @ ms2" "rest2 = rest" "\<not> bad2"
    using frames_append [OF _ f2, of "readable b1" ms1] f1 good b1(3) Cons.prems(3) by auto
  obtain b2 where b2: "codec_onMessage b1 = Some (b2, ms1, False)" "buffer_wf b2" "readable b2 = r1"
    "has_room b2 (length (concat cs))"
    using codec_loop_frames [OF b1(2) f1 deliver_collect, of "[]"] good room1 by (auto simp: codec_onMessage_def)
  have idle: "frames (readable b2) = ([], readable b2, False)"
    using frames_rest f1 good b2(3) by auto
  have "\<exists>b'. codec_feed cs b2 (out @ ms1) = Some (b', (out @ ms1) @ ms2, False) \<and> buffer_wf b' \<and>
      readable b' = rest"
    using f2 eq b2(3) by (intro Cons.IH [OF b2(2) idle _ b2(4)]) simp
  with b1(1) b2(1) eq(1) show ?case by simp
qed

subsection \<open>Properties\<close>

text \<open>
  C9: the codec delivers every message once, unchanged and in order, however TCP cuts the
  stream. If \<open>outs\<close> are the buffers \<open>send\<close> built for messages of at most 65536 bytes and
  the chunks read by the peer concatenate to their bytes, then \<open>onMessage\<close>, called after each
  chunk, always returns, hands exactly those messages to the callback, never shuts the
  connection down and leaves the input buffer empty.
\<close>

theorem codec_stream_roundtrip:
  assumes "list_all (\<lambda>m. length m \<le> 65536) ms" and "map codec_send ms = map Some outs"
    and "concat chunks = concat (map toStringView outs)"
    and "8 + length (concat chunks) \<le> max_size"
  shows "\<exists>b'. codec_feed chunks empty_buffer [] = Some (b', ms, False) \<and> buffer_wf b' \<and>
    readableBytes b' = 0"
proof -
  have wires: "map toStringView outs = map wire ms" using codec_send_wires [OF assms(1,2)] .
  have fr: "frames (readable empty_buffer @ concat chunks) = (ms, [], False)"
    using frames_stream [OF assms(1)] assms(3) wires by simp
  have idle: "frames (readable empty_buffer) = ([], readable empty_buffer, False)"
    by (simp add: frames.simps [of "[]"])
  have room: "has_room empty_buffer (length (concat chunks))"
    using assms(4) by (simp add: has_room_def empty_buffer_def)
  from codec_feed_frames [OF empty_buffer_wf idle fr room, of "[]"] show ?thesis
    by (auto simp: readableBytes_length)
qed

theorem codec_stream_roundtrip_witness:
  "\<exists>outs b'. map codec_send [''hi'', ''x''] = map Some outs \<and>
     codec_feed [take 3 (concat (map toStringView outs)), drop 3 (concat (map toStringView outs))]
       empty_buffer [] = Some (b', [''hi'', ''x''], False) \<and> buffer_wf b' \<and> readableBytes b' = 0"
proof -
  obtain a b where a: "codec_send ''hi'' = Some a" "toStringView a = wire ''hi''"
    and b: "codec_send ''x'' = Some b" "toStringView b = wire ''x''"
    using codec_send_wire [of "''hi''"] codec_send_wire [of "''x''"] by auto
  let ?s = "concat (map toStringView [a, b])"
  have r: "8 + length (concat [take 3 ?s, drop 3 ?s]) \<le> max_size"
    by (simp add: a(2) b(2) wire_def max_size_def)
  have "\<exists>b'. codec_feed [take 3 ?s, drop 3 ?s] empty_buffer [] = Some (b', [''hi'', ''x''], False) \<and>
      buffer_wf b' \<and> readableBytes b' = 0"
    by (rule codec_stream_roundtrip [OF _ _ _ r, of _ "[a, b]"]) (use a b in simp_all)
  then show ?thesis using a(1) b(1) by (intro exI [of _ "[a, b]"]) (simp del: codec_feed.simps)
qed

text \<open>
  \<open>onMessage\<close> returns on every well-formed buffer, with the messages, the unconsumed
  bytes and the shutdown decision that the framing of the readable bytes gives; in particular
  a header whose length is outside 0..65536 at the read index makes it deliver nothing, consume
  nothing and shut the connection down.
\<close>

theorem codec_onMessage_total:
  assumes "buffer_wf b"
  shows "\<exists>b'. codec_onMessage b = Some (b', fst (frames (readable b)), snd (snd (frames (readable b)))) \<and>
    buffer_wf b' \<and> readable b' = fst (snd (frames (readable b))) \<and>
    (4 \<le> length (readable b) \<and> (header_len b < 0 \<or> header_len b > 65536) \<longrightarrow>
      codec_onMessage b = Some (b, [], True))"
proof -
  obtain ms rest bad where f: "frames (readable b) = (ms, rest, bad)" by (metis prod_cases3)
  have "codec_onMessage b = Some (b, [], True)"
    if "4 \<le> length (readable b)" "header_len b < 0 \<or> header_len b > 65536"
    using that readableBytes_length [OF assms]
    by (auto simp: codec_onMessage_def codec_loop.simps [of collect b] kHeaderLen_def Let_def)
  then show ?thesis
    using codec_loop_frames [OF assms f deliver_collect, of "[]"] f by (auto simp: codec_onMessage_def)
qed

theorem codec_onMessage_total_witness:
  "\<exists>b'. codec_onMessage empty_buffer = Some (b', [], False) \<and> buffer_wf b'"
  using codec_onMessage_total [OF empty_buffer_wf] by (auto simp: frames.simps [of "[]"])

end
