(* ===== verification/Printf.thy ===== *)
theory Printf
  imports Prelude
begin

text \<open>
  Decimal output as \<open>snprintf\<close> with \<open>%d\<close>, \<open>%u\<close> and \<open>%zd\<close> writes it, and the
  truncation \<open>snprintf(buf, n, \<dots>)\<close> applies: at most \<open>n - 1\<close> characters are stored.
\<close>

definition digit_char :: "nat \<Rightarrow> char" where
  "digit_char d = char_of (48 + d)"

fun dec_nat :: "nat \<Rightarrow> string" where
  "dec_nat n = (if n < 10 then [digit_char n] else dec_nat (n div 10) @ [digit_char (n mod 10)])"

declare dec_nat.simps [simp del]

definition dec_int :: "int \<Rightarrow> string" where
  "dec_int i = (if i < 0 then CHR ''-'' # dec_nat (nat (- i)) else dec_nat (nat i))"

definition snprintf :: "nat \<Rightarrow> string \<Rightarrow> string" where
  "snprintf n s = take (n - 1) s"

subsection \<open>Reading the digits back\<close>

definition digit_val :: "char \<Rightarrow> nat" where
  "digit_val c = of_char c - 48"

definition read_dec :: "string \<Rightarrow> nat" where
  "read_dec s = foldl (\<lambda>acc c. 10 * acc + digit_val c) 0 s"

definition is_digit :: "char \<Rightarrow> bool" where
  "is_digit c \<longleftrightarrow> 48 \<le> (of_char c :: nat) \<and> (of_char c :: nat) \<le> 57"

lemma of_char_digit: "d < 10 \<Longrightarrow> (of_char (digit_char d) :: nat) = 48 + d"
  by (simp add: digit_char_def)

lemma digit_val_char: "d < 10 \<Longrightarrow> digit_val (digit_char d) = d"
  by (simp add: digit_val_def of_char_digit)

lemma is_digit_char: "d < 10 \<Longrightarrow> is_digit (digit_char d)"
  by (simp add: is_digit_def of_char_digit)

lemma read_dec_snoc: "read_dec (s @ [c]) = 10 * read_dec s + digit_val c"
  by (simp add: read_dec_def)

lemma read_dec_dec_nat: "read_dec (dec_nat n) = n"
proof (induction n rule: dec_nat.induct)
  case (1 n)
  show ?case
  proof (cases "n < 10")
    case True
    then show ?thesis by (simp add: dec_nat.simps [of n] read_dec_def digit_val_char)
  next
    case False
    with 1 show ?thesis by (simp add: dec_nat.simps [of n] read_dec_snoc digit_val_char)
  qed
qed

lemma dec_nat_inject: "dec_nat m = dec_nat n \<longleftrightarrow> m = n"
  by (metis read_dec_dec_nat)

lemma dec_nat_digits: "c \<in> set (dec_nat n) \<Longrightarrow> is_digit c"
proof (induction n rule: dec_nat.induct)
  case (1 n)
  then show ?case
    by (cases "n < 10") (auto simp: dec_nat.simps [of n] is_digit_char)
qed

lemma dec_nat_Nil [simp]: "dec_nat n \<noteq> []"
  by (simp add: dec_nat.simps [of n])

lemma dec_nat_length: "n < 10 ^ k \<Longrightarrow> 0 < k \<Longrightarrow> length (dec_nat n) \<le> k"
proof (induction n arbitrary: k rule: dec_nat.induct)
  case (1 n)
  show ?case
  proof (cases "n < 10")
    case True
    then show ?thesis using "1.prems" by (simp add: dec_nat.simps [of n])
  next
    case False
    then obtain j where k: "k = Suc j" "0 < j"
      using "1.prems" by (cases k; cases "k - 1") auto
    have "n div 10 < 10 ^ j" using "1.prems" k by (simp add: less_mult_imp_div_less mult.commute)
    with "1.IH" [of j] False k show ?thesis by (simp add: dec_nat.simps [of n])
  qed
qed

lemma snprintf_fits: "length s < n \<Longrightarrow> snprintf n s = s"
  by (simp add: snprintf_def)

end
