(* ===== verification/Channel.thy ===== *)
theory Channel
  imports Prelude Printf "HOL-Library.Word"
begin

unbundle bit_operations_syntax

text \<open>
  \<open>tmuduo/net/Channel.h\<close> and \<open>Channel.cc\<close>: a file descriptor with the events it is
  interested in and the callbacks of its owner. Channels live in a heap indexed by
  \<open>chan_ptr\<close>, because pollers keep pointers to them; the heap and the state of the loop's
  poller form the \<open>reactor\<close>. A callback slot holds the name of the callback
  (type \<open>'cb\<close>); what a callback does is the parameter \<open>run\<close> of \<open>handleEvent\<close>.
\<close>

type_synonym chan_ptr = nat

type_synonym flags = "32 word"

definition POLLIN :: flags where "POLLIN = 0x001"
definition POLLPRI :: flags where "POLLPRI = 0x002"
definition POLLOUT :: flags where "POLLOUT = 0x004"
definition POLLERR :: flags where "POLLERR = 0x008"
definition POLLHUP :: flags where "POLLHUP = 0x010"
definition POLLNVAL :: flags where "POLLNVAL = 0x020"
definition POLLRDHUP :: flags where "POLLRDHUP = 0x2000"

lemmas poll_flags = POLLIN_def POLLPRI_def POLLOUT_def POLLERR_def POLLHUP_def POLLNVAL_def POLLRDHUP_def

definition kNoneEvent :: flags where
  "kNoneEvent = 0"

definition kReadEvent :: flags where
  "kReadEvent = POLLIN OR POLLPRI"

definition kWriteEvent :: flags where
  "kWriteEvent = POLLOUT"

record 'cb channel =
  ch_fd :: fd
  ch_events :: flags
  ch_revents :: flags
  ch_index :: int
  logHup :: bool
  tied :: bool
  eventHandling :: bool
  addedToLoop :: bool
  readCallback :: "'cb option"
  writeCallback :: "'cb option"
  closeCallback :: "'cb option"
  errorCallback :: "'cb option"

definition Channel_ctor :: "fd \<Rightarrow> 'cb channel" where
  "Channel_ctor f = \<lparr>ch_fd = f, ch_events = 0, ch_revents = 0, ch_index = -1, logHup = True, tied = False,
     eventHandling = False, addedToLoop = False,
     readCallback = None, writeCallback = None, closeCallback = None, errorCallback = None\<rparr>"

definition Channel_dtor :: "'cb channel \<Rightarrow> unit option" where
  "Channel_dtor ch = assert_that (\<not> eventHandling ch)"

definition setReadCallback :: "'cb \<Rightarrow> 'cb channel \<Rightarrow> 'cb channel" where
  "setReadCallback cb ch = ch\<lparr>readCallback := Some cb\<rparr>"

definition setWriteCallback :: "'cb \<Rightarrow> 'cb channel \<Rightarrow> 'cb channel" where
  "setWriteCallback cb ch = ch\<lparr>writeCallback := Some cb\<rparr>"

definition setCloseCallback :: "'cb \<Rightarrow> 'cb channel \<Rightarrow> 'cb channel" where
  "setCloseCallback cb ch = ch\<lparr>closeCallback := Some cb\<rparr>"

definition setErrorCallback :: "'cb \<Rightarrow> 'cb channel \<Rightarrow> 'cb channel" where
  "setErrorCallback cb ch = ch\<lparr>errorCallback := Some cb\<rparr>"

definition Channel_tie :: "'cb channel \<Rightarrow> 'cb channel" where
  "Channel_tie ch = ch\<lparr>tied := True\<rparr>"

definition setRevents :: "flags \<Rightarrow> 'cb channel \<Rightarrow> 'cb channel" where
  "setRevents revt ch = ch\<lparr>ch_revents := revt\<rparr>"

definition setIndex :: "int \<Rightarrow> 'cb channel \<Rightarrow> 'cb channel" where
  "setIndex idx ch = ch\<lparr>ch_index := idx\<rparr>"

definition isNoneEvent :: "'cb channel \<Rightarrow> bool" where
  "isNoneEvent ch \<longleftrightarrow> ch_events ch = kNoneEvent"

definition isWriting :: "'cb channel \<Rightarrow> bool" where
  "isWriting ch \<longleftrightarrow> ch_events ch AND kWriteEvent \<noteq> 0"

definition isReading :: "'cb channel \<Rightarrow> bool" where
  "isReading ch \<longleftrightarrow> ch_events ch AND kReadEvent \<noteq> 0"

definition doNotLogHup :: "'cb channel \<Rightarrow> 'cb channel" where
  "doNotLogHup ch = ch\<lparr>logHup := False\<rparr>"

definition eventsToString :: "fd \<Rightarrow> flags \<Rightarrow> string" where
  "eventsToString f ev = dec_int f @ '' '' @
     (if ev AND POLLIN \<noteq> 0 then ''IN '' else []) @
     (if ev AND POLLPRI \<noteq> 0 then ''PRI '' else []) @
     (if ev AND POLLOUT \<noteq> 0 then ''OUT '' else []) @
     (if ev AND POLLHUP \<noteq> 0 then ''HUP '' else []) @
     (if ev AND POLLRDHUP \<noteq> 0 then ''RDHUP '' else []) @
     (if ev AND POLLERR \<noteq> 0 then ''ERR '' else []) @
     (if ev AND POLLNVAL \<noteq> 0 then ''NVAL '' else [])"

subsection \<open>The reactor and the operations that go to the poller\<close>

record ('cb, 'p) reactor =
  chans :: "chan_ptr \<Rightarrow> 'cb channel"
  poller :: 'p

definition map_chan :: "chan_ptr \<Rightarrow> ('cb channel \<Rightarrow> 'cb channel) \<Rightarrow> ('cb, 'p) reactor \<Rightarrow> ('cb, 'p) reactor" where
  "map_chan p f s = s\<lparr>chans := (chans s)(p := f (chans s p))\<rparr>"

text \<open>
  \<open>update()\<close> and \<open>remove()\<close> call the poller of the loop, which is a virtual call: the
  poller's \<open>updateChannel\<close> and \<open>removeChannel\<close> are arguments.
\<close>

type_synonym ('cb, 'p) poller_op = "chan_ptr \<Rightarrow> ('cb, 'p) reactor \<Rightarrow> ('cb, 'p) reactor option"

definition Channel_update :: "('cb, 'p) poller_op \<Rightarrow> ('cb, 'p) poller_op" where
  "Channel_update updateChannel p s = updateChannel p (map_chan p (\<lambda>ch. ch\<lparr>addedToLoop := True\<rparr>) s)"

definition enableReading :: "('cb, 'p) poller_op \<Rightarrow> ('cb, 'p) poller_op" where
  "enableReading upd p s =
     Channel_update upd p (map_chan p (\<lambda>ch. ch\<lparr>ch_events := ch_events ch OR kReadEvent\<rparr>) s)"

definition disableReading :: "('cb, 'p) poller_op \<Rightarrow> ('cb, 'p) poller_op" where
  "disableReading upd p s =
     Channel_update upd p (map_chan p (\<lambda>ch. ch\<lparr>ch_events := ch_events ch AND NOT kReadEvent\<rparr>) s)"

definition enableWriting :: "('cb, 'p) poller_op \<Rightarrow> ('cb, 'p) poller_op" where
  "enableWriting upd p s =
     Channel_update upd p (map_chan p (\<lambda>ch. ch\<lparr>ch_events := ch_events ch OR kWriteEvent\<rparr>) s)"

definition disableWriting :: "('cb, 'p) poller_op \<Rightarrow> ('cb, 'p) poller_op" where
  "disableWriting upd p s =
     Channel_update upd p (map_chan p (\<lambda>ch. ch\<lparr>ch_events := ch_events ch AND NOT kWriteEvent\<rparr>) s)"

definition disableAll :: "('cb, 'p) poller_op \<Rightarrow> ('cb, 'p) poller_op" where
  "disableAll upd p s = Channel_update upd p (map_chan p (\<lambda>ch. ch\<lparr>ch_events := kNoneEvent\<rparr>) s)"

definition Channel_remove :: "('cb, 'p) poller_op \<Rightarrow> ('cb, 'p) poller_op" where
  "Channel_remove removeChannel p s = do {
     assert_that (isNoneEvent (chans s p));
     removeChannel p (map_chan p (\<lambda>ch. ch\<lparr>addedToLoop := False\<rparr>) s) }"

lemma setIndex_simps [simp]:
  "ch_fd (setIndex i ch) = ch_fd ch" "ch_events (setIndex i ch) = ch_events ch"
  "ch_index (setIndex i ch) = i" "(setIndex i ch)\<lparr>ch_index := j\<rparr> = ch\<lparr>ch_index := j\<rparr>"
  by (simp_all add: setIndex_def)

lemma map_chan_simps [simp]:
  "chans (map_chan p f s) q = (if q = p then f (chans s p) else chans s q)"
  "poller (map_chan p f s) = poller s"
  by (simp_all add: map_chan_def)

subsection \<open>Event dispatch\<close>

text \<open>
  The owner's state \<open>'s\<close> contains the channel: \<open>get\<close> reads it, \<open>upd\<close> changes it, and
  \<open>run\<close> runs a callback, which may change anything. The fields are read again after each
  callback, as the code reads them.
\<close>

definition call :: "('cb \<Rightarrow> 's \<Rightarrow> 's option) \<Rightarrow> 'cb option \<Rightarrow> 's \<Rightarrow> 's option" where
  "call run slot s = (case slot of None \<Rightarrow> Some s | Some cb \<Rightarrow> run cb s)"

definition handleEventWithguard ::
  "('s \<Rightarrow> 'cb channel) \<Rightarrow> (('cb channel \<Rightarrow> 'cb channel) \<Rightarrow> 's \<Rightarrow> 's) \<Rightarrow> ('cb \<Rightarrow> 's \<Rightarrow> 's option) \<Rightarrow>
     's \<Rightarrow> 's option" where
  "handleEventWithguard get upd run s = do {
     let s = upd (\<lambda>ch. ch\<lparr>eventHandling := True\<rparr>) s;
     s \<leftarrow> (if ch_revents (get s) AND POLLHUP \<noteq> 0 \<and> ch_revents (get s) AND POLLIN = 0
          then call run (closeCallback (get s)) s else Some s);
     s \<leftarrow> (if ch_revents (get s) AND (POLLERR OR POLLNVAL) \<noteq> 0
          then call run (errorCallback (get s)) s else Some s);
     s \<leftarrow> (if ch_revents (get s) AND (POLLIN OR POLLPRI OR POLLRDHUP) \<noteq> 0
          then call run (readCallback (get s)) s else Some s);
     s \<leftarrow> (if ch_revents (get s) AND POLLOUT \<noteq> 0
          then call run (writeCallback (get s)) s else Some s);
     Some (upd (\<lambda>ch. ch\<lparr>eventHandling := False\<rparr>) s) }"

definition handleEvent ::
  "('s \<Rightarrow> 'cb channel) \<Rightarrow> (('cb channel \<Rightarrow> 'cb channel) \<Rightarrow> 's \<Rightarrow> 's) \<Rightarrow> ('cb \<Rightarrow> 's \<Rightarrow> 's option) \<Rightarrow>
     bool \<Rightarrow> 's \<Rightarrow> 's option" where
  "handleEvent get upd run owner_alive s =
     (if tied (get s) then
        (if owner_alive then handleEventWithguard get upd run s else Some s)
      else handleEventWithguard get upd run s)"

subsection \<open>Which callbacks an event runs\<close>

definition opt_list :: "bool \<Rightarrow> 'a option \<Rightarrow> 'a list" where
  "opt_list b x = (if b then (case x of None \<Rightarrow> [] | Some y \<Rightarrow> [y]) else [])"

definition dispatch :: "'cb channel \<Rightarrow> 'cb list" where
  "dispatch ch =
     (let r = ch_revents ch in
      opt_list (r AND POLLHUP \<noteq> 0 \<and> r AND POLLIN = 0) (closeCallback ch) @
      opt_list (r AND (POLLERR OR POLLNVAL) \<noteq> 0) (errorCallback ch) @
      opt_list (r AND (POLLIN OR POLLPRI OR POLLRDHUP) \<noteq> 0) (readCallback ch) @
      opt_list (r AND POLLOUT \<noteq> 0) (writeCallback ch))"

primrec run_all :: "('cb \<Rightarrow> 's \<Rightarrow> 's option) \<Rightarrow> 'cb list \<Rightarrow> 's \<Rightarrow> 's option" where
  "run_all run [] s = Some s"
| "run_all run (cb # cbs) s = run cb s \<bind> run_all run cbs"

lemma run_all_Nil: "run_all run [] = Some"
  by (rule ext) simp

lemma run_all_append: "run_all run (xs @ ys) s = run_all run xs s \<bind> run_all run ys"
proof (induction xs arbitrary: s)
  case (Cons x xs)
  then show ?case by (cases "run x s") simp_all
qed simp

text \<open>The part of a channel that decides what an event runs.\<close>

definition slots :: "'cb channel \<Rightarrow> flags \<times> 'cb option \<times> 'cb option \<times> 'cb option \<times> 'cb option" where
  "slots ch = (ch_revents ch, closeCallback ch, errorCallback ch, readCallback ch, writeCallback ch)"

text \<open>
  The contract between a channel and its owner: the channel can be read and updated in the
  owner's state, and the owner's callbacks change neither \<open>revents_\<close> nor the callbacks.
\<close>

locale channel_owner =
  fixes get :: "'s \<Rightarrow> 'cb channel"
    and upd :: "('cb channel \<Rightarrow> 'cb channel) \<Rightarrow> 's \<Rightarrow> 's"
    and run :: "'cb \<Rightarrow> 's \<Rightarrow> 's option"
  assumes get_upd: "get (upd f s) = f (get s)"
    and run_slots: "run cb s = Some s' \<Longrightarrow> slots (get s') = slots (get s)"
begin

lemma run_all_slots: "run_all run cbs s = Some s' \<Longrightarrow> slots (get s') = slots (get s)"
  by (induction cbs arbitrary: s) (auto simp: bind_eq_Some_conv dest: run_slots)

lemma stage_eq:
  "(if c then call run slot s else Some s) = run_all run (opt_list c slot) s"
  by (simp add: opt_list_def call_def run_all_Nil split: option.split)

lemma handleEventWithguard_dispatch:
  "handleEventWithguard get upd run s =
     run_all run (dispatch (get s)) (upd (\<lambda>ch. ch\<lparr>eventHandling := True\<rparr>) s) \<bind>
       (\<lambda>s. Some (upd (\<lambda>ch. ch\<lparr>eventHandling := False\<rparr>) s))"
proof -
  let ?s = "upd (\<lambda>ch. ch\<lparr>eventHandling := True\<rparr>) s"
  let ?ch = "get s"
  have sl: "slots (get ?s) = slots ?ch" by (simp add: get_upd slots_def)
  let ?x1 = "opt_list (ch_revents ?ch AND POLLHUP \<noteq> 0 \<and> ch_revents ?ch AND POLLIN = 0) (closeCallback ?ch)"
  let ?x2 = "opt_list (ch_revents ?ch AND (POLLERR OR POLLNVAL) \<noteq> 0) (errorCallback ?ch)"
  let ?x3 = "opt_list (ch_revents ?ch AND (POLLIN OR POLLPRI OR POLLRDHUP) \<noteq> 0) (readCallback ?ch)"
  let ?x4 = "opt_list (ch_revents ?ch AND POLLOUT \<noteq> 0) (writeCallback ?ch)"
  have trans: "slots (get s') = slots ?ch" if "run_all run cbs u = Some s'" "slots (get u) = slots ?ch" for cbs s' u
    using run_all_slots [OF that(1)] that(2) by simp
  show ?thesis
  proof (cases "run_all run ?x1 ?s")
    case None
    then show ?thesis
      using sl by (simp add: handleEventWithguard_def Let_def stage_eq dispatch_def run_all_append slots_def)
  next
    case 1: (Some s1)
    note s1 = trans [OF 1 sl]
    show ?thesis
    proof (cases "run_all run ?x2 s1")
      case None
      with 1 sl s1 show ?thesis
        by (simp add: handleEventWithguard_def Let_def stage_eq dispatch_def run_all_append slots_def)
    next
      case 2: (Some s2)
      note s2 = trans [OF 2 s1]
      show ?thesis
      proof (cases "run_all run ?x3 s2")
        case None
        with 1 2 sl s1 s2 show ?thesis
          by (simp add: handleEventWithguard_def Let_def stage_eq dispatch_def run_all_append slots_def)
      next
        case 3: (Some s3)
        with 1 2 sl s1 s2 trans [OF 3 s2] show ?thesis
          by (simp add: handleEventWithguard_def Let_def stage_eq dispatch_def run_all_append slots_def)
      qed
    qed
  qed
qed

text \<open>A tied channel whose owner is gone runs nothing.\<close>

lemma handleEvent_dispatch:
  "handleEvent get upd run alive s =
     (if tied (get s) \<and> \<not> alive then Some s
      else run_all run (dispatch (get s)) (upd (\<lambda>ch. ch\<lparr>eventHandling := True\<rparr>) s) \<bind>
       (\<lambda>s. Some (upd (\<lambda>ch. ch\<lparr>eventHandling := False\<rparr>) s)))"
  by (simp add: handleEvent_def handleEventWithguard_dispatch)

end

end
