(* ===== verification/TcpConnection.thy ===== *)
theory TcpConnection
  imports Channel Buffer
begin

text \<open>
  \<open>tmuduo/net/TcpConnection.h\<close> and \<open>TcpConnection.cc\<close>. The state is the record
  \<open>tcp_conn\<close> with its own channel and buffers. Calls that leave the connection are appended
  to the list \<open>effects\<close> in order: functors and timers given to the loop, the bytes a
  \<open>write\<close> put into the kernel, \<open>shutdown(SHUT_WR)\<close>, updates of the channel's
  registration, and the callbacks. The outcome of the n-th \<open>write\<close> is the parameter
  \<open>sys_write\<close>. User code reacts to a callback with calls of the public interface. Each operation
  takes whether it runs in the loop's thread; \<open>None\<close> is a failed assertion or a fatal error.
\<close>

datatype conn_state = kDisconnected | kConnecting | kConnected | kDisconnecting

text \<open>
  The functors handed to the loop. \<open>SendDangling\<close> is the one of \<open>send(const void*, size_t)\<close>,
  whose lambda captures the local string by reference.
\<close>

datatype conn_functor = SendInLoop bytes | SendDangling | ShutdownInLoop | WriteComplete | HighWaterMark nat

datatype conn_effect =
    EQueue conn_functor
  | ERunAfter int
  | EWrote bytes
  | EShutdownWrite
  | EUpdate flags
  | ERemove
  | EConnectionCallback bool
  | EMessageCallback
  | EWriteCompleteCallback
  | EHighWaterMarkCallback nat
  | ECloseCallback

datatype conn_cb = HandleRead | HandleWrite | HandleClose | HandleError

datatype write_result = Wrote nat | WriteError int

record tcp_conn =
  conn_name :: string
  conn_state :: conn_state
  conn_channel :: "conn_cb channel"
  highWaterMark :: size_t
  hasWriteComplete :: bool
  hasHighWaterMark :: bool
  inputBuffer :: buffer
  outputBuffer :: buffer
  writes :: nat
  effects :: "conn_effect list"

type_synonym sys_write = "nat \<Rightarrow> bytes \<Rightarrow> write_result"

datatype api_call = ApiSend bytes | ApiShutdown | ApiForceClose | ApiForceCloseWithDelay int | ApiRetrieve nat

record user_code =
  onConnection :: "tcp_conn \<Rightarrow> api_call list"
  onMessage :: "int \<Rightarrow> tcp_conn \<Rightarrow> api_call list"
  onWriteComplete :: "tcp_conn \<Rightarrow> api_call list"
  onHighWaterMark :: "nat \<Rightarrow> tcp_conn \<Rightarrow> api_call list"

definition EWOULDBLOCK :: int where "EWOULDBLOCK = 11"
definition EPIPE :: int where "EPIPE = 32"

definition emit :: "conn_effect \<Rightarrow> tcp_conn \<Rightarrow> tcp_conn" where
  "emit e c = c\<lparr>effects := effects c @ [e]\<rparr>"

definition upd_channel :: "(conn_cb channel \<Rightarrow> conn_cb channel) \<Rightarrow> tcp_conn \<Rightarrow> tcp_conn" where
  "upd_channel f c = c\<lparr>conn_channel := f (conn_channel c)\<rparr>"

text \<open>A change of the channel's interest, which \<open>Channel::update\<close> passes on to the loop.\<close>

definition set_interest :: "flags \<Rightarrow> tcp_conn \<Rightarrow> tcp_conn" where
  "set_interest ev c = emit (EUpdate ev) (upd_channel (\<lambda>ch. ch\<lparr>ch_events := ev, addedToLoop := True\<rparr>) c)"

definition TcpConnection_ctor :: "string \<Rightarrow> fd \<Rightarrow> tcp_conn option" where
  "TcpConnection_ctor name sockfd = do {
     inb \<leftarrow> Buffer_ctor;
     outb \<leftarrow> Buffer_ctor;
     Some \<lparr>conn_name = name, conn_state = kConnecting,
       conn_channel = setErrorCallback HandleError (setCloseCallback HandleClose
         (setWriteCallback HandleWrite (setReadCallback HandleRead (Channel_ctor sockfd)))),
       highWaterMark = 64 * 1024 * 1024, hasWriteComplete = False, hasHighWaterMark = False,
       inputBuffer = inb, outputBuffer = outb, writes = 0, effects = []\<rparr> }"

definition setHighWaterMarkCallback :: "size_t \<Rightarrow> tcp_conn \<Rightarrow> tcp_conn" where
  "setHighWaterMarkCallback mark c = c\<lparr>hasHighWaterMark := True, highWaterMark := mark\<rparr>"

definition setWriteCompleteCallback :: "tcp_conn \<Rightarrow> tcp_conn" where
  "setWriteCompleteCallback c = c\<lparr>hasWriteComplete := True\<rparr>"

definition connected :: "tcp_conn \<Rightarrow> bool" where
  "connected c \<longleftrightarrow> conn_state c = kConnected"

subsection \<open>Sending\<close>

text \<open>
  The second half of \<open>sendInLoop\<close>: what is left is appended from the start of the message,
  \<open>append(message, remaining)\<close>.
\<close>

definition send_rest :: "bytes \<Rightarrow> int \<Rightarrow> bool \<Rightarrow> tcp_conn \<Rightarrow> tcp_conn option" where
  "send_rest message remaining error c = do {
     assert_that (remaining \<le> int (length message));
     if \<not> error \<and> remaining > 0 then do {
       let oldLen = readableBytes (outputBuffer c);
       let c = (if oldLen + nat remaining \<ge> highWaterMark c \<and> oldLen < highWaterMark c \<and> hasHighWaterMark c
                then emit (EQueue (HighWaterMark (oldLen + nat remaining))) c else c);
       b \<leftarrow> Buffer_append (take (nat remaining) message) (outputBuffer c);
       let c = c\<lparr>outputBuffer := b\<rparr>;
       Some (if \<not> isWriting (conn_channel c)
             then set_interest (ch_events (conn_channel c) OR kWriteEvent) c else c) }
     else Some c }"

text \<open>The direct write is tried when nothing is waiting to be written.\<close>

definition sendInLoop :: "sys_write \<Rightarrow> bool \<Rightarrow> bytes \<Rightarrow> tcp_conn \<Rightarrow> tcp_conn option" where
  "sendInLoop sys_write inLoop message c = do {
     assert_that inLoop;
     let len = length message;
     if conn_state c = kDisconnected then Some c
     else if \<not> isWriting (conn_channel c) \<and> readableBytes (outputBuffer c) = 0 then
       (case sys_write (writes c) message of
          Wrote nwrote \<Rightarrow> do {
            let c = emit (EWrote (take nwrote message)) (c\<lparr>writes := writes c + 1\<rparr>);
            let remaining = int len - int nwrote;
            let c = (if remaining = 0 \<and> hasWriteComplete c then emit (EQueue WriteComplete) c else c);
            send_rest message remaining False c }
        | WriteError errno \<Rightarrow>
            send_rest message (int len) (errno \<noteq> EWOULDBLOCK \<and> errno = EPIPE) (c\<lparr>writes := writes c + 1\<rparr>))
     else send_rest message (int len) False c }"

definition send_ptr :: "sys_write \<Rightarrow> bool \<Rightarrow> bytes \<Rightarrow> tcp_conn \<Rightarrow> tcp_conn option" where
  "send_ptr W inLoop message c =
     (if conn_state c = kConnected then
        (if inLoop then sendInLoop W inLoop message c else Some (emit (EQueue SendDangling) c))
      else Some c)"

definition send_string :: "sys_write \<Rightarrow> bool \<Rightarrow> bytes \<Rightarrow> tcp_conn \<Rightarrow> tcp_conn option" where
  "send_string W inLoop message c =
     (if conn_state c = kConnected then
        (if inLoop then sendInLoop W inLoop message c else Some (emit (EQueue (SendInLoop message)) c))
      else Some c)"

definition send_buffer :: "sys_write \<Rightarrow> bool \<Rightarrow> buffer \<Rightarrow> tcp_conn \<Rightarrow> (buffer \<times> tcp_conn) option" where
  "send_buffer W inLoop message c =
     (if conn_state c = kConnected then
        (if inLoop then do {
           c \<leftarrow> sendInLoop W inLoop (mem message (peek message) (readableBytes message)) c;
           Some (retrieveAll message, c) }
         else Some (message, emit (EQueue (SendInLoop (toStringView message))) c))
      else Some (message, c))"

subsection \<open>Shutting down\<close>

definition shutdownInLoop :: "bool \<Rightarrow> tcp_conn \<Rightarrow> tcp_conn option" where
  "shutdownInLoop inLoop c = do {
     assert_that inLoop;
     Some (if \<not> isWriting (conn_channel c) then emit EShutdownWrite c else c) }"

text \<open>\<open>state_.exchange(kDisconnecting)\<close> takes effect whatever the state was.\<close>

definition conn_shutdown :: "bool \<Rightarrow> tcp_conn \<Rightarrow> tcp_conn option" where
  "conn_shutdown inLoop c =
     (let old = conn_state c; c = c\<lparr>conn_state := kDisconnecting\<rparr> in
      if old = kConnected then
        (if inLoop then shutdownInLoop inLoop c else Some (emit (EQueue ShutdownInLoop) c))
      else Some c)"

definition forceClose :: "tcp_conn \<Rightarrow> tcp_conn" where
  "forceClose c =
     (let old = conn_state c; c = c\<lparr>conn_state := kDisconnecting\<rparr> in
      if old = kConnected \<or> old = kDisconnecting then emit (EQueue ShutdownInLoop) c
      else c\<lparr>conn_state := old\<rparr>)"

definition forceCloseWithDelay :: "int \<Rightarrow> tcp_conn \<Rightarrow> tcp_conn" where
  "forceCloseWithDelay seconds c =
     (let old = conn_state c; c = c\<lparr>conn_state := kDisconnecting\<rparr> in
      if old = kConnected \<or> old = kDisconnecting then emit (ERunAfter seconds) c
      else c\<lparr>conn_state := old\<rparr>)"

subsection \<open>User code\<close>

definition exec_api :: "sys_write \<Rightarrow> bool \<Rightarrow> api_call \<Rightarrow> tcp_conn \<Rightarrow> tcp_conn option" where
  "exec_api W inLoop a c =
     (case a of
        ApiSend d \<Rightarrow> send_string W inLoop d c
      | ApiShutdown \<Rightarrow> conn_shutdown inLoop c
      | ApiForceClose \<Rightarrow> Some (forceClose c)
      | ApiForceCloseWithDelay s \<Rightarrow> Some (forceCloseWithDelay s c)
      | ApiRetrieve n \<Rightarrow> Some (c\<lparr>inputBuffer := retrieve n (inputBuffer c)\<rparr>))"

primrec exec_apis :: "sys_write \<Rightarrow> bool \<Rightarrow> api_call list \<Rightarrow> tcp_conn \<Rightarrow> tcp_conn option" where
  "exec_apis W inLoop [] c = Some c"
| "exec_apis W inLoop (a # as) c = exec_api W inLoop a c \<bind> exec_apis W inLoop as"

text \<open>\<open>defaultConnectionCallback\<close> only logs, \<open>defaultMessageCallback\<close> discards the input.\<close>

definition default_callbacks :: user_code where
  "default_callbacks = \<lparr>onConnection = (\<lambda>c. []), onMessage = (\<lambda>t c. [ApiRetrieve (readableBytes (inputBuffer c))]),
     onWriteComplete = (\<lambda>c. []), onHighWaterMark = (\<lambda>n c. [])\<rparr>"

definition connectionCallback :: "user_code \<Rightarrow> sys_write \<Rightarrow> tcp_conn \<Rightarrow> tcp_conn option" where
  "connectionCallback u W c =
     exec_apis W True (onConnection u c) (emit (EConnectionCallback (connected c)) c)"

subsection \<open>Event handlers\<close>

definition handleClose :: "user_code \<Rightarrow> sys_write \<Rightarrow> bool \<Rightarrow> tcp_conn \<Rightarrow> tcp_conn option" where
  "handleClose u W inLoop c = do {
     assert_that inLoop;
     assert_that (conn_state c = kConnected \<or> conn_state c = kDisconnecting);
     let c = c\<lparr>conn_state := kDisconnected\<rparr>;
     let c = set_interest kNoneEvent c;
     c \<leftarrow> connectionCallback u W c;
     Some (emit ECloseCallback c) }"

definition forceCloseInLoop :: "user_code \<Rightarrow> sys_write \<Rightarrow> bool \<Rightarrow> tcp_conn \<Rightarrow> tcp_conn option" where
  "forceCloseInLoop u W inLoop c = do {
     assert_that inLoop;
     if conn_state c = kConnected \<or> conn_state c = kDisconnecting then handleClose u W inLoop c
     else Some c }"

text \<open>\<open>handleError\<close> only reads \<open>SO_ERROR\<close> and logs it.\<close>

definition conn_handleError :: "tcp_conn \<Rightarrow> tcp_conn option" where
  "conn_handleError c = Some c"

definition conn_handleRead ::
  "user_code \<Rightarrow> sys_write \<Rightarrow> (size_t \<Rightarrow> int + bytes) \<Rightarrow> bool \<Rightarrow> int \<Rightarrow> tcp_conn \<Rightarrow> tcp_conn option" where
  "conn_handleRead u W readv inLoop receiveTime c = do {
     assert_that inLoop;
     (n, savedErrno, b) \<leftarrow> readFd readv 0 (inputBuffer c);
     let c = c\<lparr>inputBuffer := b\<rparr>;
     if n > 0 then exec_apis W True (onMessage u receiveTime c) (emit EMessageCallback c)
     else if n = 0 then handleClose u W inLoop c
     else conn_handleError c }"

definition handleWrite :: "sys_write \<Rightarrow> bool \<Rightarrow> tcp_conn \<Rightarrow> tcp_conn option" where
  "handleWrite W inLoop c = do {
     assert_that inLoop;
     if isWriting (conn_channel c) then
       (let data = mem (outputBuffer c) (peek (outputBuffer c)) (readableBytes (outputBuffer c)) in
        case W (writes c) data of
          Wrote n \<Rightarrow>
            (let c = emit (EWrote (take n data)) (c\<lparr>writes := writes c + 1\<rparr>) in
             if n > 0 then do {
               let c = c\<lparr>outputBuffer := retrieve n (outputBuffer c)\<rparr>;
               if readableBytes (outputBuffer c) = 0 then do {
                 let c = set_interest (ch_events (conn_channel c) AND NOT kWriteEvent) c;
                 let c = (if hasWriteComplete c then emit (EQueue WriteComplete) c else c);
                 if conn_state c = kDisconnecting then shutdownInLoop inLoop c else Some c }
               else Some c }
             else Some c)
        | WriteError e \<Rightarrow> Some (c\<lparr>writes := writes c + 1\<rparr>))
     else Some c }"

definition connectionEstablished :: "user_code \<Rightarrow> sys_write \<Rightarrow> bool \<Rightarrow> tcp_conn \<Rightarrow> tcp_conn option" where
  "connectionEstablished u W inLoop c = do {
     assert_that inLoop;
     assert_that (conn_state c = kConnecting);
     let c = c\<lparr>conn_state := kConnected\<rparr>;
     let c = upd_channel Channel_tie c;
     let c = set_interest (ch_events (conn_channel c) OR kReadEvent) c;
     connectionCallback u W c }"

definition connectionDestroyed :: "user_code \<Rightarrow> sys_write \<Rightarrow> bool \<Rightarrow> tcp_conn \<Rightarrow> tcp_conn option" where
  "connectionDestroyed u W inLoop c = do {
     assert_that inLoop;
     c \<leftarrow> (if conn_state c = kConnected then
            (let c = c\<lparr>conn_state := kDisconnected\<rparr>; c = set_interest kNoneEvent c in
             connectionCallback u W c)
          else Some c);
     assert_that (isNoneEvent (conn_channel c));
     Some (emit ERemove (upd_channel (\<lambda>ch. ch\<lparr>addedToLoop := False\<rparr>) c)) }"

text \<open>The functors among the effects of a call, and what becomes of them when the loop calls them; using the dangling reference is undefined.\<close>

definition queued :: "conn_effect list \<Rightarrow> conn_functor list" where
  "queued es = concat (map (\<lambda>e. case e of EQueue f \<Rightarrow> [f] | _ \<Rightarrow> []) es)"

definition run_functor :: "user_code \<Rightarrow> sys_write \<Rightarrow> conn_functor \<Rightarrow> tcp_conn \<Rightarrow> tcp_conn option" where
  "run_functor u W f c =
     (case f of
        SendInLoop d \<Rightarrow> sendInLoop W True d c
      | SendDangling \<Rightarrow> None
      | ShutdownInLoop \<Rightarrow> shutdownInLoop True c
      | WriteComplete \<Rightarrow> exec_apis W True (onWriteComplete u c) (emit EWriteCompleteCallback c)
      | HighWaterMark n \<Rightarrow> exec_apis W True (onHighWaterMark u n c) (emit (EHighWaterMarkCallback n) c))"

definition run_cb ::
  "user_code \<Rightarrow> sys_write \<Rightarrow> (size_t \<Rightarrow> int + bytes) \<Rightarrow> int \<Rightarrow> conn_cb \<Rightarrow> tcp_conn \<Rightarrow> tcp_conn option" where
  "run_cb u W readv receiveTime cb c =
     (case cb of
        HandleRead \<Rightarrow> conn_handleRead u W readv True receiveTime c
      | HandleWrite \<Rightarrow> handleWrite W True c
      | HandleClose \<Rightarrow> handleClose u W True c
      | HandleError \<Rightarrow> conn_handleError c)"

text \<open>An event of the connection's channel, with \<open>revents_\<close> as the poller set it.\<close>

definition conn_event ::
  "user_code \<Rightarrow> sys_write \<Rightarrow> (size_t \<Rightarrow> int + bytes) \<Rightarrow> int \<Rightarrow> flags \<Rightarrow> tcp_conn \<Rightarrow> tcp_conn option" where
  "conn_event u W readv receiveTime revents c =
     handleEvent conn_channel upd_channel (run_cb u W readv receiveTime) True (upd_channel (setRevents revents) c)"

subsection \<open>The channel contract\<close>

lemma emit_simps [simp]:
  "conn_channel (emit e c) = conn_channel c" "conn_state (emit e c) = conn_state c"
  "outputBuffer (emit e c) = outputBuffer c" "inputBuffer (emit e c) = inputBuffer c"
  "effects (emit e c) = effects c @ [e]" "writes (emit e c) = writes c"
  "hasWriteComplete (emit e c) = hasWriteComplete c" "hasHighWaterMark (emit e c) = hasHighWaterMark c"
  "highWaterMark (emit e c) = highWaterMark c"
  by (simp_all add: emit_def)

lemma set_interest_simps [simp]:
  "conn_state (set_interest ev c) = conn_state c" "outputBuffer (set_interest ev c) = outputBuffer c"
  "inputBuffer (set_interest ev c) = inputBuffer c" "effects (set_interest ev c) = effects c @ [EUpdate ev]"
  "hasWriteComplete (set_interest ev c) = hasWriteComplete c" "writes (set_interest ev c) = writes c"
  "ch_events (conn_channel (set_interest ev c)) = ev"
  "slots (conn_channel (set_interest ev c)) = slots (conn_channel c)"
  "tied (conn_channel (set_interest ev c)) = tied (conn_channel c)"
  by (simp_all add: set_interest_def upd_channel_def slots_def)

named_theorems conn_slots

lemma send_rest_slots [conn_slots]:
  "send_rest d r e c = Some c' \<Longrightarrow> slots (conn_channel c') = slots (conn_channel c)"
  by (auto simp: send_rest_def Let_def bind_eq_Some_conv split: if_splits)

lemma sendInLoop_slots [conn_slots]:
  "sendInLoop W l d c = Some c' \<Longrightarrow> slots (conn_channel c') = slots (conn_channel c)"
  by (auto simp: sendInLoop_def Let_def bind_eq_Some_conv split: if_splits write_result.splits
      dest!: send_rest_slots)

lemma shutdownInLoop_slots [conn_slots]:
  "shutdownInLoop l c = Some c' \<Longrightarrow> slots (conn_channel c') = slots (conn_channel c)"
  by (auto simp: shutdownInLoop_def bind_eq_Some_conv split: if_splits)

lemma exec_api_slots [conn_slots]:
  "exec_api W l a c = Some c' \<Longrightarrow> slots (conn_channel c') = slots (conn_channel c)"
  by (cases a) (auto simp: exec_api_def send_string_def conn_shutdown_def forceClose_def forceCloseWithDelay_def
      Let_def split: if_splits dest: sendInLoop_slots shutdownInLoop_slots)

lemma exec_apis_slots [conn_slots]:
  "exec_apis W l as c = Some c' \<Longrightarrow> slots (conn_channel c') = slots (conn_channel c)"
  by (induction as arbitrary: c) (auto simp: bind_eq_Some_conv dest: exec_api_slots)

lemma connectionCallback_slots [conn_slots]:
  "connectionCallback u W c = Some c' \<Longrightarrow> slots (conn_channel c') = slots (conn_channel c)"
  by (auto simp: connectionCallback_def dest: exec_apis_slots)

lemma handleClose_slots [conn_slots]:
  "handleClose u W l c = Some c' \<Longrightarrow> slots (conn_channel c') = slots (conn_channel c)"
  by (auto simp: handleClose_def Let_def bind_eq_Some_conv dest!: connectionCallback_slots)

lemma handleWrite_slots [conn_slots]:
  "handleWrite W l c = Some c' \<Longrightarrow> slots (conn_channel c') = slots (conn_channel c)"
  by (auto simp: handleWrite_def Let_def bind_eq_Some_conv split: if_splits write_result.splits
      dest!: shutdownInLoop_slots)

lemma conn_handleRead_slots [conn_slots]:
  "conn_handleRead u W readv l t c = Some c' \<Longrightarrow> slots (conn_channel c') = slots (conn_channel c)"
  by (auto simp: conn_handleRead_def conn_handleError_def Let_def bind_eq_Some_conv split: if_splits
      dest!: exec_apis_slots handleClose_slots)

interpretation conn: channel_owner conn_channel upd_channel "run_cb u W readv t"
proof (unfold_locales, goal_cases)
  case (1 f s)
  then show ?case by (simp add: upd_channel_def)
next
  case (2 cb s s')
  then show ?case by (cases cb) (auto simp: run_cb_def conn_handleError_def dest: conn_slots)
qed

subsection \<open>Output\<close>

text \<open>
  A live connection: established, not yet closed, its buffers well-formed, and the channel
  watches for writability exactly when there is output waiting.
\<close>

definition conn_live :: "tcp_conn \<Rightarrow> bool" where
  "conn_live c \<longleftrightarrow> buffer_wf (inputBuffer c) \<and> buffer_wf (outputBuffer c) \<and> isReading (conn_channel c) \<and>
     (conn_state c = kConnected \<or> conn_state c = kDisconnecting) \<and>
     (isWriting (conn_channel c) \<longleftrightarrow> readable (outputBuffer c) \<noteq> [])"

definition written :: "tcp_conn \<Rightarrow> bytes" where
  "written c = concat (map (\<lambda>e. case e of EWrote d \<Rightarrow> d | _ \<Rightarrow> []) (effects c))"

lemma written_emit [simp]: "written (emit e c) = written c @ (case e of EWrote d \<Rightarrow> d | _ \<Rightarrow> [])"
  by (simp add: written_def)

lemma written_upd [simp]:
  "written (c\<lparr>writes := n\<rparr>) = written c" "written (c\<lparr>outputBuffer := b\<rparr>) = written c"
  "written (c\<lparr>conn_state := s\<rparr>) = written c" "written (set_interest ev c) = written c"
  by (simp_all add: written_def)

lemma event_bits:
  "(x OR kWriteEvent) AND kWriteEvent \<noteq> 0" "(x OR kWriteEvent) AND kReadEvent = x AND kReadEvent"
  "(x AND NOT kWriteEvent) AND kWriteEvent = 0" "(x AND NOT kWriteEvent) AND kReadEvent = x AND kReadEvent"
  for x :: flags
proof -
  show "(x OR kWriteEvent) AND kWriteEvent \<noteq> 0" by (simp add: bit.conj_disj_distrib2 kWriteEvent_def poll_flags or_eq_0_iff)
  show "(x OR kWriteEvent) AND kReadEvent = x AND kReadEvent"
    by (simp add: bit.conj_disj_distrib2 kWriteEvent_def kReadEvent_def poll_flags)
  show "(x AND NOT kWriteEvent) AND kWriteEvent = 0" by (simp add: and.assoc)
  show "(x AND NOT kWriteEvent) AND kReadEvent = x AND kReadEvent"
    by (simp add: and.assoc kWriteEvent_def kReadEvent_def poll_flags)
qed

text \<open>What a message becomes on the wire when its direct write takes the first \<open>k\<close> bytes.\<close>

definition on_wire :: "bytes \<Rightarrow> nat \<Rightarrow> bytes" where
  "on_wire d k = take k d @ take (length d - k) d"

lemma on_wire_whole [simp]: "on_wire d 0 = d" "on_wire d (length d) = d"
  by (simp_all add: on_wire_def)

text \<open>
  The output of a connection as a specification without buffer and channel: how many writes were made, what the
  kernel has taken, what waits. A message is offered to the kernel at once when nothing waits, otherwise it waits behind the
  rest; when the socket is writable, all that waits is offered. \<open>direct\<close> lists how much of each message
  its direct write took, and 0 for a message that had to wait.
\<close>

datatype conn_io = Snd bytes | Writable

fun messages :: "conn_io list \<Rightarrow> bytes list" where
  "messages [] = []"
| "messages (Snd d # is) = d # messages is"
| "messages (Writable # is) = messages is"

type_synonym out_state = "nat \<times> bytes \<times> bytes"

definition out_state :: "tcp_conn \<Rightarrow> out_state" where
  "out_state c = (writes c, written c, readable (outputBuffer c))"

fun took :: "sys_write \<Rightarrow> bytes \<Rightarrow> out_state \<Rightarrow> nat" where
  "took W d (n, sent, waiting) = (if waiting = [] then case W n d of Wrote k \<Rightarrow> k | WriteError e \<Rightarrow> 0 else 0)"

fun out_step :: "sys_write \<Rightarrow> conn_io \<Rightarrow> out_state \<Rightarrow> out_state" where
  "out_step W (Snd d) (n, sent, waiting) =
    (if waiting = [] then case W n d of Wrote k \<Rightarrow> (n + 1, sent @ take k d, take (length d - k) d)
       | WriteError e \<Rightarrow> (n + 1, sent, d)
     else (n, sent, waiting @ d))"
| "out_step W Writable (n, sent, waiting) =
    (if waiting = [] then (n, sent, waiting) else case W n waiting of Wrote k \<Rightarrow> (n + 1, sent @ take k waiting, drop k waiting)
       | WriteError e \<Rightarrow> (n + 1, sent, waiting))"

primrec out_run :: "sys_write \<Rightarrow> conn_io list \<Rightarrow> out_state \<Rightarrow> out_state" where
  "out_run W [] p = p"
| "out_run W (i # is) p = out_run W is (out_step W i p)"

fun direct :: "sys_write \<Rightarrow> conn_io list \<Rightarrow> out_state \<Rightarrow> nat list" where
  "direct W [] p = []"
| "direct W (Snd d # is) p = took W d p # direct W is (out_step W (Snd d) p)"
| "direct W (Writable # is) p = direct W is (out_step W Writable p)"

lemma messages_append [simp]: "messages (is @ js) = messages is @ messages js"
  by (induction "is" rule: messages.induct) auto

lemma out_run_append [simp]: "out_run W (is @ js) p = out_run W js (out_run W is p)"
  by (induction "is" arbitrary: p) auto

lemma direct_length [simp]: "length (direct W is p) = length (messages is)"
  by (induction W "is" p rule: direct.induct) auto

lemma out_step_stream:
  "out_step W i (n, sent, waiting) = (n', sent', waiting') \<Longrightarrow>
   sent' @ waiting' = sent @ waiting @ (case i of Snd d \<Rightarrow> on_wire d (took W d (n, sent, waiting)) | Writable \<Rightarrow> [])"
  by (cases i) (auto simp: on_wire_def split: write_result.splits if_splits)

lemma out_run_stream:
  "out_run W is (n, sent, waiting) = (n', sent', waiting') \<Longrightarrow>
   sent' @ waiting' = sent @ waiting @ concat (map2 on_wire (messages is) (direct W is (n, sent, waiting)))"
proof (induction "is" arbitrary: n sent waiting)
  case (Cons i "is")
  obtain m s w where p: "out_step W i (n, sent, waiting) = (m, s, w)" using prod_cases3 by blast
  have "sent' @ waiting' = (s @ w) @ concat (map2 on_wire (messages is) (direct W is (m, s, w)))"
    using Cons p by simp
  with out_step_stream [OF p] p show ?case by (cases i) (simp_all del: took.simps out_step.simps)
qed simp

text \<open>The kernel never takes more bytes than it is given, and the peer has not reset the connection.\<close>

definition write_ok :: "sys_write \<Rightarrow> bool" where
  "write_ok W \<longleftrightarrow> (\<forall>n d. case W n d of Wrote k \<Rightarrow> k \<le> length d | WriteError e \<Rightarrow> e \<noteq> EPIPE)"

lemma direct_bound:
  assumes "write_ok W"
  shows "list_all2 (\<lambda>d k. k \<le> length d) (messages is) (direct W is p)"
proof (induction "is" arbitrary: p)
  case (Cons i "is")
  have "took W d p \<le> length d" for d using assms by (cases p) (auto simp: write_ok_def split: write_result.splits dest: spec)
  with Cons show ?case by (cases i) auto
qed simp

lemma write_okD:
  "write_ok W \<Longrightarrow> W n d = Wrote k \<Longrightarrow> k \<le> length d" "write_ok W \<Longrightarrow> W n d = WriteError e \<Longrightarrow> e \<noteq> EPIPE"
  unfolding write_ok_def by (metis write_result.case)+

lemma liveD:
  assumes "conn_live c"
  shows "buffer_wf (outputBuffer c)" "conn_state c \<noteq> kDisconnected" "isReading (conn_channel c)"
    "isWriting (conn_channel c) \<longleftrightarrow> readable (outputBuffer c) \<noteq> []"
    "readableBytes (outputBuffer c) = length (readable (outputBuffer c))"
  using assms readableBytes_length by (auto simp: conn_live_def)

lemma live_cong:
  "conn_live c \<Longrightarrow> conn_channel c' = conn_channel c \<Longrightarrow> outputBuffer c' = outputBuffer c \<Longrightarrow>
   inputBuffer c' = inputBuffer c \<Longrightarrow> conn_state c' = conn_state c \<Longrightarrow> conn_live c'"
  by (simp add: conn_live_def)

text \<open>The second half of \<open>sendInLoop\<close>: what is left goes to the output buffer.\<close>

lemma buffer_rest:
  assumes live: "conn_live c" and room: "has_room (outputBuffer c) (length r)" and r: "r \<noteq> []"
  shows "\<exists>b. Buffer_append r (outputBuffer c) = Some b \<and>
    (let c' = (if \<not> isWriting (conn_channel c) then set_interest (ch_events (conn_channel c) OR kWriteEvent)
        (c\<lparr>outputBuffer := b\<rparr>) else c\<lparr>outputBuffer := b\<rparr>) in
     conn_live c' \<and> conn_state c' = conn_state c \<and> written c' = written c \<and> writes c' = writes c \<and>
     readable (outputBuffer c') = readable (outputBuffer c) @ r \<and>
     (\<forall>m. has_room (outputBuffer c) (length r + m) \<longrightarrow> has_room (outputBuffer c') m))"
proof -
  obtain b where b: "Buffer_append r (outputBuffer c) = Some b" "buffer_wf b"
    "readable b = readable (outputBuffer c) @ r"
    using buf.put_ok [OF liveD(1) [OF live] room] by blast
  then show ?thesis
    using live r event_bits [of "ch_events (conn_channel c)"] buf.put_room [OF liveD(1) [OF live] _ b(1)]
    by (auto simp: conn_live_def isReading_def isWriting_def Let_def)
qed

lemma emit_live: "conn_live (emit e c) = conn_live c" "conn_live (c\<lparr>writes := n\<rparr>) = conn_live c"
  by (simp_all add: conn_live_def)

lemma send_rest_live:
  assumes live: "conn_live c" and room: "has_room (outputBuffer c) (length message)"
    and k: "k \<le> length message"
  shows "\<exists>c'. send_rest message (int (length message) - int k) False c = Some c' \<and> conn_live c' \<and>
    conn_state c' = conn_state c \<and> written c' = written c \<and> writes c' = writes c \<and>
    readable (outputBuffer c') = readable (outputBuffer c) @ take (length message - k) message \<and>
    (\<forall>m. has_room (outputBuffer c) (length message + m) \<longrightarrow> has_room (outputBuffer c') m)"
proof (cases "k = length message")
  case True
  then show ?thesis using live by (simp add: send_rest_def has_room_def)
next
  case False
  then have n: "int (length message) - int k = int (length message - k)" "0 < length message - k"
    "take (length message - k) message \<noteq> []" using k by auto
  let ?r = "take (length message - k) message"
  define c1 where "c1 = (if readableBytes (outputBuffer c) + (length message - k) \<ge> highWaterMark c \<and>
      readableBytes (outputBuffer c) < highWaterMark c \<and> hasHighWaterMark c
    then emit (EQueue (HighWaterMark (readableBytes (outputBuffer c) + (length message - k)))) c else c)"
  have c1: "conn_live c1" "conn_channel c1 = conn_channel c" "outputBuffer c1 = outputBuffer c"
    "conn_state c1 = conn_state c" "written c1 = written c" "writes c1 = writes c"
    using live by (simp_all add: c1_def emit_live)
  have room': "has_room (outputBuffer c1) (length ?r)" using room by (auto simp: has_room_def c1(3))
  from buffer_rest [OF c1(1) room' n(3)] obtain b where
    b: "Buffer_append ?r (outputBuffer c1) = Some b"
    "(let c' = (if \<not> isWriting (conn_channel c1) then set_interest (ch_events (conn_channel c1) OR kWriteEvent)
        (c1\<lparr>outputBuffer := b\<rparr>) else c1\<lparr>outputBuffer := b\<rparr>) in
     conn_live c' \<and> conn_state c' = conn_state c1 \<and> written c' = written c1 \<and> writes c' = writes c1 \<and>
     readable (outputBuffer c') = readable (outputBuffer c1) @ ?r \<and>
     (\<forall>m. has_room (outputBuffer c1) (length ?r + m) \<longrightarrow> has_room (outputBuffer c') m))" by blast
  have less: "has_room (outputBuffer c1) (length ?r + m)" if "has_room (outputBuffer c) (length message + m)" for m
    using that by (simp add: has_room_def c1(3))
  have "send_rest message (int (length message) - int k) False c =
      Some (if \<not> isWriting (conn_channel c1) then set_interest (ch_events (conn_channel c1) OR kWriteEvent)
        (c1\<lparr>outputBuffer := b\<rparr>) else c1\<lparr>outputBuffer := b\<rparr>)"
    unfolding n(1) send_rest_def Let_def nat_int c1_def [symmetric] using n(2) b(1) by simp
  then show ?thesis using b(2) c1 less by (auto simp: Let_def)
qed

lemma sendInLoop_live:
  assumes live: "conn_live c" and W: "write_ok W" and room: "has_room (outputBuffer c) (length message)"
  shows "\<exists>c'. sendInLoop W True message c = Some c' \<and> conn_live c' \<and> conn_state c' = conn_state c \<and>
    out_state c' = out_step W (Snd message) (out_state c) \<and>
    (\<forall>m. has_room (outputBuffer c) (length message + m) \<longrightarrow> has_room (outputBuffer c') m)"
proof -
  have st: "conn_state c \<noteq> kDisconnected" using liveD(2) [OF live] .
  show ?thesis
  proof (cases "readable (outputBuffer c) = []")
    case False
    then have "sendInLoop W True message c = send_rest message (int (length message) - int 0) False c"
      using st liveD(4,5) [OF live] by (simp add: sendInLoop_def Let_def)
    with send_rest_live [OF live room, of 0] False show ?thesis by (auto simp: out_state_def)
  next
    case out: True
    then have idle: "\<not> isWriting (conn_channel c) \<and> readableBytes (outputBuffer c) = 0"
      using liveD(4,5) [OF live] by simp
    show ?thesis
    proof (cases "W (writes c) message")
      case (WriteError e)
      then have "e \<noteq> EPIPE" using write_okD(2) [OF W] by blast
      then have "sendInLoop W True message c =
          send_rest message (int (length message) - int 0) False (c\<lparr>writes := writes c + 1\<rparr>)"
        using st idle WriteError by (simp add: sendInLoop_def Let_def)
      with send_rest_live [of "c\<lparr>writes := writes c + 1\<rparr>" message 0] live room out WriteError show ?thesis
        by (auto simp: emit_live out_state_def)
    next
      case (Wrote k)
      have k: "k \<le> length message" using write_okD(1) [OF W Wrote] .
      define c0 where "c0 = emit (EWrote (take k message)) (c\<lparr>writes := writes c + 1\<rparr>)"
      define c1 where "c1 = (if int (length message) - int k = 0 \<and> hasWriteComplete c0
        then emit (EQueue WriteComplete) c0 else c0)"
      have c1: "conn_live c1" "outputBuffer c1 = outputBuffer c" "conn_state c1 = conn_state c"
        "written c1 = written c @ take k message" "writes c1 = writes c + 1"
        using live by (simp_all add: c1_def c0_def emit_live)
      have "sendInLoop W True message c = send_rest message (int (length message) - int k) False c1"
        unfolding sendInLoop_def Let_def using st idle Wrote by (simp add: c0_def c1_def)
      with send_rest_live [OF c1(1) _ k] room c1 out k Wrote show ?thesis
        by (auto simp: out_state_def)
    qed
  qed
qed

lemma output_data: "buffer_wf b \<Longrightarrow> mem b (peek b) (readableBytes b) = readable b"
  using toStringView_readable [of b] by (simp add: toStringView_def)

text \<open>\<open>handleWrite\<close> by cases: nothing written, part of the output, all of it.\<close>

lemma handleWrite_none:
  "conn_live c \<Longrightarrow> isWriting (conn_channel c) \<Longrightarrow> W (writes c) (readable (outputBuffer c)) = WriteError e \<Longrightarrow>
   handleWrite W True c = Some (c\<lparr>writes := writes c + 1\<rparr>)"
  by (simp add: handleWrite_def output_data [OF liveD(1)])

lemma handleWrite_part:
  assumes live: "conn_live c" and out: "readable (outputBuffer c) \<noteq> []"
    and W: "W (writes c) (readable (outputBuffer c)) = Wrote n" "n < length (readable (outputBuffer c))"
  shows "\<exists>c'. handleWrite W True c = Some c' \<and> conn_live c' \<and> conn_state c' = conn_state c \<and>
    effects c' = effects c @ [EWrote (take n (readable (outputBuffer c)))] \<and>
    readable (outputBuffer c') = drop n (readable (outputBuffer c)) \<and>
    hasWriteComplete c' = hasWriteComplete c \<and> writes c' = writes c + 1 \<and>
    (\<forall>m. has_room (outputBuffer c) m \<longrightarrow> has_room (outputBuffer c') m)"
proof -
  note wf = liveD(1) [OF live] and w = liveD(4) [OF live]
  have len: "readableBytes (retrieve n (outputBuffer c)) \<noteq> 0"
    using W(2) readableBytes_length [OF buf.get_invar [OF wf], of n] buf.get_content [OF wf, of n] by simp
  show ?thesis
  proof (cases "n = 0")
    case True
    then show ?thesis
      using live out w W(1) by (simp add: handleWrite_def output_data [OF wf] emit_live Let_def)
  next
    case False
    let ?c = "(emit (EWrote (take n (readable (outputBuffer c)))) (c\<lparr>writes := writes c + 1\<rparr>))
      \<lparr>outputBuffer := retrieve n (outputBuffer c)\<rparr>"
    have "handleWrite W True c = Some ?c"
      using False out w W(1) len by (simp add: handleWrite_def output_data [OF wf] Let_def)
    moreover have "conn_live ?c"
      using live w out W(2) buf.get_invar [OF wf, of n] buf.get_content [OF wf, of n] by (simp add: conn_live_def)
    ultimately show ?thesis using buf.get_content [OF wf, of n] buf.get_room [OF wf] by simp
  qed
qed

lemma handleWrite_all:
  assumes live: "conn_live c" and out: "readable (outputBuffer c) \<noteq> []"
    and W: "W (writes c) (readable (outputBuffer c)) = Wrote (length (readable (outputBuffer c)))"
  shows "\<exists>c'. handleWrite W True c = Some c' \<and> conn_live c' \<and> conn_state c' = conn_state c \<and>
    (\<exists>ev. effects c' = effects c @ [EWrote (readable (outputBuffer c)), EUpdate ev] @
      (if hasWriteComplete c then [EQueue WriteComplete] else []) @
      (if conn_state c = kDisconnecting then [EShutdownWrite] else [])) \<and>
    readable (outputBuffer c') = [] \<and> writes c' = writes c + 1 \<and>
    (\<forall>m. has_room (outputBuffer c) m \<longrightarrow> has_room (outputBuffer c') m)"
proof -
  note wf = liveD(1) [OF live] and w = liveD(4) [OF live]
  let ?n = "length (readable (outputBuffer c))" and ?ev = "ch_events (conn_channel c) AND NOT kWriteEvent"
  let ?b = "retrieve ?n (outputBuffer c)"
  have b: "buffer_wf ?b" "readable ?b = []" using buf.get_invar [OF wf] buf.get_content [OF wf, of ?n] by simp_all
  then have len: "readableBytes ?b = 0" by (simp add: readableBytes_length)
  define c1 where "c1 = set_interest ?ev
    ((emit (EWrote (readable (outputBuffer c))) (c\<lparr>writes := writes c + 1\<rparr>))\<lparr>outputBuffer := ?b\<rparr>)"
  define c2 where "c2 = (if hasWriteComplete c1 then emit (EQueue WriteComplete) c1 else c1)"
  have c1: "conn_live c1" "effects c1 = effects c @ [EWrote (readable (outputBuffer c)), EUpdate ?ev]"
    "conn_state c1 = conn_state c" "hasWriteComplete c1 = hasWriteComplete c" "outputBuffer c1 = ?b"
    "writes c1 = writes c + 1" "\<not> isWriting (conn_channel c1)"
    using live b event_bits [of "ch_events (conn_channel c)"]
    by (simp_all add: c1_def conn_live_def isReading_def isWriting_def)
  have "handleWrite W True c = (if conn_state c2 = kDisconnecting then shutdownInLoop True c2 else Some c2)"
    using out w W len by (simp add: handleWrite_def output_data [OF wf] Let_def c1_def c2_def)
  moreover have "conn_live c2" "conn_channel c2 = conn_channel c1" "outputBuffer c2 = ?b" "conn_state c2 = conn_state c"
    "writes c2 = writes c + 1"
    "effects c2 = effects c1 @ (if hasWriteComplete c then [EQueue WriteComplete] else [])"
    using c1 by (simp_all add: c2_def emit_live)
  ultimately show ?thesis
    using c1 b buf.get_room [OF wf] by (auto simp: shutdownInLoop_def emit_live)
qed

lemma handleWrite_live:
  assumes live: "conn_live c" and W: "write_ok W"
  shows "\<exists>c'. handleWrite W True c = Some c' \<and> conn_live c' \<and> conn_state c' = conn_state c \<and>
    out_state c' = out_step W Writable (out_state c) \<and>
    (\<forall>m. has_room (outputBuffer c) m \<longrightarrow> has_room (outputBuffer c') m)"
proof (cases "readable (outputBuffer c) = []")
  case True
  then show ?thesis using live liveD(4) [OF live] by (simp add: handleWrite_def out_state_def)
next
  case out: False
  show ?thesis
  proof (cases "W (writes c) (readable (outputBuffer c))")
    case (WriteError e)
    then show ?thesis
      using handleWrite_none [of c W e] WriteError live out liveD(4) [OF live] by (simp add: emit_live out_state_def)
  next
    case (Wrote n)
    have n: "n \<le> length (readable (outputBuffer c))" using write_okD(1) [OF W Wrote] .
    show ?thesis
    proof (cases "n = length (readable (outputBuffer c))")
      case True
      with handleWrite_all [OF live out, of W] Wrote obtain c' ev where c': "handleWrite W True c = Some c'" "conn_live c'"
        "conn_state c' = conn_state c" "readable (outputBuffer c') = []" "writes c' = writes c + 1"
        "\<forall>m. has_room (outputBuffer c) m \<longrightarrow> has_room (outputBuffer c') m"
        "effects c' = effects c @ [EWrote (readable (outputBuffer c)), EUpdate ev] @
          (if hasWriteComplete c then [EQueue WriteComplete] else []) @
          (if conn_state c = kDisconnecting then [EShutdownWrite] else [])" by auto
      then have "written c' = written c @ readable (outputBuffer c)" by (simp add: written_def)
      with c' out True Wrote show ?thesis by (simp add: out_state_def)
    next
      case False
      with n handleWrite_part [OF live out, of W n] Wrote obtain c' where c': "handleWrite W True c = Some c'" "conn_live c'"
        "conn_state c' = conn_state c" "readable (outputBuffer c') = drop n (readable (outputBuffer c))" "writes c' = writes c + 1"
        "\<forall>m. has_room (outputBuffer c) m \<longrightarrow> has_room (outputBuffer c') m"
        "effects c' = effects c @ [EWrote (take n (readable (outputBuffer c)))]" by auto
      then have "written c' = written c @ take n (readable (outputBuffer c))" by (simp add: written_def)
      with c' out Wrote show ?thesis by (simp add: out_state_def)
    qed
  qed
qed

text \<open>A connected connection on which messages are sent and writability is reported, in any order.\<close>

definition exec_io :: "sys_write \<Rightarrow> conn_io \<Rightarrow> tcp_conn \<Rightarrow> tcp_conn option" where
  "exec_io W i c = (case i of Snd d \<Rightarrow> send_string W True d c | Writable \<Rightarrow> handleWrite W True c)"

primrec exec_ios :: "sys_write \<Rightarrow> conn_io list \<Rightarrow> tcp_conn \<Rightarrow> tcp_conn option" where
  "exec_ios W [] c = Some c"
| "exec_ios W (i # is) c = exec_io W i c \<bind> exec_ios W is"

lemma exec_ios_refines:
  assumes "conn_live c" "conn_state c = kConnected" "write_ok W"
    and "has_room (outputBuffer c) (length (concat (messages is)))"
  shows "\<exists>c'. exec_ios W is c = Some c' \<and> conn_live c' \<and> conn_state c' = kConnected \<and>
    out_state c' = out_run W is (out_state c)"
  using assms
proof (induction "is" arbitrary: c)
  case (Cons i "is")
  have "\<exists>c1. exec_io W i c = Some c1 \<and> conn_live c1 \<and> conn_state c1 = kConnected \<and> out_state c1 = out_step W i (out_state c) \<and>
    has_room (outputBuffer c1) (length (concat (messages is)))"
  proof (cases i)
    case (Snd d)
    have "has_room (outputBuffer c) (length d)" using Cons.prems(4) Snd by (simp add: has_room_def)
    from sendInLoop_live [OF Cons.prems(1,3) this] show ?thesis
      using Cons.prems(2,4) Snd by (auto simp: exec_io_def send_string_def)
  next
    case Writable
    from handleWrite_live [OF Cons.prems(1,3)] show ?thesis
      using Cons.prems(2,4) Writable by (auto simp: exec_io_def)
  qed
  then obtain c1 where c1: "exec_io W i c = Some c1" "conn_live c1" "conn_state c1 = kConnected"
    "out_state c1 = out_step W i (out_state c)" "has_room (outputBuffer c1) (length (concat (messages is)))" by blast
  from Cons.IH [OF c1(2,3) Cons.prems(3) c1(5)] c1(1,4) show ?case by simp
qed simp

subsection \<open>Draining, closing and the life of a connection\<close>

lemma drain_output:
  assumes "conn_live c" "conn_state c = kDisconnecting" "readable (outputBuffer c) = d" "ns \<noteq> []"
    and "\<forall>i < length ns. \<forall>x. W (writes c + i) x = Wrote (ns ! i)" "0 \<notin> set ns" "sum_list ns = length d"
  shows "\<exists>c' ps ev. exec_ios W (replicate (length ns) Writable) c = Some c' \<and> concat ps = d \<and>
    effects c' = effects c @ map EWrote ps @ [EUpdate ev] @
      (if hasWriteComplete c then [EQueue WriteComplete] else []) @ [EShutdownWrite]"
  using assms
proof (induction ns arbitrary: c d)
  case (Cons n ns)
  have out: "readable (outputBuffer c) \<noteq> []" using Cons.prems(3,6,7) by auto
  have W: "W (writes c) (readable (outputBuffer c)) = Wrote n" using Cons.prems(5) by (auto dest: spec [of _ 0])
  show ?case
  proof (cases "ns = []")
    case True
    then have "W (writes c) (readable (outputBuffer c)) = Wrote (length (readable (outputBuffer c)))"
      using W Cons.prems(3,7) by simp
    from handleWrite_all [OF Cons.prems(1) out, where W = W, OF this] obtain c' ev where
      "handleWrite W True c = Some c'"
      "effects c' = effects c @ [EWrote d, EUpdate ev] @
        (if hasWriteComplete c then [EQueue WriteComplete] else []) @ [EShutdownWrite]"
      using Cons.prems(2,3) by auto
    with True show ?thesis
      by (intro exI [of _ c'] exI [of _ "[d]"] exI [of _ ev]) (simp add: exec_io_def)
  next
    case False
    have "0 < sum_list ns" using False Cons.prems(6) by (cases ns) auto
    then have "n < length (readable (outputBuffer c))" using Cons.prems(3,7) by simp
    from handleWrite_part [OF Cons.prems(1) out, where W = W and n = n, OF W this] obtain c1 where
      c1: "handleWrite W True c = Some c1" "conn_live c1" "conn_state c1 = kDisconnecting"
        "effects c1 = effects c @ [EWrote (take n d)]" "readable (outputBuffer c1) = drop n d"
        "hasWriteComplete c1 = hasWriteComplete c" "writes c1 = writes c + 1"
      using Cons.prems(2,3) by auto
    have "\<forall>i < length ns. \<forall>x. W (writes c1 + i) x = Wrote (ns ! i)"
      using Cons.prems(5) c1(7) by (auto dest: spec [of _ "Suc _"])
    moreover have "0 \<notin> set ns" "sum_list ns = length (drop n d)" using Cons.prems(6,7) by auto
    ultimately obtain c' ps ev where
      "exec_ios W (replicate (length ns) Writable) c1 = Some c'" "concat ps = drop n d"
      "effects c' = effects c1 @ map EWrote ps @ [EUpdate ev] @
        (if hasWriteComplete c1 then [EQueue WriteComplete] else []) @ [EShutdownWrite]"
      using Cons.IH [OF c1(2,3,5) False] by blast
    with c1 show ?thesis
      by (intro exI [of _ c'] exI [of _ "take n d # ps"] exI [of _ ev]) (simp add: exec_io_def)
  qed
qed simp

text \<open>User code that does nothing when the connection goes up or down.\<close>

definition silent :: "user_code \<Rightarrow> bool" where
  "silent u \<longleftrightarrow> (\<forall>c. onConnection u c = [])"

lemma connectionCallback_silent: "silent u \<Longrightarrow> connectionCallback u W c = Some (emit (EConnectionCallback (connected c)) c)"
  by (simp add: connectionCallback_def silent_def)

lemma handleClose_silent:
  assumes "silent u" "conn_state c = kConnected \<or> conn_state c = kDisconnecting"
  shows "\<exists>c'. handleClose u W True c = Some c' \<and> conn_state c' = kDisconnected \<and> isNoneEvent (conn_channel c') \<and>
    effects c' = effects c @ [EUpdate kNoneEvent, EConnectionCallback False, ECloseCallback]"
  using assms by (simp add: handleClose_def connectionCallback_silent connected_def isNoneEvent_def)

lemma readFd_eof:
  assumes "buffer_wf b"
  shows "\<exists>b'. readFd (\<lambda>n. Inr []) 0 b = Some (0, 0, b')"
proof -
  have "writerIndex b \<le> length (vec b)" using assms by (simp add: buffer_wf_def)
  then show ?thesis by (simp add: readFd_def Let_def vec_write_def)
qed

subsection \<open>Properties\<close>

text \<open>
  C30: the output of a connected connection. Whatever messages are sent and whenever the
  socket becomes writable, as long as the kernel takes no more bytes than offered and reports no
  broken pipe: every call succeeds, the channel watches for writability exactly while output is
  waiting, and the number of writes, the bytes written and the waiting bytes are those of the specification
  \<open>out_run\<close>, which has neither buffer nor channel. Hence the bytes written so far followed by the waiting ones
  are the messages in order, where a message whose direct write took \<open>k\<close> of its bytes, with
  \<open>k = 0\<close> if it had to wait, contributes \<open>on_wire message k\<close>: the message itself if the direct write took
  nothing or everything, otherwise its first \<open>k\<close> bytes and then its first, not its last, remaining ones.
\<close>

theorem conn_output_stream:
  assumes "conn_live c" "conn_state c = kConnected" "write_ok W"
    and "has_room (outputBuffer c) (length (concat (messages is)))"
  shows "\<exists>c'. exec_ios W is c = Some c' \<and> conn_state c' = kConnected \<and>
    (isWriting (conn_channel c') \<longleftrightarrow> readable (outputBuffer c') \<noteq> []) \<and>
    (writes c', written c', readable (outputBuffer c')) =
      out_run W is (writes c, written c, readable (outputBuffer c)) \<and>
    written c' @ readable (outputBuffer c') = written c @ readable (outputBuffer c) @
      concat (map2 on_wire (messages is) (direct W is (writes c, written c, readable (outputBuffer c))))"
proof -
  obtain c' where c': "exec_ios W is c = Some c'" "conn_live c'" "conn_state c' = kConnected"
    "out_state c' = out_run W is (out_state c)" using exec_ios_refines [OF assms] by blast
  then show ?thesis
    using out_run_stream [OF c'(4) [unfolded out_state_def, symmetric]] liveD(4) [OF c'(2)] by (simp add: out_state_def)
qed

definition demo_user :: user_code where
  "demo_user = \<lparr>onConnection = (\<lambda>c. []), onMessage = (\<lambda>t c. []), onWriteComplete = (\<lambda>c. []),
     onHighWaterMark = (\<lambda>n c. [])\<rparr>"

text \<open>A connection that has been established and has \<open>out\<close> waiting to be written.\<close>

definition demo_conn :: "buffer \<Rightarrow> tcp_conn" where
  "demo_conn out = \<lparr>conn_name = ''c'', conn_state = kConnected,
     conn_channel = (setErrorCallback HandleError (setCloseCallback HandleClose (setWriteCallback HandleWrite
       (setReadCallback HandleRead (Channel_ctor 5)))))\<lparr>ch_events := kReadEvent OR
         (if readable out = [] then 0 else kWriteEvent)\<rparr>,
     highWaterMark = 64 * 1024 * 1024, hasWriteComplete = False, hasHighWaterMark = False,
     inputBuffer = empty_buffer, outputBuffer = out, writes = 0, effects = []\<rparr>"

lemma demo_conn_live: "buffer_wf out \<Longrightarrow> conn_live (demo_conn out)"
  by (simp add: conn_live_def demo_conn_def isReading_def isWriting_def kReadEvent_def kWriteEvent_def poll_flags)

lemma demo_conn_simps [simp]:
  "conn_state (demo_conn out) = kConnected" "outputBuffer (demo_conn out) = out" "effects (demo_conn out) = []"
  "writes (demo_conn out) = 0" "written (demo_conn out) = []" "hasWriteComplete (demo_conn out) = False"
  by (simp_all add: demo_conn_def written_def)

text \<open>
  A kernel whose first write takes one byte, the second blocks, and which later takes at most two bytes: the first message is
  cut, the second waits behind it.
\<close>

definition slow_kernel :: sys_write where
  "slow_kernel n d = (if n = 0 then Wrote (min 1 (length d)) else if n = 1 then WriteError EWOULDBLOCK else Wrote (min 2 (length d)))"

lemma slow_kernel_ok: "write_ok slow_kernel"
  by (simp add: write_ok_def slow_kernel_def EWOULDBLOCK_def EPIPE_def)

theorem conn_output_stream_witness:
  "\<exists>c'. exec_ios slow_kernel [Snd ''abc'', Snd ''de'', Writable, Writable] (demo_conn empty_buffer) = Some c' \<and>
     isWriting (conn_channel c') \<and> writes c' = 3 \<and> written c' = ''aab'' \<and> readable (outputBuffer c') = ''de'' \<and>
     written c' @ readable (outputBuffer c') = on_wire ''abc'' 1 @ on_wire ''de'' 0"
proof -
  let ?is = "[Snd ''abc'', Snd ''de'', Writable, Writable]"
  have r: "has_room (outputBuffer (demo_conn empty_buffer)) (length (concat (messages ?is)))"
    by (simp add: has_room_def empty_buffer_def max_size_def)
  from conn_output_stream [OF demo_conn_live [OF empty_buffer_wf] _ slow_kernel_ok r]
  show ?thesis by (auto simp: readable_empty slow_kernel_def on_wire_def)
qed

text \<open>
  C31: after a direct write that took only part of a message, \<open>sendInLoop\<close> keeps the first
  \<open>remaining\<close> bytes of the message for later instead of the last ones. Once the rest is
  written, the peer has received something else than the message (here: for every message of
  pairwise different bytes).
\<close>

theorem sendInLoop_partial_write:
  assumes "conn_live c" "conn_state c = kConnected" "readable (outputBuffer c) = []" "write_ok W"
    and "W (writes c) d = Wrote k" "0 < k" "k < length d" "distinct d"
    and "has_room (outputBuffer c) (length d)"
  shows "\<exists>c'. send_string W True d c = Some c' \<and>
    written c' @ readable (outputBuffer c') = written c @ take k d @ take (length d - k) d \<and>
    written c' @ readable (outputBuffer c') \<noteq> written c @ d"
proof -
  have idle: "\<not> isWriting (conn_channel c) \<and> readableBytes (outputBuffer c) = 0"
    using liveD(4,5) [OF assms(1)] assms(3) by simp
  define c1 where "c1 = emit (EWrote (take k d)) (c\<lparr>writes := writes c + 1\<rparr>)"
  have c1: "conn_live c1" "outputBuffer c1 = outputBuffer c" "written c1 = written c @ take k d"
    using assms(1) by (simp_all add: c1_def emit_live)
  have "send_string W True d c = send_rest d (int (length d) - int k) False c1"
    using assms(2,5,7) idle by (simp add: send_string_def sendInLoop_def Let_def c1_def)
  with send_rest_live [OF c1(1), of d k] assms(7,9) c1 obtain c' where
    c': "send_string W True d c = Some c'" "written c' = written c @ take k d"
    "readable (outputBuffer c') = take (length d - k) d" using assms(3) by auto
  have "take (length d - k) d \<noteq> drop k d"
  proof
    assume "take (length d - k) d = drop k d"
    then have "take (length d - k) d ! 0 = drop k d ! 0" by simp
    then have "d ! 0 = d ! k" using assms(6,7) by simp
    moreover have "d ! 0 \<noteq> d ! k" using nth_eq_iff_index_eq [OF assms(8), of 0 k] assms(6,7) by linarith
    ultimately show False by simp
  qed
  then have "take k d @ take (length d - k) d \<noteq> d" by (metis append_take_drop_id same_append_eq)
  with c' show ?thesis by simp
qed

theorem sendInLoop_partial_write_witness:
  "\<exists>c'. send_string (\<lambda>n d. Wrote (min 1 (length d))) True ''abc'' (demo_conn empty_buffer) = Some c' \<and>
     written c' @ readable (outputBuffer c') = ''aab''"
proof -
  have w: "write_ok (\<lambda>n d. Wrote (min 1 (length d)))" by (simp add: write_ok_def)
  have r: "has_room (outputBuffer (demo_conn empty_buffer)) (length ''abc'')"
    by (simp add: has_room_def empty_buffer_def max_size_def)
  from sendInLoop_partial_write [OF demo_conn_live [OF empty_buffer_wf] _ _ w _ _ _ _ r, of 1] show ?thesis
    by auto
qed

text \<open>
  C32: a graceful shutdown. When \<open>shutdown\<close> is called while output is waiting, the write side
  stays open; the writable events that follow write exactly the waiting bytes, in order, in
  whatever portions the kernel takes them, and only behind the last of them the write side is shut
  down.
\<close>

theorem conn_graceful_shutdown:
  assumes "conn_live c" "conn_state c = kConnected" "readable (outputBuffer c) = d" "d \<noteq> []"
    and "\<forall>i < length ns. \<forall>x. W (writes c + i) x = Wrote (ns ! i)" "0 \<notin> set ns" "sum_list ns = length d"
  shows "\<exists>c1 c' ps ev. conn_shutdown True c = Some c1 \<and> effects c1 = effects c \<and>
    exec_ios W (replicate (length ns) Writable) c1 = Some c' \<and> concat ps = d \<and>
    effects c' = effects c @ map EWrote ps @ [EUpdate ev] @
      (if hasWriteComplete c then [EQueue WriteComplete] else []) @ [EShutdownWrite]"
proof -
  let ?c = "c\<lparr>conn_state := kDisconnecting\<rparr>"
  have "conn_shutdown True c = Some ?c"
    using assms(2-4) liveD(4) [OF assms(1)] by (simp add: conn_shutdown_def shutdownInLoop_def)
  moreover have live: "conn_live ?c" using assms(1) by (simp add: conn_live_def)
  moreover have "ns \<noteq> []" using assms(4,7) by auto
  from drain_output [OF live, of d ns W] this assms(3,5-7) have
    "\<exists>c' ps ev. exec_ios W (replicate (length ns) Writable) ?c = Some c' \<and> concat ps = d \<and>
      effects c' = effects c @ map EWrote ps @ [EUpdate ev] @
      (if hasWriteComplete c then [EQueue WriteComplete] else []) @ [EShutdownWrite]" by simp
  ultimately show ?thesis by auto
qed

theorem conn_graceful_shutdown_witness:
  "\<exists>out c1 c' ps ev. Buffer_append ''abc'' empty_buffer = Some out \<and>
     conn_shutdown True (demo_conn out) = Some c1 \<and>
     exec_ios (\<lambda>n d. Wrote ([2, 1] ! n)) [Writable, Writable] c1 = Some c' \<and> concat ps = ''abc'' \<and>
     effects c' = map EWrote ps @ [EUpdate ev, EShutdownWrite]"
proof -
  have "has_room empty_buffer (length ''abc'')" by (simp add: has_room_def empty_buffer_def max_size_def)
  then obtain out where out: "Buffer_append ''abc'' empty_buffer = Some out" "buffer_wf out" "readable out = ''abc''"
    using buf.put_ok [OF empty_buffer_wf] by fastforce
  have W: "\<forall>i < length [2, 1 :: nat]. \<forall>x :: bytes. Wrote ([2, 1] ! (writes (demo_conn out) + i)) = Wrote ([2, 1] ! i)"
    by simp
  from conn_graceful_shutdown [where c = "demo_conn out" and W = "\<lambda>n d. Wrote ([2, 1] ! n)" and d = "''abc''",
      OF demo_conn_live [OF out(2)] _ _ _ W] out
  show ?thesis by (auto simp: numeral_2_eq_2 simp del: exec_ios.simps(2))
qed

text \<open>
  The end of a connection. On a live connection whose user code does not react, the event
  loop reporting the peer's close, as a readable event with nothing to read or as a hangup, closes
  the connection once: the channel asks for no more events, then the connection callback
  sees it down, then the close callback runs. Destroying it afterwards passes the assertion of
  \<open>Channel::remove\<close> and removes the channel, with no further callback.
\<close>

theorem conn_peer_close:
  assumes "conn_live c" "silent u" "closeCallback (conn_channel c) = Some HandleClose"
    "readCallback (conn_channel c) = Some HandleRead" "revents = POLLIN \<or> revents = POLLHUP"
  shows "\<exists>c1 c2. conn_event u W (\<lambda>n. Inr []) t revents c = Some c1 \<and> conn_state c1 = kDisconnected \<and>
    effects c1 = effects c @ [EUpdate kNoneEvent, EConnectionCallback False, ECloseCallback] \<and>
    connectionDestroyed u W True c1 = Some c2 \<and> effects c2 = effects c1 @ [ERemove]"
proof -
  let ?on = "upd_channel (\<lambda>ch. ch\<lparr>eventHandling := True\<rparr>)" and ?off = "upd_channel (\<lambda>ch. ch\<lparr>eventHandling := False\<rparr>)"
  define c0 where "c0 = ?on (upd_channel (setRevents revents) c)"
  have c0: "conn_state c0 = conn_state c" "inputBuffer c0 = inputBuffer c" "effects c0 = effects c"
    by (simp_all add: c0_def upd_channel_def)
  have st: "conn_state c = kConnected \<or> conn_state c = kDisconnecting" and wf: "buffer_wf (inputBuffer c)"
    using assms(1) by (auto simp: conn_live_def)
  have ev: "conn_event u W (\<lambda>n. Inr []) t revents c =
      run_all (run_cb u W (\<lambda>n. Inr []) t) (dispatch (conn_channel (upd_channel (setRevents revents) c))) c0 \<bind>
        (\<lambda>s. Some (?off s))"
    unfolding conn_event_def conn.handleEvent_dispatch by (simp add: c0_def)
  have d: "dispatch (conn_channel (upd_channel (setRevents revents) c)) =
      (if revents = POLLIN then [HandleRead] else [HandleClose])"
    using assms(3-5) by (auto simp: dispatch_def upd_channel_def setRevents_def opt_list_def poll_flags)
  have "\<exists>c'. run_all (run_cb u W (\<lambda>n. Inr []) t) (if revents = POLLIN then [HandleRead] else [HandleClose]) c0 = Some c' \<and>
      conn_state c' = kDisconnected \<and> isNoneEvent (conn_channel c') \<and>
      effects c' = effects c @ [EUpdate kNoneEvent, EConnectionCallback False, ECloseCallback]"
  proof (cases "revents = POLLIN")
    case True
    obtain b' where b': "readFd (\<lambda>n. Inr []) 0 (inputBuffer c0) = Some (0, 0, b')"
      using readFd_eof [OF wf] c0(2) by auto
    obtain c' where "handleClose u W True (c0\<lparr>inputBuffer := b'\<rparr>) = Some c'" "conn_state c' = kDisconnected"
      "isNoneEvent (conn_channel c')" "effects c' = effects c @ [EUpdate kNoneEvent, EConnectionCallback False, ECloseCallback]"
      using handleClose_silent [OF assms(2), of "c0\<lparr>inputBuffer := b'\<rparr>"] st c0 by auto
    with True b' show ?thesis by (simp add: run_cb_def conn_handleRead_def)
  next
    case False
    with handleClose_silent [OF assms(2), of c0 W] st c0 show ?thesis by (auto simp: run_cb_def)
  qed
  then obtain c' where c': "run_all (run_cb u W (\<lambda>n. Inr []) t) (dispatch (conn_channel (upd_channel (setRevents revents) c))) c0 = Some c'"
      "conn_state c' = kDisconnected" "isNoneEvent (conn_channel c')"
      "effects c' = effects c @ [EUpdate kNoneEvent, EConnectionCallback False, ECloseCallback]" unfolding d by blast
  have "conn_event u W (\<lambda>n. Inr []) t revents c = Some (?off c')" unfolding ev c'(1) by simp
  moreover have "connectionDestroyed u W True (?off c') =
      Some (emit ERemove (upd_channel (\<lambda>ch. ch\<lparr>addedToLoop := False\<rparr>) (?off c')))"
    using c'(2,3) by (simp add: connectionDestroyed_def upd_channel_def isNoneEvent_def)
  ultimately show ?thesis using c'(2,4) by (simp add: upd_channel_def)
qed

theorem conn_peer_close_witness:
  "\<exists>c1 c2. conn_event demo_user (\<lambda>n d. Wrote (length d)) (\<lambda>n. Inr []) 9 POLLIN (demo_conn empty_buffer) = Some c1 \<and>
     conn_state c1 = kDisconnected \<and>
     effects c1 = [EUpdate kNoneEvent, EConnectionCallback False, ECloseCallback] \<and>
     connectionDestroyed demo_user (\<lambda>n d. Wrote (length d)) True c1 = Some c2 \<and>
     effects c2 = effects c1 @ [ERemove]"
proof -
  have s: "silent demo_user" by (simp add: silent_def demo_user_def)
  have cb: "closeCallback (conn_channel (demo_conn empty_buffer)) = Some HandleClose"
    "readCallback (conn_channel (demo_conn empty_buffer)) = Some HandleRead"
    by (simp_all add: demo_conn_def setErrorCallback_def setCloseCallback_def setWriteCallback_def setReadCallback_def)
  from conn_peer_close [OF demo_conn_live [OF empty_buffer_wf] s cb, of POLLIN] show ?thesis by simp
qed

text \<open>
  \<open>forceClose\<close> does not close the connection. It queues \<open>shutdownInLoop\<close>, so after the
  loop has run the functor the connection is still disconnecting, its channel still asks for
  read events, and neither the connection callback nor the close callback has been called.
\<close>

theorem forceClose_leaves_open:
  assumes "conn_live c" "readable (outputBuffer c) = []"
  shows "\<exists>c'. effects (forceClose c) = effects c @ [EQueue ShutdownInLoop] \<and>
    run_functor u W ShutdownInLoop (forceClose c) = Some c' \<and> conn_state c' = kDisconnecting \<and>
    isReading (conn_channel c') \<and> effects c' = effects c @ [EQueue ShutdownInLoop, EShutdownWrite]"
  using liveD(3,4) [OF assms(1)] assms
  by (auto simp: forceClose_def run_functor_def shutdownInLoop_def conn_live_def Let_def)

theorem forceClose_leaves_open_witness:
  "\<exists>c'. run_functor demo_user (\<lambda>n d. Wrote (length d)) ShutdownInLoop (forceClose (demo_conn empty_buffer)) = Some c' \<and>
     conn_state c' = kDisconnecting \<and> isReading (conn_channel c') \<and>
     effects c' = [EQueue ShutdownInLoop, EShutdownWrite]"
  using forceClose_leaves_open [OF demo_conn_live [OF empty_buffer_wf]] by fastforce

text \<open>
  \<open>shutdown\<close> called on a connection that is already down, as user code may do in its
  connection callback, sets the state back to disconnecting. A \<open>sendInLoop\<close> that another
  thread had queued, which a disconnected connection ignores, then is carried out: if the
  socket would block, it enables writing on the channel, and \<open>connectionDestroyed\<close> fails the
  assertion of \<open>Channel::remove\<close>.
\<close>

theorem shutdown_after_close:
  assumes "conn_state c = kDisconnected" "isNoneEvent (conn_channel c)" "buffer_wf (outputBuffer c)"
    and "readable (outputBuffer c) = []" "d \<noteq> []" "has_room (outputBuffer c) (length d)"
    and "W (writes c) d = WriteError EWOULDBLOCK"
  shows "run_functor u W (SendInLoop d) c = Some c \<and>
    (\<exists>c1 c2. conn_shutdown True c = Some c1 \<and> run_functor u W (SendInLoop d) c1 = Some c2 \<and>
      isWriting (conn_channel c2) \<and> connectionDestroyed u W True c2 = None)"
proof -
  have ev: "ch_events (conn_channel c) = 0" using assms(2) by (simp add: isNoneEvent_def kNoneEvent_def)
  obtain b where b: "Buffer_append d (outputBuffer c) = Some b" using buf.put_ok [OF assms(3,6)] by blast
  have rb: "readableBytes (outputBuffer c) = 0" using assms(3,4) by (simp add: readableBytes_length)
  let ?c1 = "c\<lparr>conn_state := kDisconnecting\<rparr>"
  have "\<exists>c2. run_functor u W (SendInLoop d) ?c1 = Some c2 \<and> conn_state c2 = kDisconnecting \<and>
      ch_events (conn_channel c2) = kWriteEvent"
    using b rb ev assms(5,7)
    by (auto simp: run_functor_def sendInLoop_def send_rest_def isWriting_def Let_def EWOULDBLOCK_def)
  moreover have "kWriteEvent AND kWriteEvent \<noteq> 0" "kWriteEvent \<noteq> kNoneEvent"
    by (simp_all add: kWriteEvent_def kNoneEvent_def poll_flags)
  ultimately show ?thesis
    using assms(1) by (auto simp: run_functor_def sendInLoop_def conn_shutdown_def connectionDestroyed_def
        isWriting_def isNoneEvent_def)
qed

theorem shutdown_after_close_witness:
  "let c = (demo_conn empty_buffer)\<lparr>conn_state := kDisconnected, conn_channel := Channel_ctor 5\<rparr>;
       W = (\<lambda>n d. WriteError EWOULDBLOCK) in
   run_functor demo_user W (SendInLoop ''x'') c = Some c \<and>
   (\<exists>c1 c2. conn_shutdown True c = Some c1 \<and> run_functor demo_user W (SendInLoop ''x'') c1 = Some c2 \<and>
      isWriting (conn_channel c2) \<and> connectionDestroyed demo_user W True c2 = None)"
proof -
  have "has_room empty_buffer (length ''x'')" by (simp add: has_room_def empty_buffer_def max_size_def)
  then show ?thesis
    unfolding Let_def
    by (intro shutdown_after_close) (simp_all add: isNoneEvent_def kNoneEvent_def Channel_ctor_def)
qed

end
