(* ===== verification/ConnOutput.thy ===== *)
theory ConnOutput
  imports TcpConnection
begin

text \<open>
  What a server relies on when it sends on its connections: \<open>send\<close>, \<open>shutdown\<close> and
  \<open>handleWrite\<close> of \<open>TcpConnection.cc\<close> on a live connection succeed, keep the input, and add exactly the messages sent to the
  output, written and waiting together. The HTTP server and the chat server rest on these lemmas.
\<close>

subsection \<open>Calls that are carried out\<close>

text \<open>A live connection on which, once it is shutting down and nothing waits, the write side has been shut down.\<close>

definition conn_good :: "tcp_conn \<Rightarrow> bool" where
  "conn_good c \<longleftrightarrow> conn_live c \<and>
     (conn_state c = kDisconnecting \<longrightarrow> readable (outputBuffer c) = [] \<longrightarrow> EShutdownWrite \<in> set (effects c))"

text \<open>A kernel that takes a write as a whole or not at all.\<close>

definition whole_writes :: "sys_write \<Rightarrow> bool" where
  "whole_writes W \<longleftrightarrow> (\<forall>n d. W n d = Wrote (length d) \<or> (\<exists>e. W n d = WriteError e))"

lemma send_rest_input: "send_rest d r e c = Some c' \<Longrightarrow> inputBuffer c' = inputBuffer c"
  by (auto simp: send_rest_def Let_def bind_eq_Some_conv split: if_splits)

lemma sendInLoop_input: "sendInLoop W l d c = Some c' \<Longrightarrow> inputBuffer c' = inputBuffer c"
  by (auto simp: sendInLoop_def Let_def bind_eq_Some_conv split: if_splits write_result.splits dest!: send_rest_input)

lemma shutdownInLoop_input: "shutdownInLoop l c = Some c' \<Longrightarrow> inputBuffer c' = inputBuffer c"
  by (auto simp: shutdownInLoop_def bind_eq_Some_conv)

lemma handleWrite_input: "handleWrite W l c = Some c' \<Longrightarrow> inputBuffer c' = inputBuffer c"
  by (auto simp: handleWrite_def Let_def bind_eq_Some_conv split: if_splits write_result.splits dest!: shutdownInLoop_input)

text \<open>The output of a connection, past and waiting, apart from what happens to its input.\<close>

definition output_adds :: "sys_write \<Rightarrow> bytes list \<Rightarrow> tcp_conn \<Rightarrow> tcp_conn \<Rightarrow> bool" where
  "output_adds W ds c c' \<longleftrightarrow> (\<exists>is. messages is = ds \<and> out_state c' = out_run W is (out_state c))"

lemma output_adds_refl: "out_state c' = out_state c \<Longrightarrow> output_adds W [] c c'"
  unfolding output_adds_def by (intro exI [of _ "[]"]) simp

lemma output_adds_io: "out_state c' = out_step W i (out_state c) \<Longrightarrow> output_adds W (messages [i]) c c'"
  unfolding output_adds_def by (intro exI [of _ "[i]"]) simp

lemma output_adds_trans:
  assumes "output_adds W ds c c1" "output_adds W es c1 c2"
  shows "output_adds W (ds @ es) c c2"
proof -
  obtain "is" js where "messages is = ds" "out_state c1 = out_run W is (out_state c)"
      "messages js = es" "out_state c2 = out_run W js (out_state c1)"
    using assms unfolding output_adds_def by blast
  then show ?thesis unfolding output_adds_def by (intro exI [of _ "is @ js"]) simp
qed

text \<open>A message that is offered to a kernel which takes writes as a whole, or that waits, is not changed.\<close>

lemma took_whole:
  assumes "whole_writes W"
  shows "on_wire d (took W d p) = d"
proof (cases p)
  case (fields n sent waiting)
  from assms consider "W n d = Wrote (length d)" | e where "W n d = WriteError e" unfolding whole_writes_def by metis
  then show ?thesis using fields by cases simp_all
qed

lemma direct_whole_writes:
  assumes "whole_writes W"
  shows "map2 on_wire (messages is) (direct W is p) = messages is"
  using took_whole [OF assms] by (induction W "is" p rule: direct.induct) (simp_all del: took.simps out_step.simps)

text \<open>Actions that are carried out, with what they add to the output.\<close>

definition carried :: "sys_write \<Rightarrow> bytes list \<Rightarrow> tcp_conn \<Rightarrow> tcp_conn \<Rightarrow> bool" where
  "carried W ds c c' \<longleftrightarrow> conn_good c' \<and> inputBuffer c' = inputBuffer c \<and> output_adds W ds c c' \<and>
     (\<forall>m. has_room (outputBuffer c) (length (concat ds) + m) \<longrightarrow> has_room (outputBuffer c') m)"

lemma carried_refl: "conn_good c \<Longrightarrow> carried W [] c c"
  by (simp add: carried_def output_adds_refl)

lemma carried_trans: "carried W ds c c1 \<Longrightarrow> carried W es c1 c2 \<Longrightarrow> carried W (ds @ es) c c2"
  by (auto simp: carried_def add.assoc intro: output_adds_trans)

lemma carried_output: "carried W ds (c\<lparr>inputBuffer := b\<rparr>) c' \<Longrightarrow> output_adds W ds c c'"
  by (simp add: carried_def output_adds_def out_state_def written_def)

lemma send_carried:
  assumes "conn_good c" "conn_state c = kConnected" "write_ok W" "has_room (outputBuffer c) (length d)"
  shows "\<exists>c'. exec_api W True (ApiSend d) c = Some c' \<and> conn_state c' = kConnected \<and> carried W [d] c c'"
proof -
  have live: "conn_live c" using assms(1) by (simp add: conn_good_def)
  from sendInLoop_live [OF live assms(3,4)] obtain c' where c': "sendInLoop W True d c = Some c'" "conn_live c'"
      "conn_state c' = conn_state c" "out_state c' = out_step W (Snd d) (out_state c)"
      "\<forall>m. has_room (outputBuffer c) (length d + m) \<longrightarrow> has_room (outputBuffer c') m" by blast
  have "carried W [d] c c'"
    using c' assms(2) sendInLoop_input [OF c'(1)] output_adds_io [OF c'(4)] by (simp add: carried_def conn_good_def)
  then show ?thesis using c'(1,3) assms(2) by (simp add: exec_api_def send_string_def)
qed

lemma shutdown_carried:
  assumes "conn_good c"
  shows "\<exists>c'. exec_api W True ApiShutdown c = Some c' \<and> conn_state c' = kDisconnecting \<and> carried W [] c c'"
proof -
  have live: "conn_live c" using assms by (simp add: conn_good_def)
  have st: "conn_state c = kConnected \<or> conn_state c = kDisconnecting" using live by (simp add: conn_live_def)
  define c1 where "c1 = c\<lparr>conn_state := kDisconnecting\<rparr>"
  have c1: "conn_live c1" using live by (simp add: c1_def conn_live_def)
  define c2 where "c2 = (if conn_state c = kConnected \<and> \<not> isWriting (conn_channel c1) then emit EShutdownWrite c1 else c1)"
  have e: "exec_api W True ApiShutdown c = Some c2"
    by (simp add: exec_api_def conn_shutdown_def shutdownInLoop_def c1_def c2_def Let_def)
  have c2: "conn_live c2" "conn_state c2 = kDisconnecting" "inputBuffer c2 = inputBuffer c" "outputBuffer c2 = outputBuffer c"
    using c1 by (simp_all add: c2_def emit_live) (simp_all add: c1_def)
  have "out_state c2 = out_state c" by (simp add: out_state_def c2_def c1_def)
  moreover have "EShutdownWrite \<in> set (effects c2)" if "readable (outputBuffer c2) = []"
    using that st assms liveD(4) [OF c1] c2(4) by (auto simp: c2_def conn_good_def c1_def)
  ultimately show ?thesis using e c2 output_adds_refl by (auto simp: carried_def conn_good_def)
qed

lemma handleWrite_carried:
  assumes "conn_good c" "write_ok W"
  shows "\<exists>c'. handleWrite W True c = Some c' \<and> conn_state c' = conn_state c \<and> carried W [] c c'"
proof -
  have live: "conn_live c" using assms(1) by (simp add: conn_good_def)
  from handleWrite_live [OF live assms(2)] obtain c' where c': "handleWrite W True c = Some c'" "conn_live c'"
      "conn_state c' = conn_state c" "out_state c' = out_step W Writable (out_state c)"
      "\<forall>m. has_room (outputBuffer c) m \<longrightarrow> has_room (outputBuffer c') m" by blast
  have "EShutdownWrite \<in> set (effects c')" if s: "conn_state c' = kDisconnecting" "readable (outputBuffer c') = []"
  proof (cases "readable (outputBuffer c) = []")
    case True
    then have "c' = c" using c'(1) liveD(4) [OF live] by (simp add: handleWrite_def)
    then show ?thesis using assms(1) s by (simp add: conn_good_def)
  next
    case out: False
    show ?thesis
    proof (cases "W (writes c) (readable (outputBuffer c))")
      case (WriteError e)
      then have "c' = c\<lparr>writes := writes c + 1\<rparr>" using handleWrite_none [where W = W, OF live _ WriteError] c'(1) liveD(4) [OF live] out by simp
      then show ?thesis using s(2) out by simp
    next
      case (Wrote n)
      show ?thesis
      proof (cases "n < length (readable (outputBuffer c))")
        case True
        then show ?thesis using handleWrite_part [where W = W, OF live out Wrote] c'(1) s(2) by auto
      next
        case False
        then have "n = length (readable (outputBuffer c))" using write_okD(1) [OF assms(2) Wrote] by simp
        then show ?thesis using handleWrite_all [OF live out, of W] Wrote c'(1,3) s(1) by auto
      qed
    qed
  qed
  then have "carried W [] c c'"
    using c' handleWrite_input [OF c'(1)] output_adds_io [OF c'(4)] by (simp add: carried_def conn_good_def)
  then show ?thesis using c'(1,3) by blast
qed

subsection \<open>A new connection\<close>

lemma established_fresh:
  assumes "\<And>c. onConnection u c = []"
  shows "\<exists>c0 c. TcpConnection_ctor connName sockfd = Some c0 \<and> connectionEstablished u W True c0 = Some c \<and> conn_good c \<and>
     conn_state c = kConnected \<and> inputBuffer c = empty_buffer \<and> outputBuffer c = empty_buffer \<and> written c = [] \<and> writes c = 0"
  using assms
  by (simp add: TcpConnection_ctor_def Buffer_ctor_eq connectionEstablished_def
      connectionCallback_def connected_def conn_good_def conn_live_def
      isReading_def isWriting_def Channel_ctor_def Channel_tie_def setErrorCallback_def setCloseCallback_def
      setWriteCallback_def setReadCallback_def kReadEvent_def kWriteEvent_def kNoneEvent_def poll_flags empty_buffer_wf
      readable_empty written_def emit_def upd_channel_def set_interest_def)

subsection \<open>The whole output of a connection\<close>

text \<open>
  What a connection has written and has waiting is what the specification of the output makes of the messages \<open>ds\<close>,
  with the socket becoming writable at some points in between.
\<close>

definition output_is :: "sys_write \<Rightarrow> bytes list \<Rightarrow> tcp_conn \<Rightarrow> bool" where
  "output_is W ds c \<longleftrightarrow> (\<exists>is. messages is = ds \<and> out_state c = out_run W is (0, [], []))"

lemma output_is_empty: "written c = [] \<Longrightarrow> outputBuffer c = empty_buffer \<Longrightarrow> writes c = 0 \<Longrightarrow> output_is W [] c"
  unfolding output_is_def by (intro exI [of _ "[]"]) (simp add: readable_empty out_state_def)

lemma output_is_adds:
  assumes "output_is W ds c" "output_adds W es c c'"
  shows "output_is W (ds @ es) c'"
proof -
  obtain "is" js where "messages is = ds" "out_state c = out_run W is (0, [], [])"
      "messages js = es" "out_state c' = out_run W js (out_state c)"
    using assms unfolding output_adds_def output_is_def by blast
  then show ?thesis unfolding output_is_def by (intro exI [of _ "is @ js"]) simp
qed

lemma output_is_cong: "output_is W ds c \<Longrightarrow> out_state c' = out_state c \<Longrightarrow> output_is W ds c'"
  by (simp add: output_is_def)

lemma output_is_stream:
  assumes "output_is W ds c"
  shows "\<exists>is. messages is = ds \<and> written c @ readable (outputBuffer c) = concat (map2 on_wire ds (direct W is (0, [], [])))"
proof -
  obtain "is" where i: "messages is = ds" "(writes c, written c, readable (outputBuffer c)) = out_run W is (0, [], [])"
    using assms by (auto simp: output_is_def out_state_def)
  then show ?thesis using out_run_stream [OF i(2) [symmetric]] by auto
qed

text \<open>
  The direct writes of the messages \<open>ds\<close> on a new connection are never cut short, whenever the socket becomes writable in
  between: each takes its whole message or nothing. Writes of waiting output may take any part of it.
\<close>

definition direct_whole :: "sys_write \<Rightarrow> bytes list \<Rightarrow> bool" where
  "direct_whole W ds \<longleftrightarrow>
     (\<forall>is. messages is = ds \<longrightarrow> list_all2 (\<lambda>d k. k = 0 \<or> k = length d) ds (direct W is (0, [], [])))"

lemma output_is_direct_whole:
  assumes "output_is W ds c" "direct_whole W ds"
  shows "written c @ readable (outputBuffer c) = concat ds"
proof -
  obtain ks where ks: "list_all2 (\<lambda>d k. k = 0 \<or> k = length d) ds ks"
      "written c @ readable (outputBuffer c) = concat (map2 on_wire ds ks)"
    using output_is_stream [OF assms(1)] assms(2) unfolding direct_whole_def by blast
  from ks(1) have "map2 on_wire ds ks = ds" by (induction rule: list_all2_induct) auto
  with ks(2) show ?thesis by simp
qed

lemma direct_whole_prefix:
  assumes "direct_whole W (ds @ es)"
  shows "direct_whole W ds"
  unfolding direct_whole_def
proof (intro allI impI)
  fix "is" assume "messages is = ds"
  moreover have "messages (map Snd es) = es" by (induction es) simp_all
  moreover have "direct W (is @ js) p = direct W is p @ direct W js (out_run W is p)" for js p
    by (induction W "is" p rule: direct.induct) simp_all
  ultimately show "list_all2 (\<lambda>d k. k = 0 \<or> k = length d) ds (direct W is (0, [], []))"
    using assms [unfolded direct_whole_def, rule_format, of "is @ map Snd es"] by (auto simp: list_all2_append)
qed

lemma conn_good_input: "conn_good c \<Longrightarrow> buffer_wf b \<Longrightarrow> conn_good (c\<lparr>inputBuffer := b\<rparr>)"
  by (simp add: conn_good_def conn_live_def)

lemma conn_good_emit: "conn_good c \<Longrightarrow> conn_good (emit e c)"
  by (auto simp: conn_good_def emit_live)

lemma conn_goodD:
  "conn_good c \<Longrightarrow> buffer_wf (inputBuffer c)" "conn_good c \<Longrightarrow> buffer_wf (outputBuffer c)"
  "conn_good c \<Longrightarrow> isReading (conn_channel c)" "conn_good c \<Longrightarrow> conn_state c = kConnected \<or> conn_state c = kDisconnecting"
  by (auto simp: conn_good_def conn_live_def)

lemma readFd_good:
  assumes "conn_good c" "has_room (inputBuffer c) (length d + n)"
  shows "\<exists>b. readFd (\<lambda>n. Inr d) 0 (inputBuffer c) = Some (int (length d), 0, b) \<and> buffer_wf b \<and>
    readable b = readable (inputBuffer c) @ d \<and> has_room b n"
proof -
  have "has_room (inputBuffer c) (length d)" using assms(2) by (simp add: has_room_def)
  from readFd_ok [OF conn_goodD(1) [OF assms(1)] _ this, of "\<lambda>n. Inr d" 0] obtain b where
    "readFd (\<lambda>n. Inr d) 0 (inputBuffer c) = Some (int (length d), 0, b)" "buffer_wf b"
    "readable b = readable (inputBuffer c) @ d" "writerIndex b \<le> writerIndex (inputBuffer c) + length d" by auto
  then show ?thesis using assms(2) by (auto simp: has_room_def)
qed

end
