(* ===== verification/ChatServer.thy ===== *)
theory ChatServer
  imports Codec ConnOutput
begin

text \<open>
  \<open>examples/chat/chat_server.cc\<close>: the chat server on its connections. The constructor registers \<open>onConnection\<close>
  and, as message callback, \<open>onMessage\<close> of the codec, which calls \<open>onStringMessage\<close>. The server runs in one
  loop, so that the handlers of its connections do not overlap. A connection is its number in the order of
  acceptance; \<open>connections_\<close>, a \<open>std::set\<close> ordered by pointer, is a sorted list. \<open>W c\<close> is the outcome of the kernel's
  writes on connection \<open>c\<close>.
\<close>

subsection \<open>The server\<close>

type_synonym chat_connections = "nat list"

record chat_server =
  cs_conns :: "tcp_conn list"
  cs_connections :: chat_connections

definition chat_onConnection :: "nat \<Rightarrow> bool \<Rightarrow> chat_connections \<Rightarrow> chat_connections" where
  "chat_onConnection conn up connections =
     (if up then (if conn \<in> set connections then connections else insort conn connections)
      else removeAll conn connections)"

text \<open>\<open>send\<close> of the codec, with the call of the connection's \<open>send\<close> that ends it.\<close>

definition codec_send_on :: "sys_write \<Rightarrow> bool \<Rightarrow> bytes \<Rightarrow> tcp_conn \<Rightarrow> tcp_conn option" where
  "codec_send_on W inLoop message conn = do {
     buf \<leftarrow> codec_send message;
     (buf, conn) \<leftarrow> send_buffer W inLoop buf conn;
     Some conn }"

primrec chat_sendAll :: "(nat \<Rightarrow> sys_write) \<Rightarrow> bytes \<Rightarrow> chat_connections \<Rightarrow> tcp_conn list \<Rightarrow> tcp_conn list option" where
  "chat_sendAll W message [] conns = Some conns"
| "chat_sendAll W message (c # cs) conns = do {
     conn \<leftarrow> codec_send_on (W c) True message (conns ! c);
     chat_sendAll W message cs (conns[c := conn]) }"

definition chat_onStringMessage :: "(nat \<Rightarrow> sys_write) \<Rightarrow> bytes \<Rightarrow> chat_server \<Rightarrow> chat_server option" where
  "chat_onStringMessage W message s = do {
     conns \<leftarrow> chat_sendAll W message (cs_connections s) (cs_conns s);
     Some (s\<lparr>cs_conns := conns\<rparr>) }"

text \<open>The callbacks make no call of the connection by themselves.\<close>

definition chat_user :: user_code where
  "chat_user = \<lparr>onConnection = (\<lambda>c. []), onMessage = (\<lambda>t c. []), onWriteComplete = (\<lambda>c. []), onHighWaterMark = (\<lambda>n c. [])\<rparr>"

text \<open>\<open>TcpServer::newConnection\<close>, in the loop of the server.\<close>

definition chat_newConnection :: "(nat \<Rightarrow> sys_write) \<Rightarrow> string \<Rightarrow> fd \<Rightarrow> chat_server \<Rightarrow> chat_server option" where
  "chat_newConnection W connName sockfd s = do {
     let c = length (cs_conns s);
     conn \<leftarrow> TcpConnection_ctor connName sockfd;
     conn \<leftarrow> connectionEstablished chat_user (W c) True conn;
     Some (s\<lparr>cs_conns := cs_conns s @ [conn], cs_connections := chat_onConnection c (connected conn) (cs_connections s)\<rparr>) }"

text \<open>
  \<open>TcpConnection::handleRead\<close> with the codec as message callback. The codec works on the input buffer of connection
  \<open>c\<close> while \<open>onStringMessage\<close> sends on all connections, \<open>c\<close> among them.
\<close>

definition chat_onMessage :: "(nat \<Rightarrow> sys_write) \<Rightarrow> nat \<Rightarrow> chat_server \<Rightarrow> chat_server option" where
  "chat_onMessage W c s = do {
     (b, s, bad) \<leftarrow> codec_loop (chat_onStringMessage W) (inputBuffer (cs_conns s ! c)) s;
     let conn = (cs_conns s ! c)\<lparr>inputBuffer := b\<rparr>;
     conn \<leftarrow> (if bad then conn_shutdown True conn else Some conn);
     Some (s\<lparr>cs_conns := (cs_conns s)[c := conn]\<rparr>) }"

definition chat_handleRead :: "(nat \<Rightarrow> sys_write) \<Rightarrow> (size_t \<Rightarrow> int + bytes) \<Rightarrow> nat \<Rightarrow> chat_server \<Rightarrow> chat_server option" where
  "chat_handleRead W readv c s = do {
     (n, savedErrno, b) \<leftarrow> readFd readv 0 (inputBuffer (cs_conns s ! c));
     let conn = (cs_conns s ! c)\<lparr>inputBuffer := b\<rparr>;
     if n > 0 then chat_onMessage W c (s\<lparr>cs_conns := (cs_conns s)[c := emit EMessageCallback conn]\<rparr>)
     else if n = 0 then do {
       conn \<leftarrow> handleClose chat_user (W c) True conn;
       Some (s\<lparr>cs_conns := (cs_conns s)[c := conn], cs_connections := chat_onConnection c (connected conn) (cs_connections s)\<rparr>) }
     else do {
       conn \<leftarrow> conn_handleError conn;
       Some (s\<lparr>cs_conns := (cs_conns s)[c := conn]\<rparr>) } }"

definition chat_handleWrite :: "(nat \<Rightarrow> sys_write) \<Rightarrow> nat \<Rightarrow> chat_server \<Rightarrow> chat_server option" where
  "chat_handleWrite W c s = do {
     conn \<leftarrow> handleWrite (W c) True (cs_conns s ! c);
     Some (s\<lparr>cs_conns := (cs_conns s)[c := conn]\<rparr>) }"

text \<open>
  What can happen to the server: a client joins; bytes of a client arrive, and none when it has closed its end; a
  socket becomes writable. The poller reports events only for channels that have asked for them.
\<close>

datatype chat_event = Joins string fd | Reads nat bytes | Writable nat

definition chat_start :: chat_server where
  "chat_start = \<lparr>cs_conns = [], cs_connections = []\<rparr>"

fun chat_step :: "(nat \<Rightarrow> sys_write) \<Rightarrow> chat_event \<Rightarrow> chat_server \<Rightarrow> chat_server option" where
  "chat_step W (Joins connName sockfd) s = chat_newConnection W connName sockfd s"
| "chat_step W (Reads c d) s =
     (if c < length (cs_conns s) \<and> isReading (conn_channel (cs_conns s ! c)) then chat_handleRead W (\<lambda>n. Inr d) c s else Some s)"
| "chat_step W (Writable c) s =
     (if c < length (cs_conns s) \<and> isWriting (conn_channel (cs_conns s ! c)) then chat_handleWrite W c s else Some s)"

primrec chat_run :: "(nat \<Rightarrow> sys_write) \<Rightarrow> chat_event list \<Rightarrow> chat_server \<Rightarrow> chat_server option" where
  "chat_run W [] s = Some s"
| "chat_run W (e # es) s = chat_step W e s \<bind> chat_run W es"

subsection \<open>The chat room\<close>

text \<open>
  The specification: members and a log, with neither buffers nor connections. A member has sent some bytes, of
  which a last part is not a complete message yet, and has got some messages. It is in the room until it closes
  its end; it hears what is said until then, or until it sends an invalid length.
\<close>

record room_member =
  rm_sent :: bytes
  rm_unread :: bytes
  rm_got :: "bytes list"
  rm_in :: bool
  rm_hears :: bool

record room =
  rm_members :: "room_member list"
  rm_log :: "(nat \<times> bytes) list"

definition new_member :: room_member where
  "new_member = \<lparr>rm_sent = [], rm_unread = [], rm_got = [], rm_in = True, rm_hears = True\<rparr>"

definition hear :: "bytes list \<Rightarrow> room_member \<Rightarrow> room_member" where
  "hear ms m = (if rm_hears m then m\<lparr>rm_got := rm_got m @ ms\<rparr> else m)"

definition leave :: "room_member \<Rightarrow> room_member" where
  "leave m = m\<lparr>rm_in := False, rm_hears := False\<rparr>"

definition take_in :: "bytes \<Rightarrow> bytes \<Rightarrow> bool \<Rightarrow> room_member \<Rightarrow> room_member" where
  "take_in d rest bad m = m\<lparr>rm_sent := rm_sent m @ d, rm_unread := rest, rm_hears := rm_hears m \<and> \<not> bad\<rparr>"

definition says :: "nat \<Rightarrow> bytes \<Rightarrow> room \<Rightarrow> room" where
  "says c d r =
     (let (ms, rest, bad) = frames (rm_unread (rm_members r ! c) @ d);
          members = map (hear ms) (rm_members r)
      in \<lparr>rm_members = members[c := take_in d rest bad (members ! c)], rm_log = rm_log r @ map (Pair c) ms\<rparr>)"

fun room_step :: "chat_event \<Rightarrow> room \<Rightarrow> room" where
  "room_step (Joins connName sockfd) r = r\<lparr>rm_members := rm_members r @ [new_member]\<rparr>"
| "room_step (Reads c d) r =
     (if c < length (rm_members r) \<and> rm_in (rm_members r ! c) then
        (if d = [] then r\<lparr>rm_members := (rm_members r)[c := leave (rm_members r ! c)]\<rparr> else says c d r)
      else r)"
| "room_step (Writable c) r = r"

definition empty_room :: room where
  "empty_room = \<lparr>rm_members = [], rm_log = []\<rparr>"

primrec room_run :: "chat_event list \<Rightarrow> room \<Rightarrow> room" where
  "room_run [] r = r"
| "room_run (e # es) r = room_run es (room_step e r)"

lemma room_run_append: "room_run (es @ fs) r = room_run fs (room_run es r)"
  by (induction es arbitrary: r) simp_all

subsection \<open>The room keeps one log\<close>

definition said_by :: "nat \<Rightarrow> (nat \<times> bytes) list \<Rightarrow> bytes list" where
  "said_by c log = map snd (filter (\<lambda>(e, m). e = c) log)"

lemma said_by_append: "said_by c (log @ map (Pair e) ms) = said_by c log @ (if c = e then ms else [])"
  by (auto simp: said_by_def comp_def filter_map)

text \<open>
  Of a member: the log has the messages of its bytes, in order, and what it has got is a piece of the log without
  gaps, which reaches to the end of the log while it hears.
\<close>

definition member_ok :: "(nat \<times> bytes) list \<Rightarrow> nat \<Rightarrow> room_member \<Rightarrow> bool" where
  "member_ok log c m \<longleftrightarrow>
     (\<exists>bad. frames (rm_sent m) = (said_by c log, rm_unread m, bad)) \<and>
     (\<exists>pre seg post. log = pre @ seg @ post \<and> rm_got m = map snd seg \<and> (rm_hears m \<longrightarrow> post = [])) \<and>
     (rm_hears m \<longrightarrow> rm_in m)"

definition room_ok :: "room \<Rightarrow> bool" where
  "room_ok r \<longleftrightarrow>
     (\<forall>c < length (rm_members r). member_ok (rm_log r) c (rm_members r ! c)) \<and>
     (\<forall>c \<ge> length (rm_members r). said_by c (rm_log r) = [])"

lemma heard_segment:
  assumes "log = pre @ seg @ post" "rm_got m = map snd seg" "rm_hears m \<longrightarrow> post = []"
  shows "\<exists>pre seg post. log @ map (Pair e) ms = pre @ seg @ post \<and> rm_got (hear ms m) = map snd seg \<and> (rm_hears m \<longrightarrow> post = [])"
proof (cases "rm_hears m")
  case True
  with assms show ?thesis
    by (intro exI [of _ pre] exI [of _ "seg @ map (Pair e) ms"] exI [of _ "[]"]) (simp add: hear_def comp_def)
next
  case False
  with assms show ?thesis
    by (intro exI [of _ pre] exI [of _ seg] exI [of _ "post @ map (Pair e) ms"]) (simp add: hear_def)
qed

lemma hear_simps [simp]:
  "rm_sent (hear ms m) = rm_sent m" "rm_unread (hear ms m) = rm_unread m" "rm_in (hear ms m) = rm_in m"
  "rm_hears (hear ms m) = rm_hears m" "rm_got (hear ms m) = rm_got m @ (if rm_hears m then ms else [])"
  by (simp_all add: hear_def)

lemma take_in_simps [simp]:
  "rm_sent (take_in d rest bad m) = rm_sent m @ d" "rm_unread (take_in d rest bad m) = rest" "rm_in (take_in d rest bad m) = rm_in m"
  "rm_hears (take_in d rest bad m) \<longleftrightarrow> rm_hears m \<and> \<not> bad" "rm_got (take_in d rest bad m) = rm_got m"
  by (simp_all add: take_in_def)

lemma leave_simps [simp]:
  "rm_sent (leave m) = rm_sent m" "rm_unread (leave m) = rm_unread m" "rm_in (leave m) = False"
  "rm_hears (leave m) = False" "rm_got (leave m) = rm_got m"
  by (simp_all add: leave_def)

lemma member_ok_hear:
  assumes "member_ok log c m" "c \<noteq> e"
  shows "member_ok (log @ map (Pair e) ms) c (hear ms m)"
proof -
  from assms(1) obtain pre seg post where "log = pre @ seg @ post" "rm_got m = map snd seg" "rm_hears m \<longrightarrow> post = []"
    by (auto simp: member_ok_def)
  from heard_segment [OF this, of e ms] show ?thesis
    using assms by (simp add: member_ok_def said_by_append)
qed

lemma member_ok_says:
  assumes "member_ok log c m" "frames (rm_unread m @ d) = (ms, rest, bad)"
  shows "member_ok (log @ map (Pair c) ms) c (take_in d rest bad (hear ms m))"
proof -
  from assms(1) obtain pre seg post where "log = pre @ seg @ post" "rm_got m = map snd seg" "rm_hears m \<longrightarrow> post = []"
    by (auto simp: member_ok_def)
  from heard_segment [OF this, of c ms] have "\<exists>pre seg post. log @ map (Pair c) ms = pre @ seg @ post \<and>
      rm_got (take_in d rest bad (hear ms m)) = map snd seg \<and> (rm_hears (take_in d rest bad (hear ms m)) \<longrightarrow> post = [])"
    unfolding take_in_simps hear_simps by blast
  moreover obtain b where "frames (rm_sent m) = (said_by c log, rm_unread m, b)" using assms(1) by (auto simp: member_ok_def)
  from frames_append [OF this assms(2)] have "\<exists>b. frames (rm_sent m @ d) = (said_by c log @ ms, rest, b)" by blast
  ultimately show ?thesis using assms(1) unfolding member_ok_def by (simp add: said_by_append)
qed

lemma room_step_ok: "room_ok r \<Longrightarrow> room_ok (room_step e r)"
proof (cases e)
  case (Joins connName sockfd)
  assume ok: "room_ok r"
  then have "member_ok (rm_log r) (length (rm_members r)) new_member"
    by (auto simp: room_ok_def member_ok_def new_member_def frames.simps [of "[]"] intro!: exI [of _ "rm_log r"])
  with ok Joins show ?thesis by (auto simp: room_ok_def nth_append less_Suc_eq)
next
  case (Reads c d)
  assume ok: "room_ok r"
  obtain ms rest bad where f: "frames (rm_unread (rm_members r ! c) @ d) = (ms, rest, bad)" by (metis prod_cases3)
  have "member_ok (rm_log r) c (leave m)" if "member_ok (rm_log r) c m" for m
    using that by (auto simp: member_ok_def)
  moreover have "room_ok (says c d r)" if "c < length (rm_members r)"
    using ok that f member_ok_says [OF _ f] member_ok_hear
    by (auto simp: room_ok_def says_def nth_list_update said_by_append)
  ultimately show ?thesis using ok Reads by (auto simp: room_ok_def nth_list_update)
qed simp

lemma room_run_ok: "room_ok r \<Longrightarrow> room_ok (room_run es r)"
  by (induction es arbitrary: r) (simp_all add: room_step_ok)

lemma empty_room_ok: "room_ok empty_room"
  by (simp add: room_ok_def empty_room_def said_by_def)

lemma log_small:
  assumes "room_ok r" "(c, m) \<in> set (rm_log r)"
  shows "length m \<le> 65536"
proof -
  have m: "m \<in> set (said_by c (rm_log r))" using assms(2) by (force simp: said_by_def)
  then have "c < length (rm_members r)" using assms(1) unfolding room_ok_def by (metis empty_iff empty_set not_less)
  then obtain rest bad where "frames (rm_sent (rm_members r ! c)) = (said_by c (rm_log r), rest, bad)"
    using assms(1) by (auto simp: room_ok_def member_ok_def)
  from frames_small [OF this] m show ?thesis by (simp add: list_all_iff)
qed

lemma got_small:
  assumes "room_ok r" "c < length (rm_members r)"
  shows "list_all (\<lambda>m. length m \<le> 65536) (rm_got (rm_members r ! c))"
proof -
  obtain pre seg post where "rm_log r = pre @ seg @ post" "rm_got (rm_members r ! c) = map snd seg"
    using assms unfolding room_ok_def member_ok_def by blast
  then show ?thesis using log_small [OF assms(1)] by (fastforce simp: list_all_iff)
qed

text \<open>The messages in a part of a stream are the first messages of the stream.\<close>

lemma frames_part:
  assumes "frames (xs @ ys) = (ms, rest, False)"
  shows "\<exists>ns. ms = fst (frames xs) @ ns \<and> (ys = [] \<longrightarrow> ns = [])" "\<not> snd (snd (frames xs))"
proof -
  obtain ms1 r1 b1 where f1: "frames xs = (ms1, r1, b1)" by (metis prod_cases3)
  obtain ms2 r2 b2 where f2: "frames (r1 @ ys) = (ms2, r2, b2)" by (metis prod_cases3)
  show "\<exists>ns. ms = fst (frames xs) @ ns \<and> (ys = [] \<longrightarrow> ns = [])" using frames_append [OF f1 f2] assms f1 by auto
  show "\<not> snd (snd (frames xs))" using frames_bad_append [of xs ms1 r1 ys] f1 assms by (cases b1) auto
qed

end
