(* ===== verification/ChatService.thy ===== *)
theory ChatService
  imports ChatServer
begin

text \<open>
  The chat server implements the chat room: a simulation between \<open>chat_step\<close>, the handlers of
  \<open>chat_server.cc\<close> and \<open>codec.h\<close> on buffers and connections, and \<open>room_step\<close>.
\<close>

subsection \<open>One message to all connections\<close>

definition heard :: "sys_write \<Rightarrow> bytes list \<Rightarrow> tcp_conn \<Rightarrow> tcp_conn \<Rightarrow> bool" where
  "heard W ms c c' \<longleftrightarrow> conn_state c' = conn_state c \<and> carried W (if conn_state c = kConnected then map wire ms else []) c c'"

lemma heard_trans: "heard W ms c c1 \<Longrightarrow> heard W ns c1 c2 \<Longrightarrow> heard W (ms @ ns) c c2"
  by (auto simp: heard_def dest: carried_trans)

lemma codec_send_on_heard:
  assumes "conn_good c" "write_ok W" "length m \<le> 65536"
    "conn_state c = kConnected \<Longrightarrow> has_room (outputBuffer c) (length (wire m))"
  shows "\<exists>c'. codec_send_on W True m c = Some c' \<and> heard W [m] c c'"
proof -
  obtain b where b: "codec_send m = Some b" "buffer_wf b" "toStringView b = wire m" using codec_send_wire [OF assms(3)] by blast
  then have "mem b (peek b) (readableBytes b) = wire m" by (simp add: toStringView_def)
  then show ?thesis
    using b(1) send_carried [OF assms(1) _ assms(2,4)] carried_refl [OF assms(1)]
    by (cases "conn_state c = kConnected") (auto simp: codec_send_on_def send_buffer_def heard_def exec_api_def send_string_def)
qed

text \<open>The connections of the set have room for \<open>n\<close> more bytes of output, as far as they accept any.\<close>

definition all_good :: "nat \<Rightarrow> chat_connections \<Rightarrow> tcp_conn list \<Rightarrow> bool" where
  "all_good n cs conns \<longleftrightarrow> (\<forall>c \<in> set cs. c < length conns \<and> conn_good (conns ! c) \<and>
     (conn_state (conns ! c) = kConnected \<longrightarrow> has_room (outputBuffer (conns ! c)) n))"

definition all_heard :: "(nat \<Rightarrow> sys_write) \<Rightarrow> bytes list \<Rightarrow> chat_connections \<Rightarrow> tcp_conn list \<Rightarrow> tcp_conn list \<Rightarrow> bool" where
  "all_heard W ms cs conns conns' \<longleftrightarrow> length conns' = length conns \<and>
     (\<forall>c. if c \<in> set cs then heard (W c) ms (conns ! c) (conns' ! c) else conns' ! c = conns ! c)"

lemma all_heard_trans: "all_heard W ms cs a b \<Longrightarrow> all_heard W ns cs b c \<Longrightarrow> all_heard W (ms @ ns) cs a c"
  unfolding all_heard_def by (metis heard_trans)

lemma all_heard_good:
  assumes "all_heard W ms cs a b" "all_good (length (concat (map wire ms)) + n) cs a"
  shows "all_good n cs b"
  unfolding all_good_def
proof (intro ballI conjI impI)
  fix c assume c: "c \<in> set cs"
  then have h: "heard (W c) ms (a ! c) (b ! c)" "length b = length a" using assms(1) by (auto simp: all_heard_def)
  then show "c < length b" "conn_good (b ! c)" using c assms(2) by (auto simp: all_good_def heard_def carried_def)
  assume "conn_state (b ! c) = kConnected"
  with h c assms(2) show "has_room (outputBuffer (b ! c)) n" by (auto simp: all_good_def heard_def carried_def)
qed

lemma chat_sendAll_heard:
  assumes "\<And>c. write_ok (W c)" "length m \<le> 65536"
  shows "distinct cs \<Longrightarrow> all_good (length (wire m)) cs conns \<Longrightarrow>
    \<exists>conns'. chat_sendAll W m cs conns = Some conns' \<and> all_heard W [m] cs conns conns'"
proof (induction cs arbitrary: conns)
  case Nil
  then show ?case by (simp add: all_heard_def)
next
  case (Cons c cs)
  from Cons.prems(2) have "c < length conns" "conn_good (conns ! c)"
    "conn_state (conns ! c) = kConnected \<Longrightarrow> has_room (outputBuffer (conns ! c)) (length (wire m))"
    by (auto simp: all_good_def)
  from codec_send_on_heard [OF this(2) assms this(3)] this(1) obtain c' where
    c': "codec_send_on (W c) True m (conns ! c) = Some c'" "heard (W c) [m] (conns ! c) c'" "c < length conns" by blast
  have "all_good (length (wire m)) cs (conns[c := c'])" using Cons.prems by (auto simp: all_good_def nth_list_update)
  with Cons.IH Cons.prems(1) obtain conns' where
    conns': "chat_sendAll W m cs (conns[c := c']) = Some conns'" "all_heard W [m] cs (conns[c := c']) conns'" by auto
  have "all_heard W [m] (c # cs) conns conns'" unfolding all_heard_def
  proof (intro conjI allI)
    show "length conns' = length conns" using conns'(2) by (simp add: all_heard_def)
    fix d
    have "if d \<in> set cs then heard (W d) [m] (conns[c := c'] ! d) (conns' ! d) else conns' ! d = conns[c := c'] ! d"
      using conns'(2) by (simp add: all_heard_def)
    then show "if d \<in> set (c # cs) then heard (W d) [m] (conns ! d) (conns' ! d) else conns' ! d = conns ! d"
      using c' Cons.prems(1) by (cases "d = c") auto
  qed
  then show ?case using c'(1) conns'(1) by auto
qed

lemma deliver_heard:
  assumes "\<And>c. write_ok (W c)"
  shows "list_all (\<lambda>m. length m \<le> 65536) ms \<Longrightarrow> distinct (cs_connections s) \<Longrightarrow>
    all_good (length (concat (map wire ms)) + n) (cs_connections s) (cs_conns s) \<Longrightarrow>
    \<exists>conns'. deliver (chat_onStringMessage W) ms s = Some (s\<lparr>cs_conns := conns'\<rparr>) \<and>
      all_heard W ms (cs_connections s) (cs_conns s) conns'"
proof (induction ms arbitrary: s)
  case Nil
  then show ?case by (auto simp: all_heard_def all_good_def heard_def carried_refl intro: exI [of _ "cs_conns s"])
next
  case (Cons m ms)
  have "all_good (length (wire m)) (cs_connections s) (cs_conns s)"
    using Cons.prems(3) by (auto simp: all_good_def has_room_def)
  with chat_sendAll_heard [OF assms] Cons.prems(1,2) obtain c1 where
    c1: "chat_sendAll W m (cs_connections s) (cs_conns s) = Some c1" "all_heard W [m] (cs_connections s) (cs_conns s) c1"
    by force
  have "all_good (length (concat (map wire ms)) + n) (cs_connections s) c1"
    using all_heard_good [OF c1(2), of "length (concat (map wire ms)) + n"] Cons.prems(3) by (simp add: add.assoc)
  with Cons.IH [of "s\<lparr>cs_conns := c1\<rparr>"] Cons.prems(1,2) obtain conns' where
    "deliver (chat_onStringMessage W) ms (s\<lparr>cs_conns := c1\<rparr>) = Some (s\<lparr>cs_conns := conns'\<rparr>)"
    "all_heard W ms (cs_connections s) c1 conns'" by auto
  moreover have "chat_onStringMessage W m s = Some (s\<lparr>cs_conns := c1\<rparr>)" using c1(1) by (simp add: chat_onStringMessage_def)
  ultimately show ?case using all_heard_trans [OF c1(2)] by auto
qed

subsection \<open>The simulation\<close>

definition member_rel :: "sys_write \<Rightarrow> tcp_conn \<Rightarrow> room_member \<Rightarrow> bool" where
  "member_rel W c m \<longleftrightarrow> output_is W (map wire (rm_got m)) c \<and> (rm_hears m \<longrightarrow> rm_in m) \<and>
     (if rm_in m then conn_good c \<and> readable (inputBuffer c) = rm_unread m \<and> (conn_state c = kConnected \<longleftrightarrow> rm_hears m) \<and>
        has_room (inputBuffer c) (max_size - 8 - length (rm_sent m)) \<and>
        has_room (outputBuffer c) (max_size - 8 - length (concat (map wire (rm_got m))))
      else conn_state c = kDisconnected \<and> \<not> isReading (conn_channel c) \<and> \<not> isWriting (conn_channel c))"

definition chat_rel :: "(nat \<Rightarrow> sys_write) \<Rightarrow> chat_server \<Rightarrow> room \<Rightarrow> bool" where
  "chat_rel W s r \<longleftrightarrow> length (cs_conns s) = length (rm_members r) \<and> sorted (cs_connections s) \<and> distinct (cs_connections s) \<and>
     set (cs_connections s) = {c. c < length (rm_members r) \<and> rm_in (rm_members r ! c)} \<and>
     (\<forall>c < length (rm_members r). member_rel (W c) (cs_conns s ! c) (rm_members r ! c))"

text \<open>The amounts of data stay below what a buffer can hold.\<close>

definition fits :: "room_member \<Rightarrow> bool" where
  "fits m \<longleftrightarrow> 8 + length (rm_sent m) \<le> max_size \<and> 8 + length (concat (map wire (rm_got m))) \<le> max_size"

definition room_fits :: "room \<Rightarrow> bool" where
  "room_fits r \<longleftrightarrow> list_all fits (rm_members r)"

lemma fits_hear: "fits (hear ms m) \<Longrightarrow> fits m"
  by (auto simp: fits_def split: if_splits)

lemma fits_take_in: "fits (take_in d rest bad m) \<Longrightarrow> fits m"
  by (simp add: fits_def)

lemma says_members:
  assumes "frames (rm_unread (rm_members r ! c) @ d) = (ms, rest, bad)"
  shows "length (rm_members (says c d r)) = length (rm_members r)"
    "i < length (rm_members r) \<Longrightarrow> rm_members (says c d r) ! i =
       (if i = c then take_in d rest bad (hear ms (rm_members r ! i)) else hear ms (rm_members r ! i))"
  using assms by (auto simp: says_def Let_def nth_list_update)

lemma fits_says: "room_fits (says c d r) \<Longrightarrow> room_fits r"
proof -
  assume f: "room_fits (says c d r)"
  obtain ms rest bad where "frames (rm_unread (rm_members r ! c) @ d) = (ms, rest, bad)" by (metis prod_cases3)
  note says = says_members [OF this]
  have "fits (rm_members r ! i)" if "i < length (rm_members r)" for i
  proof -
    have "fits (rm_members (says c d r) ! i)" using f that says(1) by (simp add: room_fits_def list_all_length)
    then show ?thesis using says(2) [OF that] by (auto split: if_splits dest: fits_hear fits_take_in)
  qed
  then show ?thesis by (simp add: room_fits_def list_all_length)
qed

lemma fits_leaves: "room_fits (r\<lparr>rm_members := (rm_members r)[c := leave (rm_members r ! c)]\<rparr>) \<longleftrightarrow> room_fits r"
  by (cases "c < length (rm_members r)") (auto simp: room_fits_def list_all_length nth_list_update fits_def)

lemma room_step_fits: "room_fits (room_step e r) \<Longrightarrow> room_fits r"
proof (cases e)
  case (Reads c d)
  assume "room_fits (room_step e r)"
  then show ?thesis unfolding Reads room_step.simps by (auto simp: fits_leaves split: if_splits dest: fits_says)
qed (simp_all add: room_fits_def)

lemma room_run_fits: "room_fits (room_run es r) \<Longrightarrow> room_fits r"
  by (induction es arbitrary: r) (auto dest: room_step_fits)

lemma onConnection_set:
  assumes "sorted conns" "distinct conns"
  shows "sorted (chat_onConnection c up conns)" "distinct (chat_onConnection c up conns)"
    "set (chat_onConnection c up conns) = (if up then insert c (set conns) else set conns - {c})"
  using assms by (auto simp: chat_onConnection_def set_insort_key distinct_insort sorted_insort removeAll_filter_not_eq
      sorted_wrt_filter)

lemma joins_rel:
  assumes "chat_rel W s r"
  shows "\<exists>s'. chat_step W (Joins connName sockfd) s = Some s' \<and> chat_rel W s' (room_step (Joins connName sockfd) r)"
proof -
  let ?n = "length (cs_conns s)"
  obtain c0 c where c: "TcpConnection_ctor connName sockfd = Some c0" "connectionEstablished chat_user (W ?n) True c0 = Some c"
      "conn_good c" "conn_state c = kConnected" "inputBuffer c = empty_buffer" "outputBuffer c = empty_buffer" "written c = []" "writes c = 0"
    using established_fresh [of chat_user connName sockfd "W ?n"] by (auto simp: chat_user_def)
  have "has_room empty_buffer (max_size - 8)" by (simp add: has_room_def empty_buffer_def max_size_def)
  then have "member_rel (W ?n) c new_member"
    using c(3-8) output_is_empty [OF c(7,6,8)] by (simp add: member_rel_def new_member_def readable_empty)
  with assms c show ?thesis
    using onConnection_set [of "cs_connections s" ?n True]
    by (auto simp: chat_newConnection_def chat_rel_def connected_def nth_append less_Suc_eq new_member_def)
qed

lemma leaves_rel:
  assumes rel: "chat_rel W s r" and c: "c < length (rm_members r)" "rm_in (rm_members r ! c)" and fits: "room_fits r"
  shows "\<exists>s'. chat_step W (Reads c []) s = Some s' \<and> chat_rel W s' (room_step (Reads c []) r)"
proof -
  let ?c = "cs_conns s ! c" and ?m = "rm_members r ! c"
  have m: "member_rel (W c) ?c ?m" using rel c by (simp add: chat_rel_def)
  then have good: "conn_good ?c" "has_room (inputBuffer ?c) (length [] + 0)" using c by (auto simp: member_rel_def has_room_def)
  obtain b where b: "readFd (\<lambda>n. Inr []) 0 (inputBuffer ?c) = Some (0, 0, b)" "buffer_wf b" "readable b = readable (inputBuffer ?c)"
    using readFd_good [OF good] by auto
  obtain c' where c': "handleClose chat_user (W c) True (?c\<lparr>inputBuffer := b\<rparr>) = Some c'" "conn_state c' = kDisconnected"
      "ch_events (conn_channel c') = kNoneEvent" "out_state c' = out_state ?c"
    using conn_goodD(4) [OF good(1)]
    by (auto simp: handleClose_def connectionCallback_def chat_user_def Let_def written_def out_state_def)
  have "member_rel (W c) c' (leave ?m)"
    using m c' output_is_cong [OF _ c'(4)] by (auto simp: member_rel_def isReading_def isWriting_def kNoneEvent_def)
  then show ?thesis
    using rel c b c' good conn_goodD(3) [OF good(1)] onConnection_set [of "cs_connections s" c False]
    by (auto simp: chat_handleRead_def chat_rel_def connected_def nth_list_update)
qed

lemma input_rel:
  assumes "member_rel W c m" "rm_in m" "buffer_wf b" "has_room b (max_size - 8 - length sent)"
  shows "member_rel W (c\<lparr>inputBuffer := b\<rparr>) (m\<lparr>rm_sent := sent, rm_unread := readable b\<rparr>)"
  using assms by (auto simp: member_rel_def conn_good_input intro: output_is_cong simp: written_def out_state_def)

lemma emit_rel: "member_rel W c m \<Longrightarrow> rm_in m \<Longrightarrow> member_rel W (emit EMessageCallback c) m"
  by (auto simp: member_rel_def conn_good_emit out_state_def intro: output_is_cong)

lemma shutdown_rel:
  assumes "member_rel W c m" "rm_in m"
  shows "\<exists>c'. conn_shutdown True c = Some c' \<and> member_rel W c' (m\<lparr>rm_hears := False\<rparr>)"
proof -
  have "conn_good c" using assms by (simp add: member_rel_def)
  from shutdown_carried [OF this, of W] obtain c' where c': "conn_shutdown True c = Some c'" "conn_state c' = kDisconnecting" "carried W [] c c'"
    by (auto simp: exec_api_def)
  have "has_room (outputBuffer c') n" if "has_room (outputBuffer c) n" for n using that c'(3) by (simp add: carried_def)
  moreover have "output_is W ds c'" if "output_is W ds c" for ds using output_is_adds [OF that, of "[]" c'] c'(3) by (simp add: carried_def)
  ultimately show ?thesis using assms c' by (simp add: member_rel_def carried_def)
qed

lemma carried_rel:
  assumes "member_rel W c m" "rm_in m" "conn_state c' = conn_state c" "carried W (map wire ms) c c'"
    "8 + length (concat (map wire (rm_got m @ ms))) \<le> max_size"
  shows "member_rel W c' (m\<lparr>rm_got := rm_got m @ ms\<rparr>)"
proof -
  let ?n = "max_size - 8 - length (concat (map wire (rm_got m @ ms)))"
  have n: "length (concat (map wire ms)) + ?n = max_size - 8 - length (concat (map wire (rm_got m)))" using assms(5) by simp
  have "has_room (outputBuffer c) (length (concat (map wire ms)) + ?n)" unfolding n using assms(1,2) by (simp add: member_rel_def)
  then have "has_room (outputBuffer c') ?n" using assms(4) unfolding carried_def by blast
  moreover have "output_is W (map wire (rm_got m) @ map wire ms) c'"
    using assms(1,4) output_is_adds by (auto simp: member_rel_def carried_def)
  ultimately show ?thesis using assms by (auto simp: member_rel_def carried_def)
qed

lemma hear_rel:
  assumes "member_rel W c m" "fits (hear ms m)" "if rm_in m then heard W ms c c' else c' = c"
  shows "member_rel W c' (hear ms m)"
proof (cases "rm_in m")
  case True
  then have "conn_state c = kConnected \<longleftrightarrow> rm_hears m" "heard W ms c c'" using assms(1,3) by (simp_all add: member_rel_def)
  then show ?thesis
    using True assms(2) carried_rel [OF assms(1) True, of c' ms] carried_rel [OF assms(1) True, of c' "[]"] assms(1)
    by (cases "rm_hears m") (simp_all add: heard_def hear_def fits_def member_rel_def)
next
  case False
  then show ?thesis using assms by (auto simp: member_rel_def hear_def)
qed

lemma writable_rel:
  assumes rel: "chat_rel W s r" and W: "write_ok (W c)" and c: "c < length (rm_members r)" "isWriting (conn_channel (cs_conns s ! c))"
    and fits: "room_fits r"
  shows "\<exists>s'. chat_step W (Writable c) s = Some s' \<and> chat_rel W s' r"
proof -
  let ?c = "cs_conns s ! c" and ?m = "rm_members r ! c"
  have m: "member_rel (W c) ?c ?m" using rel c by (simp add: chat_rel_def)
  then have good: "rm_in ?m" "conn_good ?c" using c by (auto simp: member_rel_def split: if_splits)
  from handleWrite_carried [OF good(2) W] obtain c' where c': "handleWrite (W c) True ?c = Some c'"
    "conn_state c' = conn_state ?c" "carried (W c) (map wire []) ?c c'" by auto
  have "8 + length (concat (map wire (rm_got ?m @ []))) \<le> max_size"
    using fits c by (simp add: room_fits_def list_all_length fits_def)
  from carried_rel [OF m good(1) c'(2,3) this] have "member_rel (W c) c' ?m" by simp
  then show ?thesis using rel c c'(1) by (auto simp: chat_rel_def chat_handleWrite_def nth_list_update)
qed

lemma hear_good:
  assumes "chat_rel W s r" "\<And>e. e < length (rm_members r) \<Longrightarrow> fits (hear ms (rm_members r ! e))"
  shows "all_good (length (concat (map wire ms)) + 0) (cs_connections s) (cs_conns s)"
  unfolding all_good_def
proof (intro ballI conjI impI)
  fix e assume "e \<in> set (cs_connections s)"
  then have e: "e < length (rm_members r)" "rm_in (rm_members r ! e)" using assms(1) by (auto simp: chat_rel_def)
  then have m: "member_rel (W e) (cs_conns s ! e) (rm_members r ! e)" using assms(1) by (simp add: chat_rel_def)
  show "e < length (cs_conns s)" "conn_good (cs_conns s ! e)" using assms(1) e m by (simp_all add: chat_rel_def member_rel_def)
  assume "conn_state (cs_conns s ! e) = kConnected"
  then have "rm_hears (rm_members r ! e)" using e m by (simp add: member_rel_def)
  then have "8 + length (concat (map wire (rm_got (rm_members r ! e) @ ms))) \<le> max_size"
    using assms(2) [OF e(1)] by (simp add: fits_def)
  with e m show "has_room (outputBuffer (cs_conns s ! e)) (length (concat (map wire ms)) + 0)"
    by (auto simp: member_rel_def has_room_def)
qed

text \<open>The bytes that have arrived are in the input buffer, but not decoded yet.\<close>

definition taken :: "nat \<Rightarrow> bytes \<Rightarrow> room \<Rightarrow> room" where
  "taken c d r = r\<lparr>rm_members := (rm_members r)[c := (rm_members r ! c)\<lparr>rm_sent := rm_sent (rm_members r ! c) @ d,
     rm_unread := rm_unread (rm_members r ! c) @ d\<rparr>]\<rparr>"

lemma reading_rel:
  assumes rel: "chat_rel W s r" and c: "c < length (rm_members r)" "rm_in (rm_members r ! c)" and b: "buffer_wf b"
    "readable b = rm_unread (rm_members r ! c) @ d" "has_room b (max_size - 8 - length (rm_sent (rm_members r ! c) @ d))"
  shows "chat_rel W (s\<lparr>cs_conns := (cs_conns s)[c := emit EMessageCallback ((cs_conns s ! c)\<lparr>inputBuffer := b\<rparr>)]\<rparr>) (taken c d r)"
proof -
  have "member_rel (W c) (cs_conns s ! c) (rm_members r ! c)" using rel c by (simp add: chat_rel_def)
  from emit_rel [OF input_rel [OF this c(2) b(1,3)]] c rel b(2) show ?thesis
    by (auto simp: chat_rel_def taken_def nth_list_update)
qed

lemma finish_rel:
  assumes rel: "member_rel W c m" and "rm_in m" and b: "buffer_wf b" "has_room b (max_size - 8 - length (rm_sent m))"
  shows "\<exists>c'. (if bad then conn_shutdown True (c\<lparr>inputBuffer := b\<rparr>) else Some (c\<lparr>inputBuffer := b\<rparr>)) = Some c' \<and>
    member_rel W c' (take_in [] (readable b) bad m)"
proof -
  have i: "member_rel W (c\<lparr>inputBuffer := b\<rparr>) (m\<lparr>rm_sent := rm_sent m, rm_unread := readable b\<rparr>)"
    by (rule input_rel [OF rel assms(2) b])
  then show ?thesis using shutdown_rel [OF i] assms(2) by (cases bad) (simp_all add: take_in_def)
qed

lemma onMessage_rel:
  assumes rel: "chat_rel W s r" and W: "\<And>c. write_ok (W c)" and c: "c < length (rm_members r)" "rm_in (rm_members r ! c)"
    and f: "frames (rm_unread (rm_members r ! c)) = (ms, rest, bad)"
    and fits: "\<And>e. e < length (rm_members r) \<Longrightarrow> fits (hear ms (rm_members r ! e))"
  shows "\<exists>s'. chat_onMessage W c s = Some s' \<and>
    chat_rel W s' (r\<lparr>rm_members := (map (hear ms) (rm_members r))[c := take_in [] rest bad (hear ms (rm_members r ! c))]\<rparr>)"
proof -
  let ?b = "inputBuffer (cs_conns s ! c)" and ?m = "rm_members r ! c"
  have m: "member_rel (W c) (cs_conns s ! c) ?m" and n: "length (cs_conns s) = length (rm_members r)" and dist: "distinct (cs_connections s)"
    using rel c by (simp_all add: chat_rel_def)
  then have b: "buffer_wf ?b" "frames (readable ?b) = (ms, rest, bad)" "has_room ?b (max_size - 8 - length (rm_sent ?m))"
    using c f conn_goodD(1) by (simp_all add: member_rel_def)
  from deliver_heard [of W, OF W frames_small [OF f] dist hear_good [OF rel fits]] obtain conns where
    del: "deliver (chat_onStringMessage W) ms s = Some (s\<lparr>cs_conns := conns\<rparr>)" "all_heard W ms (cs_connections s) (cs_conns s) conns"
    by blast
  from codec_loop_frames [OF b(1,2) del(1)] b(3) obtain b' where b': "codec_loop (chat_onStringMessage W) ?b s =
      Some (b', s\<lparr>cs_conns := conns\<rparr>, bad)" "buffer_wf b'" "readable b' = rest" "has_room b' (max_size - 8 - length (rm_sent ?m))" by auto
  have heard: "member_rel (W e) (conns ! e) (hear ms (rm_members r ! e))" if "e < length (rm_members r)" for e
  proof (rule hear_rel [OF _ fits [OF that]])
    show "member_rel (W e) (cs_conns s ! e) (rm_members r ! e)" using rel that by (simp add: chat_rel_def)
    show "if rm_in (rm_members r ! e) then heard (W e) ms (cs_conns s ! e) (conns ! e) else conns ! e = cs_conns s ! e"
      using del(2) rel that by (auto simp: all_heard_def chat_rel_def)
  qed
  from finish_rel [OF heard [OF c(1)], of b' bad] b' c obtain c' where
    c': "(if bad then conn_shutdown True ((conns ! c)\<lparr>inputBuffer := b'\<rparr>) else Some ((conns ! c)\<lparr>inputBuffer := b'\<rparr>)) = Some c'"
      "member_rel (W c) c' (take_in [] rest bad (hear ms ?m))" by auto
  have "chat_onMessage W c s = Some (s\<lparr>cs_conns := conns[c := c']\<rparr>)" using b'(1) c'(1) by (simp add: chat_onMessage_def)
  moreover have "length conns = length (rm_members r)" using del(2) n by (simp add: all_heard_def)
  ultimately show ?thesis using rel heard c c'(2) by (auto simp: chat_rel_def nth_list_update)
qed

lemma take_in_later:
  "take_in [] rest bad (hear ms (m\<lparr>rm_sent := rm_sent m @ d, rm_unread := xs\<rparr>)) = take_in d rest bad (hear ms m)"
  by (rule room_member.equality) simp_all

lemma says_taken:
  assumes "c < length (rm_members r)" "frames (rm_unread (rm_members r ! c) @ d) = (ms, rest, bad)"
  shows "(map (hear ms) (rm_members (taken c d r)))[c := take_in [] rest bad (hear ms (rm_members (taken c d r) ! c))] =
    rm_members (says c d r)"
  using assms by (simp add: taken_def says_def map_update take_in_later)

lemma says_rel:
  assumes rel: "chat_rel W s r" and W: "\<And>c. write_ok (W c)" and c: "c < length (rm_members r)" "rm_in (rm_members r ! c)"
    and fits: "room_fits (says c d r)" and d: "d \<noteq> []"
  shows "\<exists>s'. chat_step W (Reads c d) s = Some s' \<and> chat_rel W s' (says c d r)"
proof -
  let ?c = "cs_conns s ! c" and ?m = "rm_members r ! c" and ?n = "max_size - 8 - length (rm_sent (rm_members r ! c) @ d)"
  obtain ms rest bad where f: "frames (rm_unread ?m @ d) = (ms, rest, bad)" by (metis prod_cases3)
  note says = says_members [OF f]
  have fit: "fits (rm_members (says c d r) ! e)" if "e < length (rm_members r)" for e
    using fits that says(1) by (simp add: room_fits_def list_all_length)
  have m: "member_rel (W c) ?c ?m" and n: "length (cs_conns s) = length (rm_members r)" using rel c by (simp_all add: chat_rel_def)
  then have good: "conn_good ?c" "readable (inputBuffer ?c) = rm_unread ?m" using c by (simp_all add: member_rel_def)
  have "length d + ?n = max_size - 8 - length (rm_sent ?m)" using fit [OF c(1)] says(2) [OF c(1)] by (simp add: fits_def)
  then have "has_room (inputBuffer ?c) (length d + ?n)" using m c by (simp add: member_rel_def)
  from readFd_good [OF good(1) this] good(2) obtain b where b: "readFd (\<lambda>n. Inr d) 0 (inputBuffer ?c) = Some (int (length d), 0, b)"
    "buffer_wf b" "readable b = rm_unread ?m @ d" "has_room b ?n" by auto
  let ?s1 = "s\<lparr>cs_conns := (cs_conns s)[c := emit EMessageCallback (?c\<lparr>inputBuffer := b\<rparr>)]\<rparr>"
  have rel1: "chat_rel W ?s1 (taken c d r)" by (rule reading_rel [OF rel c b(2-4)])
  have c1: "c < length (rm_members (taken c d r))" "rm_in (rm_members (taken c d r) ! c)"
      "frames (rm_unread (rm_members (taken c d r) ! c)) = (ms, rest, bad)" using c f by (simp_all add: taken_def)
  have "fits (hear ms (rm_members (taken c d r) ! e))" if "e < length (rm_members (taken c d r))" for e
    using that fit [of e] says(2) [of e] by (cases "e = c") (simp_all add: taken_def fits_def)
  from onMessage_rel [OF rel1 W c1 this] obtain s' where
    s': "chat_onMessage W c ?s1 = Some s'" "chat_rel W s' ((taken c d r)\<lparr>rm_members := rm_members (says c d r)\<rparr>)"
    unfolding says_taken [OF c(1) f] by blast
  have "chat_step W (Reads c d) s = Some s'"
    using c n b(1) d s'(1) conn_goodD(3) [OF good(1)] by (simp add: chat_handleRead_def)
  moreover have "chat_rel W s' (says c d r)" using s'(2) by (simp add: chat_rel_def)
  ultimately show ?thesis by blast
qed

lemma chat_step_rel:
  assumes "chat_rel W s r" "\<And>c. write_ok (W c)" "room_fits (room_step e r)"
  shows "\<exists>s'. chat_step W e s = Some s' \<and> chat_rel W s' (room_step e r)"
proof (cases e)
  case (Joins connName sockfd)
  then show ?thesis using joins_rel [OF assms(1)] by simp
next
  case (Reads c d)
  have len: "length (cs_conns s) = length (rm_members r)" using assms(1) by (simp add: chat_rel_def)
  have "\<not> isReading (conn_channel (cs_conns s ! c))" if "c < length (rm_members r)" "\<not> rm_in (rm_members r ! c)"
    using that assms(1) by (auto simp: chat_rel_def member_rel_def)
  then show ?thesis
    using Reads leaves_rel [OF assms(1) _ _ room_step_fits [OF assms(3)], of c] says_rel [OF assms(1,2), of c d] assms(1,3) len
    by (cases "c < length (rm_members r) \<and> rm_in (rm_members r ! c)"; cases "d = []") auto
next
  case (Writable c)
  then show ?thesis using writable_rel [OF assms(1,2), of c] assms by (auto simp: chat_rel_def)
qed

lemma chat_run_rel:
  assumes "\<And>c. write_ok (W c)"
  shows "chat_rel W s r \<Longrightarrow> room_fits (room_run es r) \<Longrightarrow> \<exists>s'. chat_run W es s = Some s' \<and> chat_rel W s' (room_run es r)"
proof (induction es arbitrary: s r)
  case (Cons e es)
  from chat_step_rel [OF Cons.prems(1) assms room_run_fits] Cons.prems(2) obtain s1 where
    "chat_step W e s = Some s1" "chat_rel W s1 (room_step e r)" by force
  with Cons.IH [of s1 "room_step e r"] Cons.prems(2) show ?case by auto
qed auto

lemma chat_start_rel: "chat_rel W chat_start empty_room"
  by (simp add: chat_rel_def chat_start_def empty_room_def)

text \<open>A kernel that takes all it is given empties the output buffer at the next writable event.\<close>

lemma chat_run_append: "chat_run W (es @ fs) s = chat_run W es s \<bind> chat_run W fs"
proof (induction es arbitrary: s)
  case (Cons e es)
  then show ?case by (cases "chat_step W e s") simp_all
qed simp

lemma writable_out:
  assumes "chat_rel W s r" "c < length (rm_members r)" "rm_in (rm_members r ! c)" "write_ok (W c)"
  shows "\<exists>s'. chat_step W (Writable c) s = Some s' \<and>
    out_state (cs_conns s' ! c) = out_step (W c) TcpConnection.Writable (out_state (cs_conns s ! c))"
proof -
  let ?c = "cs_conns s ! c"
  have c: "conn_live ?c" "c < length (cs_conns s)" using assms(1-3) by (auto simp: chat_rel_def member_rel_def conn_good_def)
  show ?thesis
  proof (cases "readable (outputBuffer ?c) = []")
    case True
    then show ?thesis using liveD(4) [OF c(1)] by (simp add: out_state_def)
  next
    case False
    with handleWrite_live [OF c(1) assms(4)] liveD(4) [OF c(1)] c(2) show ?thesis by (auto simp: chat_handleWrite_def)
  qed
qed

subsection \<open>One order for all\<close>

lemma connected_hears: "member_rel W c m \<Longrightarrow> connected c \<longleftrightarrow> rm_hears m"
  by (auto simp: member_rel_def connected_def split: if_splits)

text \<open>
  C7: the chat server is a broadcast in one order. Clients join, send bytes in any pieces, close their end, and sockets
  become writable, in any order; as long as no connection carries more data than a buffer can hold and the kernel takes no more bytes than
  it is offered and reports no broken pipe, the server never aborts. There is one log of messages. The messages of a client in the log are the complete messages in the
  bytes it has sent, once each and in order. What a client has been sent, written and waiting together, is a piece of
  the log without gaps (its own messages included), each message as its direct write left it on the wire; the piece
  reaches to the end of the log as long as the connection is up. The server's set of connections holds exactly those
  that have not been closed.
\<close>

theorem chat_total_order:
  assumes "\<And>c. write_ok (W c)" and "r = room_run es empty_room" and "room_fits r"
  shows "\<exists>s. chat_run W es chat_start = Some s \<and> length (cs_conns s) = length (rm_members r) \<and>
    set (cs_connections s) = {c. c < length (rm_members r) \<and> rm_in (rm_members r ! c)} \<and>
    (\<forall>c < length (rm_members r).
       said_by c (rm_log r) = fst (frames (rm_sent (rm_members r ! c))) \<and>
       output_is (W c) (map wire (rm_got (rm_members r ! c))) (cs_conns s ! c) \<and>
       (\<exists>pre seg post. rm_log r = pre @ seg @ post \<and> rm_got (rm_members r ! c) = map snd seg \<and>
          (connected (cs_conns s ! c) \<longrightarrow> post = [])))"
proof -
  obtain s where s: "chat_run W es chat_start = Some s" "chat_rel W s r"
    using chat_run_rel [of W, OF assms(1) chat_start_rel] assms(2,3) by blast
  have ok: "room_ok r" using room_run_ok [OF empty_room_ok] assms(2) by simp
  have "said_by c (rm_log r) = fst (frames (rm_sent (rm_members r ! c))) \<and>
      output_is (W c) (map wire (rm_got (rm_members r ! c))) (cs_conns s ! c) \<and>
      (\<exists>pre seg post. rm_log r = pre @ seg @ post \<and> rm_got (rm_members r ! c) = map snd seg \<and>
        (connected (cs_conns s ! c) \<longrightarrow> post = []))" if "c < length (rm_members r)" for c
  proof -
    have m: "member_ok (rm_log r) c (rm_members r ! c)" "member_rel (W c) (cs_conns s ! c) (rm_members r ! c)"
      using that ok s(2) by (simp_all add: room_ok_def chat_rel_def)
    then show ?thesis using connected_hears [OF m(2)] by (auto simp: member_ok_def member_rel_def)
  qed
  then show ?thesis using s by (auto simp: chat_rel_def)
qed

text \<open>Two clients; the second joins late, sends its message in two pieces, and the first leaves.\<close>

definition demo_chat :: "chat_event list" where
  "demo_chat = [Joins ''a'' 5, Reads 0 (wire ''hi''), Joins ''b'' 6, Reads 1 (take 3 (wire ''yo'')), Writable 0,
     Reads 1 (drop 3 (wire ''yo'')), Reads 0 []]"

lemma demo_frames:
  "frames (wire ''hi'') = ([''hi''], [], False)" "frames (wire ''yo'') = ([''yo''], [], False)"
  "frames (take 3 (wire ''yo'')) = ([], take 3 (wire ''yo''), False)" "wire m \<noteq> []"
  using frames_stream [of "[''hi'']"] frames_stream [of "[''yo'']"] length_wire [of m]
  by (auto simp: frames.simps [of "take 3 (wire ''yo'')"] simp del: length_wire)

lemma demo_room: "room_run demo_chat empty_room =
  \<lparr>rm_members = [\<lparr>rm_sent = wire ''hi'', rm_unread = [], rm_got = [''hi'', ''yo''], rm_in = False, rm_hears = False\<rparr>,
     \<lparr>rm_sent = wire ''yo'', rm_unread = [], rm_got = [''yo''], rm_in = True, rm_hears = True\<rparr>],
   rm_log = [(0, ''hi''), (1, ''yo'')]\<rparr>"
  by (simp add: demo_chat_def empty_room_def new_member_def says_def demo_frames take_in_def hear_def leave_def)

lemma demo_room_fits: "room_fits (room_run demo_chat empty_room)"
  by (simp add: demo_room room_fits_def fits_def max_size_def)

theorem chat_total_order_witness:
  "\<exists>s. chat_run (\<lambda>c n d. Wrote (length d)) demo_chat chat_start = Some s \<and> set (cs_connections s) = {1} \<and>
     said_by 1 (rm_log (room_run demo_chat empty_room)) = [''yo''] \<and>
     output_is (\<lambda>n d. Wrote (length d)) (map wire [''hi'', ''yo'']) (cs_conns s ! 0)"
proof -
  have W: "\<And>c. write_ok ((\<lambda>c n d. Wrote (length d)) c)" by (simp add: write_ok_def)
  let ?W = "\<lambda>c n d. Wrote (length d)" and ?r = "room_run demo_chat empty_room"
  obtain s where s: "chat_run ?W demo_chat chat_start = Some s"
      "set (cs_connections s) = {c. c < length (rm_members ?r) \<and> rm_in (rm_members ?r ! c)}"
    and out: "\<forall>c < length (rm_members ?r). output_is (?W c) (map wire (rm_got (rm_members ?r ! c))) (cs_conns s ! c)"
    using chat_total_order [of ?W, OF W refl demo_room_fits] by blast
  have "0 < length (rm_members ?r)" "rm_got (rm_members ?r ! 0) = [''hi'', ''yo'']" by (simp_all add: demo_room)
  then have "output_is (?W 0) (map wire [''hi'', ''yo'']) (cs_conns s ! 0)" using out by metis
  moreover have "{c. c < length (rm_members ?r) \<and> rm_in (rm_members ?r ! c)} = {1}" "said_by 1 (rm_log ?r) = [''yo'']"
    by (auto simp: demo_room said_by_def less_Suc_eq)
  ultimately show ?thesis using s by metis
qed

end
