(* ===== verification/ChatClient.thy ===== *)
theory ChatClient
  imports ChatServer
begin

text \<open>
  \<open>examples/chat/chat_client.cc\<close>: the client on the connection that its \<open>TcpClient\<close> has made. Lines are typed in the main
  thread, whose \<open>write\<close> hands the encoded line to the loop as a functor (the mutex makes it one step); the
  loop's thread runs the functors in order, reads, writes and prints. \<open>cc_connection\<close> says whether \<open>connection_\<close> is set,
  \<open>cc_pending\<close> is the functor queue of the loop, \<open>cc_stdout\<close> is what has been printed.
\<close>

record chat_client =
  cc_conn :: tcp_conn
  cc_connection :: bool
  cc_pending :: "conn_functor list"
  cc_stdout :: bytes

text \<open>A call of the connection; the functors that it queues join the queue of the loop.\<close>

definition client_call :: "(tcp_conn \<Rightarrow> tcp_conn option) \<Rightarrow> chat_client \<Rightarrow> chat_client option" where
  "client_call op cl = do {
     conn \<leftarrow> op (cc_conn cl);
     Some (cl\<lparr>cc_conn := conn, cc_pending := cc_pending cl @ queued (drop (length (effects (cc_conn cl))) (effects conn))\<rparr>) }"

definition ChatClient_onConnection :: "bool \<Rightarrow> chat_client \<Rightarrow> chat_client" where
  "ChatClient_onConnection up cl = (if up then cl\<lparr>cc_connection := True\<rparr> else cl\<lparr>cc_connection := False\<rparr>)"

definition ChatClient_write :: "sys_write \<Rightarrow> bytes \<Rightarrow> chat_client \<Rightarrow> chat_client option" where
  "ChatClient_write W message cl =
     (if cc_connection cl then client_call (codec_send_on W False message) cl else Some cl)"

text \<open>\<open>printf\<close> prints a C string, up to its first null character.\<close>

definition printed :: "bytes \<Rightarrow> bytes" where
  "printed message = ''<<< '' @ takeWhile (\<lambda>c. c \<noteq> CHR 0x00) message @ [CHR 0x0A]"

definition ChatClient_onStringMessage :: "bytes \<Rightarrow> bytes \<Rightarrow> bytes option" where
  "ChatClient_onStringMessage message out = Some (out @ printed message)"

text \<open>The end of \<open>TcpClient::newConnection\<close>, with the connection callback.\<close>

definition client_up :: "sys_write \<Rightarrow> string \<Rightarrow> fd \<Rightarrow> chat_client option" where
  "client_up W connName sockfd = do {
     conn \<leftarrow> TcpConnection_ctor connName sockfd;
     conn \<leftarrow> connectionEstablished chat_user W True conn;
     Some (ChatClient_onConnection (connected conn) \<lparr>cc_conn = conn, cc_connection = False, cc_pending = [], cc_stdout = []\<rparr>) }"

definition client_handleRead :: "sys_write \<Rightarrow> (size_t \<Rightarrow> int + bytes) \<Rightarrow> chat_client \<Rightarrow> chat_client option" where
  "client_handleRead W readv cl = do {
     (n, savedErrno, b) \<leftarrow> readFd readv 0 (inputBuffer (cc_conn cl));
     let cl = cl\<lparr>cc_conn := (cc_conn cl)\<lparr>inputBuffer := b\<rparr>\<rparr>;
     if n > 0 then do {
       (b, out, bad) \<leftarrow> codec_loop ChatClient_onStringMessage b (cc_stdout cl);
       let cl = cl\<lparr>cc_conn := (emit EMessageCallback (cc_conn cl))\<lparr>inputBuffer := b\<rparr>, cc_stdout := out\<rparr>;
       if bad then client_call (conn_shutdown True) cl else Some cl }
     else if n = 0 then do {
       cl \<leftarrow> client_call (handleClose chat_user W True) cl;
       Some (ChatClient_onConnection (connected (cc_conn cl)) cl) }
     else client_call conn_handleError cl }"

datatype client_event = Types bytes | LoopRuns | Receives bytes | MaySend

fun client_step :: "sys_write \<Rightarrow> client_event \<Rightarrow> chat_client \<Rightarrow> chat_client option" where
  "client_step W (Types line) cl = ChatClient_write W line cl"
| "client_step W LoopRuns cl =
     (case cc_pending cl of
        [] \<Rightarrow> Some cl
      | f # fs \<Rightarrow> client_call (run_functor chat_user W f) (cl\<lparr>cc_pending := fs\<rparr>))"
| "client_step W (Receives d) cl = client_handleRead W (\<lambda>n. Inr d) cl"
| "client_step W MaySend cl = client_call (handleWrite W True) cl"

primrec client_run :: "sys_write \<Rightarrow> client_event list \<Rightarrow> chat_client \<Rightarrow> chat_client option" where
  "client_run W [] cl = Some cl"
| "client_run W (e # es) cl = client_step W e cl \<bind> client_run W es"

fun typed :: "client_event list \<Rightarrow> bytes list" where
  "typed [] = []"
| "typed (Types line # es) = line # typed es"
| "typed (e # es) = typed es"

fun received :: "client_event list \<Rightarrow> bytes list" where
  "received [] = []"
| "received (Receives d # es) = d # received es"
| "received (e # es) = received es"

subsection \<open>A connection without further callbacks queues nothing\<close>

definition quiet :: "tcp_conn \<Rightarrow> bool" where
  "quiet c \<longleftrightarrow> \<not> hasWriteComplete c \<and> \<not> hasHighWaterMark c"

definition quietly :: "tcp_conn \<Rightarrow> tcp_conn \<Rightarrow> bool" where
  "quietly c c' \<longleftrightarrow> quiet c' \<and> (\<exists>es. effects c' = effects c @ es \<and> queued es = [])"

lemma queued_simps [simp]:
  "queued [] = []" "queued (EQueue f # es) = f # queued es" "queued (EWrote d # es) = queued es"
  "queued (EUpdate ev # es) = queued es" "queued (EShutdownWrite # es) = queued es"
  by (simp_all add: queued_def)

lemma send_rest_quietly: "send_rest d r e c = Some c' \<Longrightarrow> quiet c \<Longrightarrow> quietly c c'"
  by (auto simp: send_rest_def Let_def bind_eq_Some_conv quiet_def quietly_def set_interest_def upd_channel_def emit_def split: if_splits)

lemma quietly_emit: "quietly (emit (EWrote d) (c\<lparr>writes := n\<rparr>)) c' \<Longrightarrow> quietly c c'"
  by (auto simp: quietly_def)

lemma sendInLoop_quietly: "sendInLoop W l d c = Some c' \<Longrightarrow> quiet c \<Longrightarrow> quietly c c'"
  by (auto simp: sendInLoop_def Let_def bind_eq_Some_conv quiet_def split: if_splits write_result.splits dest!: send_rest_quietly
      intro: quietly_emit) (auto simp: quietly_def quiet_def)

lemma handleWrite_quietly: "handleWrite W l c = Some c' \<Longrightarrow> quiet c \<Longrightarrow> quietly c c'"
  by (auto simp: handleWrite_def shutdownInLoop_def Let_def bind_eq_Some_conv quietly_def quiet_def set_interest_def upd_channel_def emit_def
      split: if_splits write_result.splits)

subsection \<open>What is typed is sent, what is received is printed\<close>

text \<open>
  After \<open>ls\<close> lines have been typed and the bytes \<open>rd\<close> received: the first lines are in the output of the
  connection, the others wait in the queue of the loop; the complete messages received have been printed.
\<close>

definition sent_ok :: "sys_write \<Rightarrow> bytes list \<Rightarrow> conn_functor list \<Rightarrow> tcp_conn \<Rightarrow> bool" where
  "sent_ok W ls fs c \<longleftrightarrow>
     (\<exists>ls1 ls2. ls = ls1 @ ls2 \<and> fs = map (\<lambda>m. SendInLoop (wire m)) ls2 \<and> output_is W (map wire ls1) c \<and>
        has_room (outputBuffer c) (max_size - 8 - length (concat (map wire ls1))))"

definition printed_ok :: "bytes \<Rightarrow> bytes \<Rightarrow> tcp_conn \<Rightarrow> bool" where
  "printed_ok rd out c \<longleftrightarrow>
     (\<exists>ms. frames rd = (ms, readable (inputBuffer c), False) \<and> out = concat (map printed ms)) \<and>
     has_room (inputBuffer c) (max_size - 8 - length rd)"

definition client_ok :: "sys_write \<Rightarrow> bytes list \<Rightarrow> bytes \<Rightarrow> chat_client \<Rightarrow> bool" where
  "client_ok W ls rd cl \<longleftrightarrow>
     cc_connection cl \<and> conn_good (cc_conn cl) \<and> conn_state (cc_conn cl) = kConnected \<and> quiet (cc_conn cl) \<and>
     sent_ok W ls (cc_pending cl) (cc_conn cl) \<and> printed_ok rd (cc_stdout cl) (cc_conn cl)"

lemma printed_ok_cong: "printed_ok rd out c \<Longrightarrow> inputBuffer c' = inputBuffer c \<Longrightarrow> printed_ok rd out c'"
  by (simp add: printed_ok_def)

lemma sent_ok_cong:
  "sent_ok W ls fs c \<Longrightarrow> written c' = written c \<Longrightarrow> writes c' = writes c \<Longrightarrow> outputBuffer c' = outputBuffer c \<Longrightarrow> sent_ok W ls fs c'"
  by (simp add: sent_ok_def output_is_def out_state_def)

lemma sent_ok_queue: "sent_ok W ls fs c \<Longrightarrow> sent_ok W (ls @ [line]) (fs @ [SendInLoop (wire line)]) c"
  unfolding sent_ok_def by (metis (no_types, lifting) append.assoc list.simps(8,9) map_append)

lemma sent_ok_carried: "sent_ok W ls fs c \<Longrightarrow> carried W [] c c' \<Longrightarrow> sent_ok W ls fs c'"
  unfolding sent_ok_def carried_def using output_is_adds [of W _ c "[]" c'] by auto

lemma client_up_ok: "\<exists>cl. client_up W connName sockfd = Some cl \<and> client_ok W [] [] cl"
proof -
  obtain c0 c where c: "TcpConnection_ctor connName sockfd = Some c0" "connectionEstablished chat_user W True c0 = Some c"
      "conn_good c" "conn_state c = kConnected" "inputBuffer c = empty_buffer" "outputBuffer c = empty_buffer" "written c = []" "writes c = 0"
    using established_fresh [of chat_user connName sockfd W] by (auto simp: chat_user_def)
  have "quiet c"
    using c(1,2) by (auto simp: TcpConnection_ctor_def connectionEstablished_def connectionCallback_def chat_user_def quiet_def
        bind_eq_Some_conv Let_def set_interest_def upd_channel_def)
  moreover have "has_room empty_buffer (max_size - 8)" by (simp add: has_room_def empty_buffer_def max_size_def)
  ultimately show ?thesis
    using c output_is_empty [OF c(7,6,8)]
    by (auto simp: client_up_def ChatClient_onConnection_def connected_def client_ok_def sent_ok_def printed_ok_def frames.simps [of "[]"] readable_empty)
qed

lemma client_types_ok:
  assumes "client_ok W ls rd cl" "length line \<le> 65536"
  shows "\<exists>cl'. client_step W (Types line) cl = Some cl' \<and> client_ok W (ls @ [line]) rd cl'"
proof -
  let ?c = "cc_conn cl" and ?f = "SendInLoop (wire line)"
  obtain b where b: "codec_send line = Some b" "toStringView b = wire line" using codec_send_wire [OF assms(2)] by blast
  have up: "cc_connection cl" "conn_state ?c = kConnected" using assms(1) by (simp_all add: client_ok_def)
  have e: "client_step W (Types line) cl = Some (cl\<lparr>cc_conn := emit (EQueue ?f) ?c, cc_pending := cc_pending cl @ [?f]\<rparr>)"
    using b up by (simp add: ChatClient_write_def client_call_def codec_send_on_def send_buffer_def)
  have "sent_ok W (ls @ [line]) (cc_pending cl @ [?f]) (emit (EQueue ?f) ?c)"
    using assms(1) by (auto simp: client_ok_def intro: sent_ok_queue sent_ok_cong)
  then show ?thesis using e assms(1) by (auto simp: client_ok_def conn_good_emit quiet_def intro: printed_ok_cong)
qed

text \<open>A call that adds the messages \<open>ds\<close> to the output and leaves the rest of the connection alone.\<close>

lemma client_call_carried:
  assumes "op (cc_conn cl) = Some c'" "quietly (cc_conn cl) c'"
  shows "client_call op cl = Some (cl\<lparr>cc_conn := c'\<rparr>)"
  using assms by (auto simp: client_call_def quietly_def)

lemma client_runs_ok:
  assumes ok: "client_ok W ls rd cl" and W: "write_ok W" and room: "8 + length (concat (map wire ls)) \<le> max_size"
  shows "\<exists>cl'. client_step W LoopRuns cl = Some cl' \<and> client_ok W ls rd cl'"
proof -
  let ?c = "cc_conn cl" and ?fs = "map (\<lambda>m. SendInLoop (wire m))"
  obtain ls1 ls2 where l: "ls = ls1 @ ls2" "cc_pending cl = ?fs ls2" "output_is W (map wire ls1) ?c"
      "has_room (outputBuffer ?c) (max_size - 8 - length (concat (map wire ls1)))"
    using ok by (auto simp: client_ok_def sent_ok_def)
  have c: "conn_good ?c" "conn_state ?c = kConnected" "quiet ?c" using ok by (simp_all add: client_ok_def)
  show ?thesis
  proof (cases ls2)
    case Nil
    then show ?thesis using l ok by simp
  next
    case (Cons m ls3)
    let ?n = "max_size - 8 - length (concat (map wire (ls1 @ [m])))"
    have n: "length (wire m) + ?n = max_size - 8 - length (concat (map wire ls1))" using room l(1) Cons by simp
    have r: "has_room (outputBuffer ?c) (length (wire m) + ?n)" using l(4) unfolding n .
    then have "has_room (outputBuffer ?c) (length (wire m))" by (simp add: has_room_def)
    from send_carried [OF c(1,2) W this] obtain c' where c': "sendInLoop W True (wire m) ?c = Some c'" "conn_state c' = kConnected"
        "carried W [wire m] ?c c'" using c(2) by (auto simp: exec_api_def send_string_def)
    have q: "quietly ?c c'" by (rule sendInLoop_quietly [OF c'(1) c(3)])
    have "client_step W LoopRuns cl = Some (cl\<lparr>cc_conn := c', cc_pending := ?fs ls3\<rparr>)"
      using client_call_carried [of "run_functor chat_user W (SendInLoop (wire m))" "cl\<lparr>cc_pending := ?fs ls3\<rparr>" c']
        l(2) Cons c'(1) q by (simp add: run_functor_def)
    moreover have "output_is W (map wire (ls1 @ [m])) c'" "has_room (outputBuffer c') ?n"
      using output_is_adds [OF l(3), of "[wire m]" c'] c'(3) r by (simp_all add: carried_def)
    then have "sent_ok W ls (?fs ls3) c'" unfolding sent_ok_def using l(1) Cons by (metis append.assoc append_Cons append_Nil)
    ultimately show ?thesis
      using ok c'(2,3) q by (auto simp: client_ok_def carried_def quietly_def intro: printed_ok_cong)
  qed
qed

lemma client_sends_ok:
  assumes ok: "client_ok W ls rd cl" and W: "write_ok W"
  shows "\<exists>cl'. client_step W MaySend cl = Some cl' \<and> client_ok W ls rd cl'"
proof -
  let ?c = "cc_conn cl"
  have c: "conn_good ?c" "conn_state ?c = kConnected" "quiet ?c" using ok by (simp_all add: client_ok_def)
  from handleWrite_carried [OF c(1) W] c(2) obtain c' where c': "handleWrite W True ?c = Some c'" "conn_state c' = kConnected" "carried W [] ?c c'"
    by auto
  have q: "quietly ?c c'" by (rule handleWrite_quietly [OF c'(1) c(3)])
  have "client_ok W ls rd (cl\<lparr>cc_conn := c'\<rparr>)"
    using ok c' q sent_ok_carried [OF _ c'(3)] by (auto simp: client_ok_def quietly_def carried_def intro: printed_ok_cong)
  then show ?thesis using client_call_carried [of "handleWrite W True" cl c', OF c'(1) q] by auto
qed

lemma deliver_printed: "deliver ChatClient_onStringMessage ms out = Some (out @ concat (map printed ms))"
  by (induction ms arbitrary: out) (simp_all add: ChatClient_onStringMessage_def)

lemma client_receives_ok:
  assumes ok: "client_ok W ls rd cl" and d: "d \<noteq> []" "\<not> snd (snd (frames (rd @ d)))" and room: "8 + length (rd @ d) \<le> max_size"
  shows "\<exists>cl'. client_step W (Receives d) cl = Some cl' \<and> client_ok W ls (rd @ d) cl'"
proof -
  let ?c = "cc_conn cl" and ?n = "max_size - 8 - length (rd @ d)"
  obtain ms where ms: "frames rd = (ms, readable (inputBuffer ?c), False)" "cc_stdout cl = concat (map printed ms)"
    using ok by (auto simp: client_ok_def printed_ok_def)
  have good: "conn_good ?c" and r: "has_room (inputBuffer ?c) (max_size - 8 - length rd)" using ok by (simp_all add: client_ok_def printed_ok_def)
  have "length d + ?n = max_size - 8 - length rd" using room by simp
  then have "has_room (inputBuffer ?c) (length d + ?n)" using r by simp
  from readFd_good [OF good this] obtain b where b: "readFd (\<lambda>n. Inr d) 0 (inputBuffer ?c) = Some (int (length d), 0, b)" "buffer_wf b"
    "readable b = readable (inputBuffer ?c) @ d" "has_room b ?n" by blast
  obtain ns rest bad where f: "frames (readable (inputBuffer ?c) @ d) = (ns, rest, bad)" by (metis prod_cases3)
  have all: "frames (rd @ d) = (ms @ ns, rest, bad)" by (rule frames_append [OF ms(1) f])
  then have "\<not> bad" using d(2) by simp
  have "frames (readable b) = (ns, rest, False)" using f b(3) \<open>\<not> bad\<close> by simp
  from codec_loop_frames [OF b(2) this deliver_printed, of "cc_stdout cl"] b(4) obtain b' where
    b': "codec_loop ChatClient_onStringMessage b (cc_stdout cl) = Some (b', concat (map printed (ms @ ns)), False)"
      "buffer_wf b'" "readable b' = rest" "has_room b' ?n" using ms(2) by auto
  let ?c' = "(emit EMessageCallback (?c\<lparr>inputBuffer := b\<rparr>))\<lparr>inputBuffer := b'\<rparr>"
  have "client_step W (Receives d) cl = Some (cl\<lparr>cc_conn := ?c', cc_stdout := concat (map printed (ms @ ns))\<rparr>)"
    using b(1) b'(1) d(1) by (simp add: client_handleRead_def)
  moreover have "sent_ok W ls fs ?c'" if "sent_ok W ls fs ?c" for fs
    by (rule sent_ok_cong [OF that]) (simp_all add: written_def)
  moreover have "conn_good ?c'" using good b(2) b'(2) by (intro conn_good_input conn_good_emit)
  moreover have "printed_ok (rd @ d) (concat (map printed (ms @ ns))) ?c'" using all \<open>\<not> bad\<close> b'(3,4) by (simp add: printed_ok_def)
  ultimately show ?thesis using ok by (auto simp: client_ok_def quiet_def)
qed

lemma client_run_ok:
  assumes "write_ok W"
  shows "client_ok W ls rd cl \<Longrightarrow> list_all (\<lambda>m. length m \<le> 65536) (typed es) \<Longrightarrow> [] \<notin> set (received es) \<Longrightarrow>
    \<not> snd (snd (frames (rd @ concat (received es)))) \<Longrightarrow> 8 + length (rd @ concat (received es)) \<le> max_size \<Longrightarrow>
    8 + length (concat (map wire (ls @ typed es))) \<le> max_size \<Longrightarrow>
    \<exists>cl'. client_run W es cl = Some cl' \<and> client_ok W (ls @ typed es) (rd @ concat (received es)) cl'"
proof (induction es arbitrary: ls rd cl)
  case (Cons e es)
  have "\<exists>cl'. client_step W e cl = Some cl' \<and> client_ok W (ls @ typed [e]) (rd @ concat (received [e])) cl'"
  proof (cases e)
    case (Types line)
    then show ?thesis using client_types_ok [OF Cons.prems(1)] Cons.prems(2) by auto
  next
    case LoopRuns
    have "8 + length (concat (map wire ls)) \<le> max_size" using Cons.prems(6) by simp
    then show ?thesis using client_runs_ok [OF Cons.prems(1) assms] LoopRuns by simp
  next
    case (Receives d)
    then have "\<not> snd (snd (frames ((rd @ d) @ concat (received es))))" using Cons.prems(4) by simp
    then have "\<not> snd (snd (frames (rd @ d)))" using frames_bad_append by (metis prod.collapse)
    then show ?thesis using client_receives_ok [OF Cons.prems(1), of d] Cons.prems(3,5) Receives by auto
  next
    case MaySend
    then show ?thesis using client_sends_ok [OF Cons.prems(1) assms] by simp
  qed
  then obtain cl1 where cl1: "client_step W e cl = Some cl1" "client_ok W (ls @ typed [e]) (rd @ concat (received [e])) cl1" by blast
  have split: "typed (e # es) = typed [e] @ typed es" "received (e # es) = received [e] @ received es" by (cases e; simp)+
  show ?case using Cons.IH [OF cl1(2)] Cons.prems(2-6) cl1(1) unfolding split by simp
qed simp

end
