(* ===== verification/HttpContext.thy ===== *)
theory HttpContext
  imports Buffer
begin

text \<open>
  \<open>tmuduo/net/http/HttpRequest.h\<close>, \<open>HttpContext.h\<close> and \<open>HttpContext.cc\<close>: the
  request object and the incremental request parser. A pair of pointers \<open>(start, end)\<close> is the
  byte list between them. \<open>parse_body\<close> is one round of the \<open>while (hasMore)\<close> loop of
  \<open>parseRequest\<close>, with \<open>None\<close> for a failed assertion; \<open>parse_loop\<close> iterates it and is
  \<open>None\<close> when the call does not return.
\<close>

subsection \<open>HttpRequest\<close>

datatype http_method = kInvalid | kGet | kPost | kHead | kPut | kDelete

datatype http_version = kUnknown | kHttp1_0 | kHttp1_1

record http_request =
  req_method :: http_method
  req_version :: http_version
  req_path :: string
  req_query :: string
  req_receiveTime :: int
  req_headers :: "string \<rightharpoonup> string"
  req_body :: string

definition HttpRequest_ctor :: http_request where
  "HttpRequest_ctor = \<lparr>req_method = kInvalid, req_version = kUnknown, req_path = [], req_query = [],
     req_receiveTime = 0, req_headers = Map.empty, req_body = []\<rparr>"

definition setVersion :: "http_version \<Rightarrow> http_request \<Rightarrow> http_request" where
  "setVersion v r = r\<lparr>req_version := v\<rparr>"

definition method_of_string :: "string \<Rightarrow> http_method" where
  "method_of_string m =
     (if m = ''GET'' then kGet else if m = ''POST'' then kPost else if m = ''HEAD'' then kHead
      else if m = ''PUT'' then kPut else if m = ''DELETE'' then kDelete else kInvalid)"

definition setMethod :: "string \<Rightarrow> http_request \<Rightarrow> (bool \<times> http_request) option" where
  "setMethod m r = do {
     assert_that (req_method r = kInvalid);
     let method = method_of_string m;
     Some (method \<noteq> kInvalid, r\<lparr>req_method := method\<rparr>) }"

fun methodToString :: "http_method \<Rightarrow> string" where
  "methodToString kGet = ''GET''"
| "methodToString kPost = ''POST''"
| "methodToString kHead = ''HEAD''"
| "methodToString kPut = ''PUT''"
| "methodToString kDelete = ''DELETE''"
| "methodToString kInvalid = ''UNKNOWN''"

definition setPath :: "string \<Rightarrow> http_request \<Rightarrow> http_request" where
  "setPath p r = r\<lparr>req_path := p\<rparr>"

definition setQuery :: "string \<Rightarrow> http_request \<Rightarrow> http_request" where
  "setQuery q r = r\<lparr>req_query := q\<rparr>"

definition setReceiveTime :: "int \<Rightarrow> http_request \<Rightarrow> http_request" where
  "setReceiveTime t r = r\<lparr>req_receiveTime := t\<rparr>"

definition isspace :: "char \<Rightarrow> bool" where
  "isspace c \<longleftrightarrow> c \<in> {CHR 0x20, CHR 0x09, CHR 0x0A, CHR 0x0B, CHR 0x0C, CHR 0x0D}"

text \<open>
  The \<open>for\<close> loop of \<open>addHeader\<close> advances while the character is \<^emph>\<open>not\<close> a space; the
  \<open>while\<close> loop removes trailing spaces.
\<close>

fun skip_loop :: "string \<Rightarrow> string" where
  "skip_loop [] = []"
| "skip_loop (c # cs) = (if \<not> isspace c then skip_loop cs else c # cs)"

definition trim_right :: "string \<Rightarrow> string" where
  "trim_right s = rev (dropWhile isspace (rev s))"

definition addHeader :: "string \<Rightarrow> nat \<Rightarrow> http_request \<Rightarrow> http_request" where
  "addHeader line colon r =
     (let fieldName = take colon line;
          fieldValue = trim_right (skip_loop (drop (colon + 1) line))
      in r\<lparr>req_headers := (req_headers r)(fieldName \<mapsto> fieldValue)\<rparr>)"

definition getHeader :: "string \<Rightarrow> http_request \<Rightarrow> string" where
  "getHeader fieldName r = (case req_headers r fieldName of None \<Rightarrow> [] | Some v \<Rightarrow> v)"

definition setBody :: "string \<Rightarrow> http_request \<Rightarrow> http_request" where
  "setBody b r = r\<lparr>req_body := b\<rparr>"

definition HttpRequest_swap :: "http_request \<Rightarrow> http_request \<Rightarrow> http_request \<times> http_request" where
  "HttpRequest_swap a b = (b, a)"

subsection \<open>HttpContext\<close>

datatype parse_state = kExpectRequestLine | kExpectHeaders | kExpectBody | kGotAll

record http_context =
  ctx_state :: parse_state
  ctx_request :: http_request

definition HttpContext_ctor :: http_context where
  "HttpContext_ctor = \<lparr>ctx_state = kExpectRequestLine, ctx_request = HttpRequest_ctor\<rparr>"

definition gotAll :: "http_context \<Rightarrow> bool" where
  "gotAll c \<longleftrightarrow> ctx_state c = kGotAll"

definition HttpContext_reset :: "http_context \<Rightarrow> http_context" where
  "HttpContext_reset c =
     c\<lparr>ctx_state := kExpectRequestLine,
       ctx_request := fst (HttpRequest_swap (ctx_request c) HttpRequest_ctor)\<rparr>"

definition processRequestLine :: "string \<Rightarrow> http_request \<Rightarrow> (bool \<times> http_request) option" where
  "processRequestLine line r =
     (case find_index (CHR '' '') line of
        None \<Rightarrow> Some (False, r)
      | Some space \<Rightarrow> do {
          (known, r) \<leftarrow> setMethod (take space line) r;
          if \<not> known then Some (False, r)
          else
            (let rest = drop (space + 1) line in
             case find_index (CHR '' '') rest of
               None \<Rightarrow> Some (False, r)
             | Some space2 \<Rightarrow>
                 (let target = take space2 rest;
                      r = (case find_index (CHR ''?'') target of
                             Some question \<Rightarrow>
                               setQuery (drop question target) (setPath (take question target) r)
                           | None \<Rightarrow> setPath target r);
                      version = drop (space2 + 1) rest
                  in if length version = 8 \<and> take 7 version = ''HTTP/1.'' then
                       (if version ! 7 = CHR ''1'' then Some (True, setVersion kHttp1_1 r)
                        else if version ! 7 = CHR ''0'' then Some (True, setVersion kHttp1_0 r)
                        else Some (False, r))
                     else Some (False, r))) })"

text \<open>
  One round of the loop: the new values of \<open>ok\<close> and \<open>hasMore\<close>, the context and the
  buffer.
\<close>

definition parse_body ::
  "int \<Rightarrow> bool \<Rightarrow> http_context \<Rightarrow> buffer \<Rightarrow> (bool \<times> bool \<times> http_context \<times> buffer) option" where
  "parse_body receiveTime ok c b =
     (case ctx_state c of
        kExpectRequestLine \<Rightarrow>
          (case findCRLF b of
             Some crlf \<Rightarrow> do {
               (ok, r) \<leftarrow> processRequestLine (slice (peek b) crlf (vec b)) (ctx_request c);
               if ok then do {
                 b \<leftarrow> retrieveUntil (crlf + 2) b;
                 Some (ok, True,
                   c\<lparr>ctx_request := setReceiveTime receiveTime r, ctx_state := kExpectHeaders\<rparr>, b) }
               else Some (ok, False, c\<lparr>ctx_request := r\<rparr>, b) }
           | None \<Rightarrow> Some (ok, False, c, b))
      | kExpectHeaders \<Rightarrow>
          (case findCRLF b of
             Some crlf \<Rightarrow> do {
               let line = slice (peek b) crlf (vec b);
               let c = (case find_index (CHR '':'') line of
                          Some colon \<Rightarrow> c\<lparr>ctx_request := addHeader line colon (ctx_request c)\<rparr>
                        | None \<Rightarrow> c\<lparr>ctx_state := kExpectBody\<rparr>);
               b \<leftarrow> retrieveUntil (crlf + 2) b;
               Some (ok, True, c, b) }
           | None \<Rightarrow> Some (ok, False, c, b))
      | kExpectBody \<Rightarrow>
          Some (ok, False,
            c\<lparr>ctx_request := setBody (mem b (peek b) (readableBytes b)) (ctx_request c),
              ctx_state := kGotAll\<rparr>,
            retrieveAll b)
      | kGotAll \<Rightarrow> Some (ok, True, c, b))"

partial_function (option) parse_loop ::
  "int \<Rightarrow> bool \<Rightarrow> http_context \<Rightarrow> buffer \<Rightarrow> (bool \<times> http_context \<times> buffer) option" where
  "parse_loop receiveTime ok c b = do {
     (ok, hasMore, c, b) \<leftarrow> parse_body receiveTime ok c b;
     if hasMore then parse_loop receiveTime ok c b else Some (ok, c, b) }"

definition parseRequest ::
  "int \<Rightarrow> http_context \<Rightarrow> buffer \<Rightarrow> (bool \<times> http_context \<times> buffer) option" where
  "parseRequest receiveTime c b = parse_loop receiveTime True c b"

subsection \<open>The parser on the byte stream\<close>

text \<open>
  The same parser on the list of unread bytes. A context is \<^emph>\<open>ready\<close> when parsing can go
  on: it is not complete, and it expects a request line only with a fresh request, since
  \<open>setMethod\<close> asserts that no method has been set.
\<close>

definition ctx_ready :: "http_context \<Rightarrow> bool" where
  "ctx_ready c \<longleftrightarrow> ctx_state c \<noteq> kGotAll \<and>
     (ctx_state c = kExpectRequestLine \<longrightarrow> req_method (ctx_request c) = kInvalid)"

function parse_bytes ::
  "int \<Rightarrow> bool \<Rightarrow> http_context \<Rightarrow> bytes \<Rightarrow> (bool \<times> http_context \<times> bytes) option" where
  "parse_bytes t ok c xs =
     (case ctx_state c of
        kExpectRequestLine \<Rightarrow>
          (case search_index kCRLF xs of
             Some i \<Rightarrow>
               (case processRequestLine (take i xs) (ctx_request c) of
                  None \<Rightarrow> None
                | Some (ok', r) \<Rightarrow>
                    if ok' then
                      parse_bytes t True
                        (c\<lparr>ctx_request := setReceiveTime t r, ctx_state := kExpectHeaders\<rparr>)
                        (drop (i + 2) xs)
                    else Some (False, c\<lparr>ctx_request := r\<rparr>, xs))
           | None \<Rightarrow> Some (ok, c, xs))
      | kExpectHeaders \<Rightarrow>
          (case search_index kCRLF xs of
             Some i \<Rightarrow>
               parse_bytes t ok
                 (case find_index (CHR '':'') (take i xs) of
                    Some colon \<Rightarrow> c\<lparr>ctx_request := addHeader (take i xs) colon (ctx_request c)\<rparr>
                  | None \<Rightarrow> c\<lparr>ctx_state := kExpectBody\<rparr>)
                 (drop (i + 2) xs)
           | None \<Rightarrow> Some (ok, c, xs))
      | kExpectBody \<Rightarrow>
          Some (ok, c\<lparr>ctx_request := setBody xs (ctx_request c), ctx_state := kGotAll\<rparr>, [])
      | kGotAll \<Rightarrow> None)"
  by pat_completeness auto
termination
  by (relation "measure (\<lambda>(t, ok, c, xs). length xs)")
    (auto dest!: search_index_Some_bound simp: kCRLF_def)

declare parse_bytes.simps [simp del]

subsection \<open>Lemmas on the request line\<close>

lemma setMethod_ok:
  "req_method r = kInvalid \<Longrightarrow> setMethod s r =
     Some (method_of_string s \<noteq> kInvalid, r\<lparr>req_method := method_of_string s\<rparr>)"
  by (simp add: setMethod_def Let_def)

lemma processRequestLine_ok:
  assumes "req_method r = kInvalid"
  shows "\<exists>ok r'. processRequestLine line r = Some (ok, r')"
proof (cases "find_index (CHR '' '') line")
  case None
  then show ?thesis by (intro exI [of _ False]) (simp add: processRequestLine_def)
next
  case (Some sp)
  with assms show ?thesis
    by (auto simp: processRequestLine_def Let_def setMethod_ok split: option.split)
qed

lemma setMethod_known:
  "setMethod s r = Some (True, r') \<Longrightarrow> req_method r = kInvalid \<and> req_method r' \<noteq> kInvalid"
  by (auto simp: setMethod_def Let_def split: if_splits)

lemma processRequestLine_True:
  "processRequestLine line r = Some (True, r') \<Longrightarrow> req_method r' \<noteq> kInvalid"
  by (auto simp: processRequestLine_def Let_def bind_eq_Some_conv setVersion_def setPath_def
      setQuery_def split: option.splits if_splits dest: setMethod_known)

subsection \<open>The buffer parser computes the byte parser\<close>

lemma findCRLF_line:
  assumes wf: "buffer_wf b" and i: "search_index kCRLF (readable b) = Some i"
  shows "findCRLF b = Some (peek b + i)" "slice (peek b) (peek b + i) (vec b) = take i (readable b)"
    "retrieveUntil (peek b + i + 2) b = Some (retrieve (i + 2) b)"
proof -
  have le: "i + 2 \<le> length (readable b)"
    using search_index_Some_bound [OF i] by (simp add: kCRLF_def)
  show "findCRLF b = Some (peek b + i)" using i by (simp add: findCRLF_eq [OF wf])
  show "slice (peek b) (peek b + i) (vec b) = take i (readable b)"
    using mem_readable [OF wf, of i] le by (simp add: mem_def)
  show "retrieveUntil (peek b + i + 2) b = Some (retrieve (i + 2) b)"
    using retrieveUntil_eq [OF wf le] by (simp add: add.assoc)
qed

lemma findCRLF_absent: "buffer_wf b \<Longrightarrow> search_index kCRLF (readable b) = None \<Longrightarrow> findCRLF b = None"
  by (simp add: findCRLF_eq)

lemma parse_loop_in_body:
  assumes "buffer_wf b" "ctx_state c = kExpectBody"
  shows "parse_loop t ok c b = Some (ok, c\<lparr>ctx_request := setBody (readable b) (ctx_request c), ctx_state := kGotAll\<rparr>, retrieveAll b)"
    "buffer_wf (retrieveAll b)" "readable (retrieveAll b) = []" "has_room b n \<Longrightarrow> has_room (retrieveAll b) n"
proof -
  have "mem b (peek b) (readableBytes b) = readable b" using toStringView_readable [OF assms(1)] by (simp add: toStringView_def)
  then show "parse_loop t ok c b = Some (ok, c\<lparr>ctx_request := setBody (readable b) (ctx_request c), ctx_state := kGotAll\<rparr>, retrieveAll b)"
    using assms(2) by (simp add: parse_loop.simps [of t ok c b] parse_body_def)
  show "buffer_wf (retrieveAll b)" "readable (retrieveAll b) = []" using assms(1) by (auto simp: retrieveAll_wf)
  show "has_room b n \<Longrightarrow> has_room (retrieveAll b) n"
    using assms(1) buffer_wfD(1) [OF assms(1)] by (auto simp: has_room_def retrieveAll_wf) (simp add: retrieveAll_def)
qed

lemma parse_loop_no_line:
  assumes "buffer_wf b" "search_index kCRLF (readable b) = None" "ctx_state c = kExpectRequestLine \<or> ctx_state c = kExpectHeaders"
  shows "parse_loop t ok c b = Some (ok, c, b)"
  using findCRLF_absent [OF assms(1,2)] assms(3) by (elim disjE) (simp_all add: parse_loop.simps [of t ok c b] parse_body_def)

lemma parse_loop_bytes:
  assumes "buffer_wf b" and "xs = readable b" and "parse_bytes t ok c xs = Some (ok', c', rest)"
  shows "\<exists>b'. parse_loop t ok c b = Some (ok', c', b') \<and> buffer_wf b' \<and> readable b' = rest \<and>
    (\<forall>n. has_room b n \<longrightarrow> has_room b' n)"
  using assms
proof (induction t ok c xs arbitrary: b rule: parse_bytes.induct)
  case (1 t ok c xs)
  note wf = "1.prems"(1) and xs = "1.prems"(2)
  note res = "1.prems"(3) [unfolded parse_bytes.simps [of t ok c xs]]
  note loop = parse_loop.simps [of t ok c b] parse_body_def
  consider (body) "ctx_state c = kExpectBody" | (all) "ctx_state c = kGotAll"
    | (none) "search_index kCRLF xs = None" "ctx_state c = kExpectRequestLine \<or> ctx_state c = kExpectHeaders"
    | (line) i where "search_index kCRLF xs = Some i" "ctx_state c = kExpectRequestLine \<or> ctx_state c = kExpectHeaders"
    by (cases "ctx_state c"; cases "search_index kCRLF xs") auto
  then show ?case
  proof cases
    case body
    then show ?thesis using parse_loop_in_body [OF wf body] res xs by auto
  next
    case all
    then show ?thesis using res by simp
  next
    case none
    moreover have "ok' = ok" "c' = c" "rest = xs" using res none by auto
    ultimately show ?thesis using parse_loop_no_line [OF wf] wf xs by auto
  next
    case (line i)
    note i = line(1) and line' = findCRLF_line [OF wf, of i, folded xs, OF line(1)]
    let ?b' = "retrieve (i + 2) b"
    have b': "buffer_wf ?b'" "drop (i + 2) xs = readable ?b'" "\<And>n. has_room b n \<Longrightarrow> has_room ?b' n"
      using wf xs by (simp_all add: buf.get_invar buf.get_content buf.get_room)
    from line(2) show ?thesis
    proof
      assume s: "ctx_state c = kExpectHeaders"
      with "1.IH"(2) [OF s i b'(1,2)] res i line' b' show ?thesis by (auto simp: loop Let_def)
    next
      assume s: "ctx_state c = kExpectRequestLine"
      obtain k r where p: "processRequestLine (take i xs) (ctx_request c) = Some (k, r)" using res s i by (auto split: option.splits)
      show ?thesis
        using "1.IH"(1) [OF s i p refl _ b'(1,2)] res s i p line' b' wf xs by (cases k) (auto simp: loop)
    qed
  qed
qed

text \<open>On a complete context the loop has no exit: \<open>parseRequest\<close> does not return.\<close>

lemma parse_loop_gotAll: "parse_loop t ok c b = Some r \<Longrightarrow> ctx_state c \<noteq> kGotAll"
proof (rule parse_loop.raw_induct [where P = "\<lambda>t ok c b r. ctx_state c \<noteq> kGotAll"])
  fix f :: "int \<Rightarrow> bool \<Rightarrow> http_context \<Rightarrow> buffer \<Rightarrow> (bool \<times> http_context \<times> buffer) option"
    and t ok c b r
  assume IH: "\<And>t ok c b r. f t ok c b = Some r \<Longrightarrow> ctx_state c \<noteq> kGotAll"
    and eq: "parse_body t ok c b \<bind>
      (\<lambda>(ok, hasMore, c, b). if hasMore then f t ok c b else Some (ok, c, b)) = Some r"
  show "ctx_state c \<noteq> kGotAll"
    using eq IH [of t ok c b r] by (cases r) (auto simp: parse_body_def)
qed

subsection \<open>Totality and incremental parsing\<close>

lemma parse_bytes_total: "ctx_ready c \<Longrightarrow> \<exists>ok' c' rest. parse_bytes t ok c xs = Some (ok', c', rest)"
proof (induction t ok c xs rule: parse_bytes.induct)
  case (1 t ok c xs)
  note eq = parse_bytes.simps [of t ok c xs]
  show ?case
  proof (cases "ctx_state c")
    case kExpectRequestLine
    then have m: "req_method (ctx_request c) = kInvalid" using "1.prems" by (simp add: ctx_ready_def)
    show ?thesis
    proof (cases "search_index kCRLF xs")
      case (Some i)
      obtain k r where p: "processRequestLine (take i xs) (ctx_request c) = Some (k, r)"
        using processRequestLine_ok [OF m] by blast
      with "1.IH"(1) [OF kExpectRequestLine Some p refl] Some kExpectRequestLine show ?thesis
        by (cases k) (auto simp: eq ctx_ready_def)
    qed (simp add: eq kExpectRequestLine)
  next
    case kExpectHeaders
    with "1.IH"(2) [OF kExpectHeaders] show ?thesis
      by (cases "search_index kCRLF xs") (auto simp: eq ctx_ready_def split: option.splits)
  qed (use "1.prems" in \<open>auto simp: eq ctx_ready_def\<close>)
qed

lemma parse_bytes_append:
  "parse_bytes t ok c xs = Some (True, c', rest) \<Longrightarrow> ctx_state c' \<noteq> kGotAll \<Longrightarrow>
     parse_bytes t ok c (xs @ ys) = parse_bytes t True c' (rest @ ys)"
proof (induction t ok c xs rule: parse_bytes.induct)
  case (1 t ok c xs)
  note res = "1.prems"(1) [unfolded parse_bytes.simps [of t ok c xs]]
  note eq = parse_bytes.simps [of t ok c "xs @ ys"]
  show ?case
  proof (cases "search_index kCRLF xs")
    case None
    then have "ok" "c' = c" "rest = xs"
      using res "1.prems"(2) by (auto split: parse_state.splits)
    then show ?thesis by simp
  next
    case (Some i)
    have i: "search_index kCRLF (xs @ ys) = Some i" using Some by (rule search_index_append)
    have le: "i + 2 \<le> length xs" using search_index_Some_bound [OF Some] by (simp add: kCRLF_def)
    have t: "take i (xs @ ys) = take i xs" "drop (i + 2) (xs @ ys) = drop (i + 2) xs @ ys"
      using le by simp_all
    show ?thesis
    proof (cases "ctx_state c")
      case kExpectRequestLine
      then obtain k r where p: "processRequestLine (take i xs) (ctx_request c) = Some (k, r)"
        using res Some by (auto split: option.splits)
      with res Some kExpectRequestLine have k: "k" by (auto split: if_splits)
      from "1.IH"(1) [OF kExpectRequestLine Some p refl k] res Some kExpectRequestLine p k "1.prems"(2)
      show ?thesis unfolding eq i option.case t by simp
    next
      case kExpectHeaders
      from "1.IH"(2) [OF kExpectHeaders Some] res Some kExpectHeaders "1.prems"(2)
      show ?thesis unfolding eq i option.case t by simp
    qed (use res "1.prems"(2) in auto)
  qed
qed

subsection \<open>Parsing a printed request\<close>

lemma search_CRLF_line:
  "CHR 0x0D \<notin> set line \<Longrightarrow> search_index kCRLF (line @ kCRLF @ rest) = Some (length line)"
  by (induction line) (auto simp: kCRLF_def)

lemma find_index_append: "c \<notin> set xs \<Longrightarrow> find_index c (xs @ c # ys) = Some (length xs)"
  by (induction xs) auto

lemma find_index_absent: "c \<notin> set xs \<Longrightarrow> find_index c xs = None"
  by (simp add: find_index_None)

fun versionToString :: "http_version \<Rightarrow> string" where
  "versionToString kHttp1_1 = ''HTTP/1.1''"
| "versionToString kHttp1_0 = ''HTTP/1.0''"
| "versionToString kUnknown = []"

definition request_line :: "http_method \<Rightarrow> string \<Rightarrow> string \<Rightarrow> http_version \<Rightarrow> string" where
  "request_line m path query v =
     methodToString m @ '' '' @ path @ query @ '' '' @ versionToString v"

definition header_line :: "string \<times> string \<Rightarrow> string" where
  "header_line h = fst h @ '':'' @ snd h"

definition print_request ::
  "http_method \<Rightarrow> string \<Rightarrow> string \<Rightarrow> http_version \<Rightarrow> (string \<times> string) list \<Rightarrow> string \<Rightarrow> string" where
  "print_request m path query v hs body =
     request_line m path query v @ kCRLF @ concat (map (\<lambda>h. header_line h @ kCRLF) hs) @ kCRLF @ body"

text \<open>A target the request line can carry; a query is empty or starts with a question mark.\<close>

definition clean :: "string \<Rightarrow> bool" where
  "clean s \<longleftrightarrow> CHR 0x0D \<notin> set s"

definition target_ok :: "string \<Rightarrow> string \<Rightarrow> bool" where
  "target_ok path query \<longleftrightarrow> clean path \<and> clean query \<and> CHR '' '' \<notin> set path \<and> CHR '' '' \<notin> set query \<and>
     CHR ''?'' \<notin> set path \<and> (query \<noteq> [] \<longrightarrow> hd query = CHR ''?'')"

definition header_ok :: "string \<times> string \<Rightarrow> bool" where
  "header_ok h \<longleftrightarrow> clean (fst h) \<and> clean (snd h) \<and> CHR '':'' \<notin> set (fst h)"

definition stored_value :: "string \<Rightarrow> string" where
  "stored_value v = trim_right (skip_loop v)"

lemma methodToString_facts:
  "m \<noteq> kInvalid \<Longrightarrow> method_of_string (methodToString m) = m \<and> CHR '' '' \<notin> set (methodToString m) \<and>
     clean (methodToString m)"
  by (cases m) (simp_all add: method_of_string_def clean_def)

lemma processRequestLine_print:
  assumes m: "m \<noteq> kInvalid" and v: "v \<noteq> kUnknown" and t: "target_ok path query"
    and r: "req_method r = kInvalid" "req_query r = []"
  shows "processRequestLine (request_line m path query v) r =
    Some (True, r\<lparr>req_method := m, req_path := path, req_query := query, req_version := v\<rparr>)"
proof -
  let ?ms = "methodToString m" and ?vs = "versionToString v" and ?tg = "path @ query"
  note mf = methodToString_facts [OF m]
  have line: "request_line m path query v = ?ms @ CHR '' '' # (?tg @ CHR '' '' # ?vs)"
    by (simp add: request_line_def)
  have f1: "find_index (CHR '' '') (request_line m path query v) = Some (length ?ms)"
    unfolding line using mf by (intro find_index_append) simp
  have f2: "find_index (CHR '' '') (?tg @ CHR '' '' # ?vs) = Some (length ?tg)"
    using t by (intro find_index_append) (simp add: target_ok_def)
  have ver: "length ?vs = 8 \<and> take 7 ?vs = ''HTTP/1.''" using v by (cases v) simp_all
  have q: "(case find_index (CHR ''?'') ?tg of
      Some q \<Rightarrow> setQuery (drop q ?tg) (setPath (take q ?tg) r') | None \<Rightarrow> setPath ?tg r') =
      r'\<lparr>req_path := path, req_query := query\<rparr>" if "req_query r' = []" for r'
  proof (cases query)
    case Nil
    then have "find_index (CHR ''?'') ?tg = None"
      using t by (simp add: find_index_absent target_ok_def)
    with Nil that show ?thesis by (simp add: setPath_def)
  next
    case (Cons a q')
    then have "find_index (CHR ''?'') ?tg = Some (length path)"
      using t find_index_append [of "CHR ''?''" path q'] by (simp add: target_ok_def)
    with Cons show ?thesis by (simp add: setPath_def setQuery_def)
  qed
  have "drop (length ?ms + 1) (request_line m path query v) = ?tg @ CHR '' '' # ?vs"
    unfolding line by simp
  moreover have "take (length ?ms) (request_line m path query v) = ?ms" unfolding line by simp
  moreover have "take (length ?tg) (?tg @ CHR '' '' # ?vs) = ?tg"
    "drop (length ?tg + 1) (?tg @ CHR '' '' # ?vs) = ?vs" by simp_all
  ultimately show ?thesis
    using f1 f2 ver q [of "r\<lparr>req_method := m\<rparr>"] m mf r v
    by (cases v) (simp_all add: processRequestLine_def setMethod_ok Let_def setVersion_def del: append_assoc)
qed

lemma parse_headers_print:
  "ctx_state c = kExpectHeaders \<Longrightarrow> list_all header_ok hs \<Longrightarrow>
     parse_bytes t True c (concat (map (\<lambda>h. header_line h @ kCRLF) hs) @ kCRLF @ body) =
       Some (True, c\<lparr>ctx_state := kGotAll,
         ctx_request := setBody body ((ctx_request c)\<lparr>req_headers :=
           foldl (\<lambda>m h. m(fst h \<mapsto> stored_value (snd h))) (req_headers (ctx_request c)) hs\<rparr>)\<rparr>, [])"
proof (induction hs arbitrary: c)
  case Nil
  let ?c = "c\<lparr>ctx_state := kExpectBody\<rparr>"
  have "search_index kCRLF (kCRLF @ body) = Some 0" by (simp add: kCRLF_def)
  then have "parse_bytes t True c (kCRLF @ body) = parse_bytes t True ?c body"
    using Nil by (simp add: parse_bytes.simps [of t True c]) (simp add: kCRLF_def)
  then show ?case by (simp add: parse_bytes.simps [of t True ?c])
next
  case (Cons h hs)
  let ?l = "header_line h" and ?rest = "concat (map (\<lambda>h. header_line h @ kCRLF) hs) @ kCRLF @ body"
  let ?c = "c\<lparr>ctx_request := addHeader ?l (length (fst h)) (ctx_request c)\<rparr>"
  have h: "header_ok h" "list_all header_ok hs" using Cons.prems(2) by simp_all
  have "CHR 0x0D \<notin> set ?l" using h(1) by (simp add: header_ok_def header_line_def clean_def)
  then have i: "search_index kCRLF (?l @ kCRLF @ ?rest) = Some (length ?l)" by (rule search_CRLF_line)
  have colon: "find_index (CHR '':'') ?l = Some (length (fst h))"
    using h(1) find_index_append [of "CHR '':''" "fst h" "snd h"]
    by (simp add: header_ok_def header_line_def)
  have "drop (length ?l + 2) (?l @ kCRLF @ ?rest) = ?rest" by (simp add: kCRLF_def)
  then have "parse_bytes t True c (?l @ kCRLF @ ?rest) = parse_bytes t True ?c ?rest"
    unfolding parse_bytes.simps [of t True c "?l @ kCRLF @ ?rest"]
    using Cons.prems(1) i colon by simp
  moreover have "addHeader ?l (length (fst h)) (ctx_request c) = (ctx_request c)\<lparr>req_headers :=
      (req_headers (ctx_request c))(fst h \<mapsto> stored_value (snd h))\<rparr>"
    by (simp add: addHeader_def header_line_def stored_value_def)
  ultimately show ?case
    using Cons.IH [of ?c] Cons.prems(1) h(2) by (simp add: setBody_def)
qed

text \<open>The request object the parser builds for a printed request.\<close>

definition parsed_request ::
  "int \<Rightarrow> http_method \<Rightarrow> string \<Rightarrow> string \<Rightarrow> http_version \<Rightarrow> (string \<times> string) list \<Rightarrow> string \<Rightarrow> http_request"
where
  "parsed_request t m path query v hs body =
     \<lparr>req_method = m, req_version = v, req_path = path, req_query = query, req_receiveTime = t,
      req_headers = foldl (\<lambda>mp h. mp(fst h \<mapsto> stored_value (snd h))) Map.empty hs, req_body = body\<rparr>"

lemma parse_bytes_print:
  assumes "m \<noteq> kInvalid" and "v \<noteq> kUnknown" and "target_ok path query" and "list_all header_ok hs"
  shows "parse_bytes t True HttpContext_ctor (print_request m path query v hs body) =
    Some (True, \<lparr>ctx_state = kGotAll, ctx_request = parsed_request t m path query v hs body\<rparr>, [])"
proof -
  let ?l = "request_line m path query v"
  let ?rest = "concat (map (\<lambda>h. header_line h @ kCRLF) hs) @ kCRLF @ body"
  have "CHR 0x0D \<notin> set ?l"
    using methodToString_facts [OF assms(1)] assms(3)
    by (cases v) (simp_all add: request_line_def target_ok_def clean_def)
  then have i: "search_index kCRLF (?l @ kCRLF @ ?rest) = Some (length ?l)" by (rule search_CRLF_line)
  have p: "processRequestLine ?l HttpRequest_ctor = Some (True, HttpRequest_ctor
      \<lparr>req_method := m, req_path := path, req_query := query, req_version := v\<rparr>)"
    using assms by (intro processRequestLine_print) (simp_all add: HttpRequest_ctor_def)
  have d: "drop (length ?l + 2) (?l @ kCRLF @ ?rest) = ?rest" by (simp add: kCRLF_def)
  have tk: "take (length ?l) (?l @ kCRLF @ ?rest) = ?l" by simp
  have "parse_bytes t True HttpContext_ctor (?l @ kCRLF @ ?rest) =
      parse_bytes t True \<lparr>ctx_state = kExpectHeaders, ctx_request = setReceiveTime t
        (HttpRequest_ctor\<lparr>req_method := m, req_path := path, req_query := query, req_version := v\<rparr>)\<rparr> ?rest"
    unfolding parse_bytes.simps [of t True HttpContext_ctor "?l @ kCRLF @ ?rest"] i
    by (simp only: option.case tk d) (simp add: HttpContext_ctor_def p)
  then show ?thesis
    using assms(4) by (simp add: print_request_def parse_headers_print setBody_def setReceiveTime_def
        HttpRequest_ctor_def parsed_request_def)
qed

subsection \<open>Outcomes of a parse, and what later bytes can change\<close>

definition line_ctx :: "int \<Rightarrow> http_request \<Rightarrow> http_context \<Rightarrow> http_context" where
  "line_ctx t r c = c\<lparr>ctx_request := setReceiveTime t r, ctx_state := kExpectHeaders\<rparr>"

definition header_ctx :: "string \<Rightarrow> http_context \<Rightarrow> http_context" where
  "header_ctx line c =
     (case find_index (CHR '':'') line of
        Some colon \<Rightarrow> c\<lparr>ctx_request := addHeader line colon (ctx_request c)\<rparr>
      | None \<Rightarrow> c\<lparr>ctx_state := kExpectBody\<rparr>)"

lemma parse_bytes_cases [consumes 1, case_names stop bad line header body]:
  assumes "parse_bytes t ok c xs = Some (ok', c', rest)"
  obtains "search_index kCRLF xs = None" "ctx_state c \<in> {kExpectRequestLine, kExpectHeaders}"
      "ok' = ok" "c' = c" "rest = xs"
  | i r where "search_index kCRLF xs = Some i" "ctx_state c = kExpectRequestLine"
      "processRequestLine (take i xs) (ctx_request c) = Some (False, r)" "\<not> ok'"
  | i r where "search_index kCRLF xs = Some i" "ctx_state c = kExpectRequestLine"
      "processRequestLine (take i xs) (ctx_request c) = Some (True, r)"
      "parse_bytes t True (line_ctx t r c) (drop (i + 2) xs) = Some (ok', c', rest)"
  | i where "search_index kCRLF xs = Some i" "ctx_state c = kExpectHeaders"
      "parse_bytes t ok (header_ctx (take i xs) c) (drop (i + 2) xs) = Some (ok', c', rest)"
  | "ctx_state c = kExpectBody" "ok' = ok" "rest = []"
      "c' = c\<lparr>ctx_request := setBody xs (ctx_request c), ctx_state := kGotAll\<rparr>"
  using assms unfolding parse_bytes.simps [of t ok c xs]
  by (auto simp: line_ctx_def header_ctx_def split: parse_state.splits option.splits if_splits)

lemma parse_bytes_line:
  "search_index kCRLF xs = Some i \<Longrightarrow> ctx_state c = kExpectRequestLine \<Longrightarrow>
     processRequestLine (take i xs) (ctx_request c) = Some (k, r) \<Longrightarrow>
     parse_bytes t ok c xs = (if k then parse_bytes t True (line_ctx t r c) (drop (i + 2) xs)
       else Some (False, c\<lparr>ctx_request := r\<rparr>, xs))"
  by (simp add: parse_bytes.simps [of t ok c xs] line_ctx_def)

lemma parse_bytes_header:
  "search_index kCRLF xs = Some i \<Longrightarrow> ctx_state c = kExpectHeaders \<Longrightarrow>
     parse_bytes t ok c xs = parse_bytes t ok (header_ctx (take i xs) c) (drop (i + 2) xs)"
  by (simp add: parse_bytes.simps [of t ok c xs] header_ctx_def)

lemma header_ctx_ready: "ctx_state c = kExpectHeaders \<Longrightarrow> ctx_ready (header_ctx l c)"
  by (simp add: header_ctx_def ctx_ready_def split: option.split)

lemma line_ctx_ready: "ctx_ready (line_ctx t r c)"
  by (simp add: line_ctx_def ctx_ready_def)

lemma search_CRLF_append:
  assumes "search_index kCRLF xs = Some i"
  shows "search_index kCRLF (xs @ ys) = Some i" "take i (xs @ ys) = take i xs"
    "drop (i + 2) (xs @ ys) = drop (i + 2) xs @ ys"
  using search_index_append [OF assms] search_index_Some_bound [OF assms] by (auto simp: kCRLF_def)

lemma parse_bytes_line_append:
  "search_index kCRLF xs = Some i \<Longrightarrow> ctx_state c = kExpectRequestLine \<Longrightarrow>
     processRequestLine (take i xs) (ctx_request c) = Some (k, r) \<Longrightarrow>
     parse_bytes t ok c (xs @ ys) = (if k then parse_bytes t True (line_ctx t r c) (drop (i + 2) xs @ ys)
       else Some (False, c\<lparr>ctx_request := r\<rparr>, xs @ ys))"
  by (simp only: parse_bytes_line [OF search_CRLF_append(1)] search_CRLF_append(2,3))

lemma parse_bytes_header_append:
  "search_index kCRLF xs = Some i \<Longrightarrow> ctx_state c = kExpectHeaders \<Longrightarrow>
     parse_bytes t ok c (xs @ ys) = parse_bytes t ok (header_ctx (take i xs) c) (drop (i + 2) xs @ ys)"
  by (simp only: parse_bytes_header [OF search_CRLF_append(1)] search_CRLF_append(2,3))

lemma search_CRLF_shorter: "search_index kCRLF xs = Some i \<Longrightarrow> length (drop (i + 2) xs) < length xs"
  using search_index_Some_bound [of kCRLF xs i] by (auto simp: kCRLF_def)

lemma parse_bytes_outcome:
  "ctx_ready c \<Longrightarrow> parse_bytes t ok c xs = Some (True, c', rest) \<Longrightarrow> ctx_ready c' \<or> (gotAll c' \<and> rest = [])"
proof (induction "length xs" arbitrary: ok c xs rule: less_induct)
  case less
  from less.prems(2) show ?case
  proof (cases rule: parse_bytes_cases)
    case (line i r)
    from less.hyps [OF search_CRLF_shorter [OF line(1)] line_ctx_ready line(4)] show ?thesis .
  next
    case (header i)
    from less.hyps [OF search_CRLF_shorter [OF header(1)] header_ctx_ready [OF header(2)] header(3)]
    show ?thesis .
  qed (use less.prems(1) in \<open>auto simp: gotAll_def\<close>)
qed

lemma parse_bytes_False_append:
  "parse_bytes t ok c xs = Some (False, c', rest) \<Longrightarrow> ok \<Longrightarrow>
     \<exists>c' rest. parse_bytes t ok c (xs @ ys) = Some (False, c', rest)"
proof (induction "length xs" arbitrary: ok c xs rule: less_induct)
  case less
  from less.prems(1) show ?case
  proof (cases rule: parse_bytes_cases)
    case (bad i r)
    show ?thesis using bad by (simp add: parse_bytes_line_append [OF bad(1-3)])
  next
    case (line i r)
    show ?thesis
      using line less.hyps [OF search_CRLF_shorter [OF line(1)] line(4)] by (simp add: parse_bytes_line_append [OF line(1-3)])
  next
    case (header i)
    show ?thesis
      using header less.hyps [OF search_CRLF_shorter [OF header(1)] header(3) less.prems(2)]
      by (simp add: parse_bytes_header_append [OF header(1,2)])
  qed (use less.prems(2) in auto)
qed

lemma parse_bytes_gotAll_append:
  "parse_bytes t ok c xs = Some (ok', c', rest) \<Longrightarrow> ctx_state c' = kGotAll \<Longrightarrow>
     \<exists>zs. req_body (ctx_request c') = zs \<and>
       parse_bytes t ok c (xs @ ys) = Some (ok', c'\<lparr>ctx_request := setBody (zs @ ys) (ctx_request c')\<rparr>, [])"
proof (induction "length xs" arbitrary: ok c xs rule: less_induct)
  case less
  from less.prems(1) show ?case
  proof (cases rule: parse_bytes_cases)
    case (line i r)
    show ?thesis
      using line less.hyps [OF search_CRLF_shorter [OF line(1)] line(4) less.prems(2)] by (simp add: parse_bytes_line_append [OF line(1-3)])
  next
    case (header i)
    show ?thesis
      using header less.hyps [OF search_CRLF_shorter [OF header(1)] header(3) less.prems(2)]
      by (simp add: parse_bytes_header_append [OF header(1,2)])
  next
    case (bad i r)
    show ?thesis using less.prems bad by (auto simp: parse_bytes_line [OF bad(1)])
  next
    case body
    then show ?thesis by (simp add: parse_bytes.simps [of t ok c] setBody_def)
  qed (use less.prems(2) in auto)
qed

subsection \<open>A request arriving in pieces\<close>

text \<open>Each piece is appended to the input buffer and parsed, as \<open>HttpServer::onMessage\<close> does.\<close>

fun http_feed ::
  "int \<Rightarrow> bytes list \<Rightarrow> http_context \<Rightarrow> buffer \<Rightarrow> (bool \<times> http_context \<times> buffer) option" where
  "http_feed t [] c b = Some (True, c, b)"
| "http_feed t (d # ds) c b = do {
     b \<leftarrow> Buffer_append d b;
     (ok, c, b) \<leftarrow> parseRequest t c b;
     if ok then http_feed t ds c b else Some (False, c, b) }"

definition header_part :: "http_method \<Rightarrow> string \<Rightarrow> string \<Rightarrow> http_version \<Rightarrow> (string \<times> string) list \<Rightarrow> string" where
  "header_part m path query v hs =
     request_line m path query v @ kCRLF @ concat (map (\<lambda>h. header_line h @ kCRLF) hs) @ kCRLF"

lemma print_request_parts: "print_request m path query v hs body = header_part m path query v hs @ body"
  by (simp add: print_request_def header_part_def)

lemma parseRequest_bytes:
  assumes "buffer_wf b" and "parse_bytes t True c (readable b) = Some (ok', c', rest)"
  shows "\<exists>b'. parseRequest t c b = Some (ok', c', b') \<and> buffer_wf b' \<and> readable b' = rest \<and>
    (\<forall>n. has_room b n \<longrightarrow> has_room b' n)"
  using parse_loop_bytes [OF assms(1) refl assms(2)] by (simp add: parseRequest_def)

text \<open>A strict prefix of what parses to a complete request with an empty body leaves the parser waiting.\<close>

lemma parse_bytes_prefix:
  assumes ready: "ctx_ready c" and all: "parse_bytes t True c (xs @ ys) = Some (True, c', [])"
    and body: "req_body (ctx_request c') = []" and ys: "ys \<noteq> []"
  shows "\<exists>c1 rest. parse_bytes t True c xs = Some (True, c1, rest) \<and> ctx_ready c1 \<and>
    parse_bytes t True c1 (rest @ zs) = parse_bytes t True c (xs @ zs)"
proof -
  obtain ok1 c1 rest where p: "parse_bytes t True c xs = Some (ok1, c1, rest)"
    using parse_bytes_total [OF ready] by blast
  have ok: "ok1" using parse_bytes_False_append [of t True c xs c1 rest ys] p all by (cases ok1) auto
  have "ctx_state c1 \<noteq> kGotAll"
  proof
    assume "ctx_state c1 = kGotAll"
    from parse_bytes_gotAll_append [OF p this, of ys] all body ys show False
      by (auto simp: setBody_def)
  qed
  with p ok show ?thesis
    using parse_bytes_outcome [OF ready, of t True xs c1 rest]
      parse_bytes_append [of t True c xs c1 rest zs] by (auto simp: gotAll_def)
qed

lemma http_feed_header:
  assumes "ctx_ready c" and "parse_bytes t True c (readable b @ h) = Some (True, c', [])"
    and "gotAll c'" and "req_body (ctx_request c') = []"
    and "buffer_wf b" and "has_room b (length (concat ds @ d))"
    and "concat ds @ d = h @ body" and "length (concat ds) < length h"
  shows "\<exists>b'. http_feed t (ds @ [d]) c b =
      Some (True, c'\<lparr>ctx_request := setBody body (ctx_request c')\<rparr>, b') \<and> buffer_wf b' \<and> readable b' = [] \<and>
      (\<forall>k. has_room b (length (concat ds @ d) + k) \<longrightarrow> has_room b' k)"
  using assms
proof (induction ds arbitrary: c b h)
  case Nil
  from Nil.prems(5,6) obtain b1 where b1: "Buffer_append d b = Some b1" "buffer_wf b1"
    "readable b1 = readable b @ d" using buf.put_ok [of b d] by auto
  have "parse_bytes t True c (readable b1) =
      Some (True, c'\<lparr>ctx_request := setBody body (ctx_request c')\<rparr>, [])"
    using parse_bytes_gotAll_append [OF Nil.prems(2), of body] Nil.prems(3,4,7) b1(3)
    by (simp add: gotAll_def)
  from parseRequest_bytes [OF b1(2) this] b1(1) show ?case
    using buf.put_room [OF Nil.prems(5) _ b1(1)] by auto
next
  case (Cons e ds)
  have "e @ concat ds @ d = h @ body" "length e < length h" using Cons.prems(7,8) by simp_all
  then obtain h' where h': "h = e @ h'" "concat ds @ d = h' @ body"
    by (auto simp: append_eq_append_conv2)
  then have ne: "h' \<noteq> []" and short: "length (concat ds) < length h'" using Cons.prems(8) by auto
  have e: "has_room b (length e)" using Cons.prems(6) by (simp add: has_room_def)
  from buf.put_ok [OF Cons.prems(5) e] obtain b1 where b1: "Buffer_append e b = Some b1" "buffer_wf b1"
    "readable b1 = readable b @ e" by blast
  have r1: "has_room b1 (length (concat ds @ d))"
    using buf.put_room [OF Cons.prems(5) _ b1(1), of "length (concat ds @ d)"] Cons.prems(6) by simp
  have "parse_bytes t True c (readable b1 @ h') = Some (True, c', [])"
    using Cons.prems(2) b1(3) h'(1) by simp
  from parse_bytes_prefix [OF Cons.prems(1) this Cons.prems(4) ne, of h'] this
  obtain c1 rest where c1: "parse_bytes t True c (readable b1) = Some (True, c1, rest)" "ctx_ready c1"
    "parse_bytes t True c1 (rest @ h') = Some (True, c', [])" by auto
  from parseRequest_bytes [OF b1(2) c1(1)] obtain b2 where b2: "parseRequest t c b1 = Some (True, c1, b2)"
    "buffer_wf b2" "readable b2 = rest" "\<And>n. has_room b1 n \<Longrightarrow> has_room b2 n" by blast
  have p2: "parse_bytes t True c1 (readable b2 @ h') = Some (True, c', [])" using c1(3) b2(3) by simp
  from Cons.IH [OF c1(2) p2 Cons.prems(3,4) b2(2) b2(4) [OF r1] h'(2) short] show ?case
    using b1(1) b2(1,4) buf.put_room [OF Cons.prems(5) _ b1(1)] by (auto simp: add.assoc)
qed

text \<open>A request of the printed form that arrives in pieces.\<close>

lemma http_feed_pieces:
  assumes "m \<noteq> kInvalid" and "v \<noteq> kUnknown" and "target_ok path query" and "list_all header_ok hs"
    and "concat (chunks @ [last_chunk]) = print_request m path query v hs body"
    and "length (concat chunks) < length (header_part m path query v hs)"
    and "8 + length (concat (chunks @ [last_chunk])) \<le> max_size"
  shows "\<exists>b'. http_feed t (chunks @ [last_chunk]) HttpContext_ctor empty_buffer =
      Some (True, \<lparr>ctx_state = kGotAll, ctx_request = parsed_request t m path query v hs body\<rparr>, b') \<and>
    buffer_wf b' \<and> readableBytes b' = 0"
proof -
  let ?c = "\<lparr>ctx_state = kGotAll, ctx_request = parsed_request t m path query v hs []\<rparr>"
  have p: "parse_bytes t True HttpContext_ctor (readable empty_buffer @ header_part m path query v hs) =
      Some (True, ?c, [])"
    using parse_bytes_print [OF assms(1-4), of t "[]"] by (simp add: print_request_parts)
  have ready: "ctx_ready HttpContext_ctor"
    by (simp add: ctx_ready_def HttpContext_ctor_def HttpRequest_ctor_def)
  have room: "has_room empty_buffer (length (concat chunks @ last_chunk))"
    using assms(7) by (simp add: has_room_def empty_buffer_def)
  have c: "gotAll ?c" "req_body (ctx_request ?c) = []" by (simp_all add: gotAll_def parsed_request_def)
  have "concat chunks @ last_chunk = header_part m path query v hs @ body"
    using assms(5) by (simp add: print_request_parts)
  from http_feed_header [OF ready p c empty_buffer_wf room this assms(6)] show ?thesis
    by (auto simp: setBody_def parsed_request_def readableBytes_length)
qed

subsection \<open>Properties\<close>

text \<open>
  The part of a header's text (what stands behind the colon) that is kept as its value: it starts at the first white space and ends
  before the trailing white space; without white space, or with nothing but white space from there on, it is empty.
\<close>

definition kept_value :: "string \<Rightarrow> string \<Rightarrow> bool" where
  "kept_value text val \<longleftrightarrow> (\<exists>lead trail. text = lead @ val @ trail \<and> (\<forall>c \<in> set lead. \<not> isspace c) \<and> (\<forall>c \<in> set trail. isspace c) \<and>
     (val = [] \<or> isspace (hd val) \<and> \<not> isspace (last val)))"

lemma skip_loop_dropWhile: "skip_loop w = dropWhile (\<lambda>c. \<not> isspace c) w"
  by (induction w) simp_all

lemma trim_right_append: "\<forall>c \<in> set trail. isspace c \<Longrightarrow> val = [] \<or> \<not> isspace (last val) \<Longrightarrow> trim_right (val @ trail) = val"
  by (cases "val" rule: rev_cases) (simp_all add: trim_right_def dropWhile_append)

lemma kept_value_stored: "kept_value w val \<longleftrightarrow> val = stored_value w"
proof
  assume "kept_value w val"
  then obtain lead trail where w: "w = lead @ val @ trail" "\<forall>c \<in> set lead. \<not> isspace c" "\<forall>c \<in> set trail. isspace c"
    "val = [] \<or> isspace (hd val) \<and> \<not> isspace (last val)" by (auto simp: kept_value_def)
  have "skip_loop w = val @ trail"
    using w by (cases "val"; cases trail) (auto simp: skip_loop_dropWhile dropWhile_append)
  then show "val = stored_value w" using w(3,4) trim_right_append [of trail "val"] by (auto simp: stored_value_def)
next
  assume v: "val = stored_value w"
  let ?lead = "takeWhile (\<lambda>c. \<not> isspace c) w" and ?s = "skip_loop w" and ?trail = "rev (takeWhile isspace (rev (skip_loop w)))"
  have s: "?s = val @ ?trail"
    unfolding v stored_value_def trim_right_def by (metis rev_append rev_rev_ident takeWhile_dropWhile_id)
  have w: "w = ?lead @ ?s" by (simp add: skip_loop_dropWhile)
  have "val = [] \<or> isspace (hd val) \<and> \<not> isspace (last val)"
  proof (cases "val = []")
    case False
    have "?s \<noteq> []" using False s by (metis append_is_Nil_conv)
    then have "isspace (hd ?s)" using hd_dropWhile [of "\<lambda>c. \<not> isspace c" w] unfolding skip_loop_dropWhile by blast
    then have "isspace (hd val)" using False s by (metis hd_append2)
    moreover have d: "val = rev (dropWhile isspace (rev ?s))" unfolding v stored_value_def trim_right_def ..
    then have "dropWhile isspace (rev ?s) \<noteq> []" using False by (metis rev.simps(1))
    then have "\<not> isspace (last val)" unfolding d last_rev using hd_dropWhile by blast
    ultimately show ?thesis by simp
  qed simp
  moreover have "w = ?lead @ val @ ?trail" using w s by simp
  moreover have "\<forall>c \<in> set ?lead. \<not> isspace c" "\<forall>c \<in> set ?trail. isspace c" by (auto dest: set_takeWhileD)
  ultimately show "kept_value w val" unfolding kept_value_def by blast
qed

lemma headers_foldl:
  "foldl (\<lambda>mp h. mp(fst h \<mapsto> f (snd h))) mp0 hs name = (case map_of (rev hs) name of None \<Rightarrow> mp0 name | Some w \<Rightarrow> Some (f w))"
  by (induction hs arbitrary: mp0) (auto simp: map_add_def split: option.splits)

lemma parsed_request_facts:
  "req_method (parsed_request t m path query v hs body) = m" "req_path (parsed_request t m path query v hs body) = path"
  "req_query (parsed_request t m path query v hs body) = query" "req_version (parsed_request t m path query v hs body) = v"
  "req_receiveTime (parsed_request t m path query v hs body) = t" "req_body (parsed_request t m path query v hs body) = body"
  "case map_of (rev hs) name of None \<Rightarrow> req_headers (parsed_request t m path query v hs body) name = None
   | Some w \<Rightarrow> \<exists>val. req_headers (parsed_request t m path query v hs body) name = Some val \<and> kept_value w val"
  by (simp_all add: parsed_request_def headers_foldl kept_value_stored split: option.split)

text \<open>
  C13: a well-formed HTTP/1.x request, delivered in any pieces of which only the last may reach
  beyond the blank line, all received at time \<open>t\<close>, is parsed: method, path, query (with its
  question mark), version and receive time are those of the request, the body is everything that arrived behind the blank line, the parser
  is complete and the input buffer empty. The headers are those that were sent, the last one counting when a name occurs twice, but with the values that the code
  keeps (\<open>kept_value\<close>): what stands behind the colon from the first white space on, without trailing white
  space. So a value keeps the blank behind the colon: for \<open>Host: www.baidu.com\<close> the header is the text \<open>www.baidu.com\<close> with a leading blank, where
  \<open>HttpRequest_unittest.cc\<close> expects it without; and a value that follows the colon directly is lost.
\<close>

theorem http_chunked_request:
  assumes "m \<noteq> kInvalid" and "v \<noteq> kUnknown" and "target_ok path query" and "list_all header_ok hs"
    and "concat (chunks @ [last_chunk]) = print_request m path query v hs body"
    and "length (concat chunks) < length (header_part m path query v hs)"
    and "8 + length (concat (chunks @ [last_chunk])) \<le> max_size"
  shows "\<exists>r b'. http_feed t (chunks @ [last_chunk]) HttpContext_ctor empty_buffer =
      Some (True, \<lparr>ctx_state = kGotAll, ctx_request = r\<rparr>, b') \<and> buffer_wf b' \<and> readableBytes b' = 0 \<and>
    req_method r = m \<and> req_path r = path \<and> req_query r = query \<and> req_version r = v \<and> req_receiveTime r = t \<and>
    req_body r = body \<and>
    (\<forall>name. case map_of (rev hs) name of None \<Rightarrow> req_headers r name = None
       | Some text \<Rightarrow> \<exists>val. req_headers r name = Some val \<and> kept_value text val)"
  using http_feed_pieces [OF assms, of t] parsed_request_facts [of t m path query v hs body] by blast

text \<open>The request of the unit test, in two pieces; the value that the test expects is not the one that is kept.\<close>

theorem http_chunked_request_witness:
  "\<exists>r b'. http_feed 7 [''GET /index.html HTTP/1.1'' @ kCRLF @ ''Host: ww'', ''w.baidu.com'' @ kCRLF @ kCRLF]
      HttpContext_ctor empty_buffer = Some (True, \<lparr>ctx_state = kGotAll, ctx_request = r\<rparr>, b') \<and>
     req_method r = kGet \<and> req_path r = ''/index.html'' \<and> req_version r = kHttp1_1 \<and> getHeader ''User-Agent'' r = [] \<and>
     getHeader ''Host'' r = '' www.baidu.com''"
proof -
  let ?hs = "[(''Host'', '' www.baidu.com'')]"
  let ?p1 = "''GET /index.html HTTP/1.1'' @ kCRLF @ ''Host: ww''" and ?p2 = "''w.baidu.com'' @ kCRLF @ kCRLF"
  have "stored_value '' www.baidu.com'' = '' www.baidu.com''" by (simp add: stored_value_def trim_right_def isspace_def)
  moreover have ok: "target_ok ''/index.html'' []" "list_all header_ok ?hs" by (simp_all add: target_ok_def header_ok_def clean_def)
  moreover have "concat ([?p1] @ [?p2]) = print_request kGet ''/index.html'' [] kHttp1_1 ?hs []"
      "length (concat [?p1]) < length (header_part kGet ''/index.html'' [] kHttp1_1 ?hs)" "8 + length (concat ([?p1] @ [?p2])) \<le> max_size"
    by (simp_all add: print_request_def header_part_def request_line_def header_line_def kCRLF_def max_size_def)
  ultimately obtain r b' where r: "http_feed 7 ([?p1] @ [?p2]) HttpContext_ctor empty_buffer =
      Some (True, \<lparr>ctx_state = kGotAll, ctx_request = r\<rparr>, b')" "req_method r = kGet" "req_path r = ''/index.html''"
      "req_version r = kHttp1_1" and h: "\<forall>name. case map_of (rev ?hs) name of None \<Rightarrow> req_headers r name = None
        | Some text \<Rightarrow> \<exists>val. req_headers r name = Some val \<and> kept_value text val"
    using http_chunked_request [of kGet kHttp1_1 "''/index.html''" "[]" ?hs "[?p1]" ?p2 "[]" 7] by blast
  have "req_headers r ''User-Agent'' = None" "req_headers r ''Host'' = Some '' www.baidu.com''"
    using h [rule_format, of "''User-Agent''"] h [rule_format, of "''Host''"] \<open>stored_value _ = _\<close> by (auto simp: kept_value_stored)
  then show ?thesis using r by (intro exI [of _ r] exI [of _ b']) (simp add: getHeader_def del: http_feed.simps)
qed

text \<open>
  C25: on a context that can be parsed further, \<open>parseRequest\<close> returns, and when it reports
  success the context can again be parsed further or is complete with nothing left in the buffer.
  On a context that is already complete it never returns: no branch of its loop handles
  \<open>kGotAll\<close>, so a caller must reset the context first.
\<close>

theorem http_parse_total:
  assumes "buffer_wf b"
  shows "(ctx_ready c \<longrightarrow> (\<exists>ok c' b'. parseRequest t c b = Some (ok, c', b') \<and> buffer_wf b' \<and>
      (ok \<longrightarrow> ctx_ready c' \<or> gotAll c' \<and> readableBytes b' = 0))) \<and>
    (gotAll c \<longrightarrow> parseRequest t c b = None)"
proof -
  have "\<exists>ok c' b'. parseRequest t c b = Some (ok, c', b') \<and> buffer_wf b' \<and>
      (ok \<longrightarrow> ctx_ready c' \<or> gotAll c' \<and> readableBytes b' = 0)" if r: "ctx_ready c"
  proof -
    obtain ok c' rest where p: "parse_bytes t True c (readable b) = Some (ok, c', rest)"
      using parse_bytes_total [OF r] by blast
    from parseRequest_bytes [OF assms p] parse_bytes_outcome [OF r, of t True "readable b" c' rest] p
    show ?thesis by (cases ok) (auto simp: readableBytes_length)
  qed
  then show ?thesis
    using parse_loop_gotAll [of t True c b] by (cases "parse_loop t True c b") (auto simp: parseRequest_def gotAll_def)
qed

theorem http_parse_total_witness:
  "\<exists>ok c' b'. parseRequest 0 HttpContext_ctor empty_buffer = Some (ok, c', b') \<and> buffer_wf b' \<and>
    (ok \<longrightarrow> ctx_ready c' \<or> gotAll c' \<and> readableBytes b' = 0)"
  using http_parse_total [OF empty_buffer_wf, of HttpContext_ctor 0]
  by (simp add: ctx_ready_def HttpContext_ctor_def HttpRequest_ctor_def)

text \<open>
  What \<open>addHeader\<close> stores. Its \<open>for\<close> loop skips the characters that are \<^emph>\<open>not\<close>
  white space, so the customary blank after the colon ends it at once and stays in the value,
  and a value written directly behind the colon is lost altogether.
\<close>

theorem addHeader_stores:
  assumes "\<forall>c \<in> set val. \<not> isspace c" and "val \<noteq> []"
  shows "getHeader name (addHeader (name @ '': '' @ val) (length name) r) = '' '' @ val \<and>
    getHeader name (addHeader (name @ '':'' @ val) (length name) r) = []"
proof -
  have "skip_loop val = []" using assms(1) by (induction "val") auto
  moreover have "trim_right ('' '' @ val) = '' '' @ val"
    using assms by (cases "val" rule: rev_cases) (auto simp: trim_right_def)
  ultimately show ?thesis
    by (simp add: addHeader_def getHeader_def Let_def isspace_def) (simp add: trim_right_def)
qed

theorem addHeader_stores_witness:
  "getHeader ''Connection'' (addHeader ''Connection: close'' 10 HttpRequest_ctor) = '' close'' \<and>
   getHeader ''Connection'' (addHeader ''Connection:close'' 10 HttpRequest_ctor) = []"
  using addHeader_stores [of "''close''" "''Connection''" HttpRequest_ctor]
  by (simp add: isspace_def eval_nat_numeral)

end
