(* ===== verification/StdMap.thy ===== *)
theory StdMap
  imports Prelude "HOL-Library.List_Lexorder" "HOL-Library.Char_ord"
begin

text \<open>
  \<open>std::map\<close>: an association list in increasing key order. \<open>m[k] = v\<close> is
  \<open>map_assign\<close>, \<open>find\<close> is \<open>map_find\<close>, \<open>erase(k)\<close> is \<open>map_erase\<close>. The locale
  \<open>ordered_map\<close> is the container's contract; strings compare byte-wise, as
  \<open>std::string\<close> does.
\<close>

type_synonym ('k, 'v) std_map = "('k \<times> 'v) list"

fun map_assign :: "'k::linorder \<Rightarrow> 'v \<Rightarrow> ('k, 'v) std_map \<Rightarrow> ('k, 'v) std_map" where
  "map_assign k v [] = [(k, v)]"
| "map_assign k v ((k', v') # m) =
     (if k < k' then (k, v) # (k', v') # m
      else if k = k' then (k, v) # m
      else (k', v') # map_assign k v m)"

fun map_find :: "'k \<Rightarrow> ('k, 'v) std_map \<Rightarrow> 'v option" where
  "map_find k [] = None"
| "map_find k ((k', v') # m) = (if k = k' then Some v' else map_find k m)"

fun map_erase :: "'k \<Rightarrow> ('k, 'v) std_map \<Rightarrow> ('k, 'v) std_map" where
  "map_erase k [] = []"
| "map_erase k ((k', v') # m) = (if k = k' then m else (k', v') # map_erase k m)"

definition map_ok :: "('k::linorder, 'v) std_map \<Rightarrow> bool" where
  "map_ok m \<longleftrightarrow> sorted_wrt (<) (map fst m)"

lemma map_ok_Nil [simp]: "map_ok []"
  by (simp add: map_ok_def)

lemma map_ok_Cons: "map_ok ((k, v) # m) \<longleftrightarrow> (\<forall>k' \<in> fst ` set m. k < k') \<and> map_ok m"
  by (simp add: map_ok_def)

lemma keys_assign [simp]: "fst ` set (map_assign k v m) = insert k (fst ` set m)"
  by (induction k v m rule: map_assign.induct) auto

lemma keys_erase_subset: "fst ` set (map_erase k m) \<subseteq> fst ` set m"
  by (induction k m rule: map_erase.induct) auto

lemma map_assign_ok: "map_ok m \<Longrightarrow> map_ok (map_assign k v m)"
  by (induction k v m rule: map_assign.induct) (auto simp: map_ok_Cons)

lemma map_erase_ok: "map_ok m \<Longrightarrow> map_ok (map_erase k m)"
  using keys_erase_subset by (induction k m rule: map_erase.induct) (fastforce simp: map_ok_Cons)+

lemma map_find_None: "map_find k m = None \<longleftrightarrow> k \<notin> fst ` set m"
  by (induction k m rule: map_find.induct) auto

lemma map_find_assign: "map_find k' (map_assign k v m) = (if k' = k then Some v else map_find k' m)"
  by (induction k v m rule: map_assign.induct) auto

lemma map_find_erase: "map_ok m \<Longrightarrow> map_find k' (map_erase k m) = (if k' = k then None else map_find k' m)"
proof (induction k m rule: map_erase.induct)
  case (2 k a v m)
  have "k = a \<Longrightarrow> map_find k m = None" using 2(2) by (auto simp: map_ok_Cons map_find_None)
  with 2 show ?case by (auto simp: map_ok_Cons)
qed simp

subsection \<open>The contract\<close>

locale ordered_map =
  fixes invar :: "'m \<Rightarrow> bool"
    and lookup :: "'k \<Rightarrow> 'm \<Rightarrow> 'v option"
    and assign :: "'k \<Rightarrow> 'v \<Rightarrow> 'm \<Rightarrow> 'm"
    and erase :: "'k \<Rightarrow> 'm \<Rightarrow> 'm"
  assumes assign_invar: "invar m \<Longrightarrow> invar (assign k v m)"
    and erase_invar: "invar m \<Longrightarrow> invar (erase k m)"
    and lookup_assign: "invar m \<Longrightarrow> lookup k' (assign k v m) = (if k' = k then Some v else lookup k' m)"
    and lookup_erase: "invar m \<Longrightarrow> lookup k' (erase k m) = (if k' = k then None else lookup k' m)"
begin

lemma erase_assign_lookup:
  "invar m \<Longrightarrow> lookup k m = None \<Longrightarrow> lookup k' (erase k (assign k v m)) = lookup k' m"
  by (simp add: assign_invar lookup_erase lookup_assign)

lemma assign_commute_lookup:
  "invar m \<Longrightarrow> k \<noteq> l \<Longrightarrow>
     lookup k' (assign k v (assign l w m)) = lookup k' (assign l w (assign k v m))"
  by (simp add: assign_invar lookup_assign)

end

interpretation smap: ordered_map map_ok map_find map_assign map_erase
  by unfold_locales (simp_all add: map_assign_ok map_erase_ok map_find_assign map_find_erase)

end
