(* ===== verification/HttpServer.thy ===== *)
theory HttpServer
  imports HttpContext Printf StdMap "HOL-Library.List_Lexorder" "HOL-Library.Char_ord"
begin

text \<open>
  \<open>tmuduo/net/http/HttpResponse.h\<close>, \<open>HttpResponse.cc\<close> and \<open>HttpServer.cc\<close>: building a
  response, and the connection and message callbacks of the server. The calls on the connection
  (\<open>send\<close>, \<open>shutdown\<close>) are recorded as the list of actions a callback performs, in order;
  the user's \<open>HttpCallback\<close> is a parameter.
\<close>

subsection \<open>HttpResponse\<close>

datatype http_status = kUnknownStatus | k200Ok | k301MovedPermanently | k400BadRequest | k404NotFound

fun status_value :: "http_status \<Rightarrow> int" where
  "status_value kUnknownStatus = 0"
| "status_value k200Ok = 200"
| "status_value k301MovedPermanently = 301"
| "status_value k400BadRequest = 400"
| "status_value k404NotFound = 404"

record http_response =
  res_headers :: "(string, string) std_map"
  res_statusCode :: http_status
  res_statusMessage :: string
  res_closeConnection :: bool
  res_body :: string

definition HttpResponse_ctor :: "bool \<Rightarrow> http_response" where
  "HttpResponse_ctor close = \<lparr>res_headers = [], res_statusCode = kUnknownStatus, res_statusMessage = [],
     res_closeConnection = close, res_body = []\<rparr>"

definition setStatusCode :: "http_status \<Rightarrow> http_response \<Rightarrow> http_response" where
  "setStatusCode code r = r\<lparr>res_statusCode := code\<rparr>"

definition setStatusMessage :: "string \<Rightarrow> http_response \<Rightarrow> http_response" where
  "setStatusMessage message r = r\<lparr>res_statusMessage := message\<rparr>"

definition setCloseConnection :: "bool \<Rightarrow> http_response \<Rightarrow> http_response" where
  "setCloseConnection on r = r\<lparr>res_closeConnection := on\<rparr>"

definition isCloseConnection :: "http_response \<Rightarrow> bool" where
  "isCloseConnection r = res_closeConnection r"

definition addResponseHeader :: "string \<Rightarrow> string \<Rightarrow> http_response \<Rightarrow> http_response" where
  "addResponseHeader key val r = r\<lparr>res_headers := map_assign key val (res_headers r)\<rparr>"

definition setContentType :: "string \<Rightarrow> http_response \<Rightarrow> http_response" where
  "setContentType contentType r = addResponseHeader ''Content-Type'' contentType r"

definition setResponseBody :: "string \<Rightarrow> http_response \<Rightarrow> http_response" where
  "setResponseBody body r = r\<lparr>res_body := body\<rparr>"

text \<open>The loop over \<open>headers_\<close> in \<open>appendToBuffer\<close>, in the map's key order.\<close>

fun append_headers :: "(string, string) std_map \<Rightarrow> buffer \<Rightarrow> buffer option" where
  "append_headers [] b = Some b"
| "append_headers ((key, val) # hs) b = do {
     b \<leftarrow> Buffer_append key b;
     b \<leftarrow> Buffer_append '': '' b;
     b \<leftarrow> Buffer_append val b;
     b \<leftarrow> Buffer_append kCRLF b;
     append_headers hs b }"

definition appendToBuffer :: "http_response \<Rightarrow> buffer \<Rightarrow> buffer option" where
  "appendToBuffer r b = do {
     b \<leftarrow> Buffer_append (snprintf 32 (''HTTP/1.1 '' @ dec_int (status_value (res_statusCode r)) @ '' '')) b;
     b \<leftarrow> Buffer_append (res_statusMessage r) b;
     b \<leftarrow> Buffer_append kCRLF b;
     b \<leftarrow> (if res_closeConnection r then Buffer_append (''Connection: close'' @ kCRLF) b
          else do {
            b \<leftarrow> Buffer_append (snprintf 32 (''Content-Length: '' @ dec_nat (length (res_body r)) @ kCRLF)) b;
            Buffer_append (''Connection: keep-Alive'' @ kCRLF) b });
     b \<leftarrow> append_headers (res_headers r) b;
     b \<leftarrow> Buffer_append kCRLF b;
     Buffer_append (res_body r) b }"

subsection \<open>HttpServer\<close>

datatype conn_action = Send bytes | Shutdown

type_synonym http_callback = "http_request \<Rightarrow> http_response \<Rightarrow> http_response"

definition defaultHttpCallback :: http_callback where
  "defaultHttpCallback req r =
     setCloseConnection True (setStatusMessage ''Not Found'' (setStatusCode k404NotFound r))"

definition http_onConnection :: "bool \<Rightarrow> http_context option \<Rightarrow> http_context option" where
  "http_onConnection connected context = (if connected then Some HttpContext_ctor else context)"

definition http_close :: "http_request \<Rightarrow> bool" where
  "http_close req = (let connection = getHeader ''Connection'' req in
     connection = ''close'' \<or> (req_version req = kHttp1_0 \<and> connection \<noteq> ''Keep-Alive''))"

definition http_onRequest :: "http_callback \<Rightarrow> http_request \<Rightarrow> conn_action list option" where
  "http_onRequest cb req = do {
     let response = cb req (HttpResponse_ctor (http_close req));
     buf \<leftarrow> Buffer_ctor;
     buf \<leftarrow> appendToBuffer response buf;
     Some ([Send (toStringView buf)] @ (if isCloseConnection response then [Shutdown] else [])) }"

definition badRequest :: bytes where
  "badRequest = ''HTTP/1.1 400 Bad Request'' @ kCRLF @ kCRLF"

text \<open>
  \<open>onMessage\<close>: the connection's context is a null pointer when none has been set, which the
  code dereferences.
\<close>

definition http_onMessage ::
  "http_callback \<Rightarrow> int \<Rightarrow> http_context option \<Rightarrow> buffer \<Rightarrow>
     (conn_action list \<times> http_context option \<times> buffer) option" where
  "http_onMessage cb receiveTime context buf = do {
     c \<leftarrow> context;
     (ok, c, buf) \<leftarrow> parseRequest receiveTime c buf;
     let bad = (if \<not> ok then [Send badRequest, Shutdown] else []);
     if gotAll c then do {
       acts \<leftarrow> http_onRequest cb (ctx_request c);
       Some (bad @ acts, Some (HttpContext_reset c), buf) }
     else Some (bad, Some c, buf) }"

subsection \<open>The bytes of a response\<close>

definition header_lines :: "(string, string) std_map \<Rightarrow> string" where
  "header_lines hs = concat (map (\<lambda>(k, v). k @ '': '' @ v @ kCRLF) hs)"

definition render :: "http_response \<Rightarrow> string" where
  "render r =
     ''HTTP/1.1 '' @ dec_int (status_value (res_statusCode r)) @ '' '' @ res_statusMessage r @ kCRLF @
     (if res_closeConnection r then ''Connection: close'' @ kCRLF
      else ''Content-Length: '' @ dec_nat (length (res_body r)) @ kCRLF @ ''Connection: keep-Alive'' @ kCRLF) @
     header_lines (res_headers r) @ kCRLF @ res_body r"

text \<open>A run of appends, and the pieces a response consists of.\<close>

primrec append_all :: "bytes list \<Rightarrow> buffer \<Rightarrow> buffer option" where
  "append_all [] b = Some b"
| "append_all (d # ds) b = Buffer_append d b \<bind> append_all ds"

lemma append_all_ok:
  "buffer_wf b \<Longrightarrow> has_room b (length (concat ds)) \<Longrightarrow>
     \<exists>b'. append_all ds b = Some b' \<and> buffer_wf b' \<and> readable b' = readable b @ concat ds"
proof (induction ds arbitrary: b)
  case (Cons d ds)
  have room: "has_room b (length d + length (concat ds))" using Cons.prems(2) by simp
  then have "has_room b (length d)" by (simp add: has_room_def)
  with buf.put_ok [OF Cons.prems(1)] obtain b1 where b1: "Buffer_append d b = Some b1" "buffer_wf b1"
    "readable b1 = readable b @ d" by blast
  have "has_room b1 (length (concat ds))" using buf.put_room [OF Cons.prems(1) room b1(1)] .
  from Cons.IH [OF b1(2) this] b1 show ?case by auto
qed simp

lemma append_all_append: "append_all (ds @ es) b = append_all ds b \<bind> append_all es"
proof (induction ds arbitrary: b)
  case (Cons d ds)
  then show ?case by (cases "Buffer_append d b") simp_all
qed simp

fun header_pieces :: "(string, string) std_map \<Rightarrow> bytes list" where
  "header_pieces [] = []"
| "header_pieces ((key, val) # hs) = [key, '': '', val, kCRLF] @ header_pieces hs"

lemma append_headers_pieces: "append_headers hs b = append_all (header_pieces hs) b"
  by (induction hs b rule: append_headers.induct) (simp_all cong: Option.bind_cong)

lemma header_pieces_lines: "concat (header_pieces hs) = header_lines hs"
  by (induction hs rule: header_pieces.induct) (simp_all add: header_lines_def)

definition response_pieces :: "http_response \<Rightarrow> bytes list" where
  "response_pieces r =
     [snprintf 32 (''HTTP/1.1 '' @ dec_int (status_value (res_statusCode r)) @ '' ''), res_statusMessage r, kCRLF] @
     (if res_closeConnection r then [''Connection: close'' @ kCRLF]
      else [snprintf 32 (''Content-Length: '' @ dec_nat (length (res_body r)) @ kCRLF),
            ''Connection: keep-Alive'' @ kCRLF]) @
     header_pieces (res_headers r) @ [kCRLF, res_body r]"

lemma appendToBuffer_pieces: "appendToBuffer r b = append_all (response_pieces r) b"
  by (simp add: appendToBuffer_def response_pieces_def append_all_append append_headers_pieces
      cong: Option.bind_cong)

lemma status_fits: "snprintf 32 (''HTTP/1.1 '' @ dec_int (status_value s) @ '' '') =
    ''HTTP/1.1 '' @ dec_int (status_value s) @ '' ''"
  by (cases s) (simp_all add: snprintf_def dec_int_def dec_nat.simps)

lemma length_fits: "n < 10 ^ 13 \<Longrightarrow> snprintf 32 (''Content-Length: '' @ dec_nat n @ kCRLF) =
    ''Content-Length: '' @ dec_nat n @ kCRLF"
  using dec_nat_length [of n 13] by (intro snprintf_fits) (simp add: kCRLF_def)

lemma response_pieces_render:
  "length (res_body r) < 10 ^ 13 \<or> res_closeConnection r \<Longrightarrow> concat (response_pieces r) = render r"
  unfolding response_pieces_def render_def status_fits
  by (cases "res_closeConnection r") (simp_all only: length_fits if_True if_False simp_thms,
      simp_all add: header_pieces_lines)

lemma appendToBuffer_ok:
  assumes "buffer_wf b" and "has_room b (length (render r))"
    and "length (res_body r) < 10 ^ 13 \<or> res_closeConnection r"
  shows "\<exists>b'. appendToBuffer r b = Some b' \<and> buffer_wf b' \<and> readable b' = readable b @ render r"
  using append_all_ok [of b "response_pieces r"] assms
  by (simp add: appendToBuffer_pieces response_pieces_render)

subsection \<open>Requests of a client and their responses\<close>

text \<open>A request as a client sends it, with the pieces in which it arrives.\<close>

record client_request =
  cr_method :: http_method
  cr_path :: string
  cr_query :: string
  cr_version :: http_version
  cr_headers :: "(string \<times> string) list"
  cr_body :: string
  cr_pieces :: "bytes list"
  cr_last :: bytes

definition cr_bytes :: "client_request \<Rightarrow> bytes" where
  "cr_bytes q = print_request (cr_method q) (cr_path q) (cr_query q) (cr_version q) (cr_headers q) (cr_body q)"

definition cr_parsed :: "int \<Rightarrow> client_request \<Rightarrow> http_request" where
  "cr_parsed t q =
     parsed_request t (cr_method q) (cr_path q) (cr_query q) (cr_version q) (cr_headers q) (cr_body q)"

definition cr_chunks :: "client_request \<Rightarrow> bytes list" where
  "cr_chunks q = cr_pieces q @ [cr_last q]"

definition cr_ok :: "client_request \<Rightarrow> bool" where
  "cr_ok q \<longleftrightarrow> cr_method q \<noteq> kInvalid \<and> cr_version q \<noteq> kUnknown \<and> target_ok (cr_path q) (cr_query q) \<and>
     list_all header_ok (cr_headers q) \<and> concat (cr_chunks q) = cr_bytes q \<and>
     length (concat (cr_pieces q)) <
       length (header_part (cr_method q) (cr_path q) (cr_query q) (cr_version q) (cr_headers q))"

definition cr_response :: "http_callback \<Rightarrow> int \<Rightarrow> client_request \<Rightarrow> http_response" where
  "cr_response cb t q = cb (cr_parsed t q) (HttpResponse_ctor (http_close (cr_parsed t q)))"

definition response_ok :: "http_response \<Rightarrow> bool" where
  "response_ok r \<longleftrightarrow> 8 + length (render r) \<le> max_size \<and> length (res_body r) < 10 ^ 13"

definition reply :: "http_response \<Rightarrow> conn_action list" where
  "reply r = Send (render r) # (if isCloseConnection r then [Shutdown] else [])"

lemma http_onRequest_reply:
  assumes "response_ok (cr_response cb t q)"
  shows "http_onRequest cb (cr_parsed t q) = Some (reply (cr_response cb t q))"
proof -
  have "has_room empty_buffer (length (render (cr_response cb t q)))"
    using assms by (simp add: response_ok_def has_room_def empty_buffer_def)
  from appendToBuffer_ok [OF empty_buffer_wf this] assms show ?thesis
    by (auto simp: http_onRequest_def Let_def Buffer_ctor_eq cr_response_def reply_def response_ok_def
        toStringView_readable)
qed

lemma HttpContext_reset_fresh: "HttpContext_reset c = HttpContext_ctor"
  by (simp add: HttpContext_reset_def HttpContext_ctor_def HttpRequest_swap_def)

subsection \<open>A malformed request line\<close>

lemma processRequestLine_again:
  assumes "processRequestLine line r0 = Some (k, r)" and "req_method r0 = kInvalid"
    and "req_method r \<noteq> kInvalid"
  shows "processRequestLine line r = None"
proof (cases "find_index (CHR '' '') line")
  case None
  with assms show ?thesis by (simp add: processRequestLine_def)
next
  case (Some sp)
  with assms(3) show ?thesis by (simp add: processRequestLine_def setMethod_def)
qed

lemma parseRequest_bad_line:
  assumes "buffer_wf b" and "search_index kCRLF (readable b) = Some i" and "ctx_state c = kExpectRequestLine"
    and "processRequestLine (take i (readable b)) (ctx_request c) = Some (False, r)"
  shows "parseRequest t c b = Some (False, c\<lparr>ctx_request := r\<rparr>, b)"
  using findCRLF_line [OF assms(1,2)] assms(3,4)
  by (simp add: parseRequest_def parse_loop.simps [of t True c b] parse_body_def)

lemma parseRequest_abort:
  assumes "buffer_wf b" and "search_index kCRLF (readable b) = Some i" and "ctx_state c = kExpectRequestLine"
    and "processRequestLine (take i (readable b)) (ctx_request c) = None"
  shows "parseRequest t c b = None"
  using findCRLF_line [OF assms(1,2)] assms(3,4)
  by (simp add: parseRequest_def parse_loop.simps [of t True c b] parse_body_def)

subsection \<open>An example\<close>

definition demo_request :: client_request where
  "demo_request = \<lparr>cr_method = kGet, cr_path = ''/'', cr_query = [], cr_version = kHttp1_1, cr_headers = [],
     cr_body = [], cr_pieces = [''GET /''], cr_last = '' HTTP/1.1'' @ kCRLF @ kCRLF\<rparr>"

definition demo_answer :: bytes where
  "demo_answer = ''HTTP/1.1 404 Not Found'' @ kCRLF @ ''Connection: close'' @ kCRLF @ kCRLF"

lemma demo_request_ok: "cr_ok demo_request"
  by (simp add: cr_ok_def demo_request_def cr_chunks_def cr_bytes_def print_request_def request_line_def
      header_part_def target_ok_def clean_def)

lemma demo_request_length: "8 + length (concat (map cr_bytes [demo_request, demo_request])) \<le> max_size"
  by (simp add: demo_request_def cr_bytes_def print_request_def request_line_def kCRLF_def max_size_def)

lemma demo_response:
  "render (cr_response defaultHttpCallback t demo_request) = demo_answer"
  "isCloseConnection (cr_response defaultHttpCallback t demo_request)"
  "response_ok (cr_response defaultHttpCallback t demo_request)"
proof -
  show r: "render (cr_response defaultHttpCallback t demo_request) = demo_answer"
    by (simp add: cr_response_def defaultHttpCallback_def setCloseConnection_def setStatusMessage_def
        setStatusCode_def HttpResponse_ctor_def render_def header_lines_def dec_int_def demo_answer_def
        dec_nat.simps digit_char_def char_of_def bit_0)
  show "isCloseConnection (cr_response defaultHttpCallback t demo_request)"
    by (simp add: cr_response_def defaultHttpCallback_def setCloseConnection_def isCloseConnection_def)
  have "res_body (cr_response defaultHttpCallback t demo_request) = []"
    by (simp add: cr_response_def defaultHttpCallback_def setCloseConnection_def setStatusMessage_def
        setStatusCode_def HttpResponse_ctor_def)
  then show "response_ok (cr_response defaultHttpCallback t demo_request)"
    unfolding response_ok_def r by (simp add: demo_answer_def kCRLF_def max_size_def)
qed

subsection \<open>Properties\<close>

text \<open>
  C26: whatever headers an HTTP/1.1 client sends, \<open>onRequest\<close> never decides to close the
  connection, not even for \<open>Connection: close\<close>; for an HTTP/1.0 client it always does, not
  even keeping it for \<open>Connection: Keep-Alive\<close>. The values that \<open>addHeader\<close> stores are empty
  or start with white space, so neither comparison can hold.
\<close>

theorem http_close_by_version:
  "http_close (parsed_request t m path query v hs body) \<longleftrightarrow> v = kHttp1_0"
proof -
  have stored: "stored_value w = [] \<or> isspace (hd (stored_value w))" for w
  proof -
    have s: "skip_loop w = [] \<or> isspace (hd (skip_loop w))" by (induction w) auto
    have "trim_right s = [] \<or> hd (trim_right s) = hd s" for s
    proof -
      have "rev (dropWhile isspace (rev s)) @ rev (takeWhile isspace (rev s)) = s"
        by (metis rev_append rev_rev_ident takeWhile_dropWhile_id)
      then show ?thesis by (metis trim_right_def hd_append2)
    qed
    with s show ?thesis by (metis (full_types) stored_value_def rev.simps(1) dropWhile.simps(1) trim_right_def)
  qed
  have "ran (foldl (\<lambda>mp h. mp(fst h \<mapsto> stored_value (snd h))) mp0 hs) \<subseteq> ran mp0 \<union> range stored_value" for mp0
  proof (induction hs arbitrary: mp0)
    case (Cons h hs)
    have "ran (mp0(fst h \<mapsto> stored_value (snd h))) \<subseteq> ran mp0 \<union> range stored_value"
      by (auto simp: ran_def)
    with Cons.IH [of "mp0(fst h \<mapsto> stored_value (snd h))"] show ?case
      by (simp del: fun_upd_apply) blast
  qed simp
  from this [of Map.empty] have fresh: "x \<in> range stored_value"
    if "foldl (\<lambda>mp h. mp(fst h \<mapsto> stored_value (snd h))) Map.empty hs ''Connection'' = Some x" for x
    using that by (auto dest: ranI [where a = "''Connection''"])
  let ?g = "getHeader ''Connection'' (parsed_request t m path query v hs body)"
  have "?g = [] \<or> isspace (hd ?g)"
    using fresh stored by (auto simp: getHeader_def parsed_request_def split: option.split)
  then have "?g \<noteq> ''close'' \<and> ?g \<noteq> ''Keep-Alive''" by (auto simp: isspace_def)
  then show ?thesis by (simp add: http_close_def Let_def) (simp add: parsed_request_def)
qed

text \<open>
  C27: a malformed request line is answered with 400 and a shutdown, and leaves the line in the
  buffer. If its method was a known one, the request keeps that method, and the next data that
  arrives on the connection, whatever it is, runs into the assertion of \<open>setMethod\<close>: the
  server aborts.
\<close>

theorem http_bad_request_line:
  assumes "buffer_wf b" and "readable b = line @ kCRLF @ rest" and "CHR 0x0D \<notin> set line"
    and "processRequestLine line HttpRequest_ctor = Some (False, r)"
    and "has_room b (length d)"
  shows "http_onMessage cb t (Some HttpContext_ctor) b =
      Some ([Send badRequest, Shutdown], Some (HttpContext_ctor\<lparr>ctx_request := r\<rparr>), b) \<and>
    (req_method r \<noteq> kInvalid \<longrightarrow>
      (\<exists>b'. Buffer_append d b = Some b' \<and>
        http_onMessage cb t' (Some (HttpContext_ctor\<lparr>ctx_request := r\<rparr>)) b' = None))"
proof -
  have i: "search_index kCRLF (readable b) = Some (length line)"
    using search_CRLF_line [OF assms(3), of rest] assms(2) by simp
  have first: "parseRequest t HttpContext_ctor b = Some (False, HttpContext_ctor\<lparr>ctx_request := r\<rparr>, b)"
    using parseRequest_bad_line [OF assms(1) i] assms(2,4) by (simp add: HttpContext_ctor_def)
  obtain b' where b': "Buffer_append d b = Some b'" "buffer_wf b'" "readable b' = readable b @ d"
    using buf.put_ok [OF assms(1,5)] by blast
  have "parseRequest t' (HttpContext_ctor\<lparr>ctx_request := r\<rparr>) b' = None" if "req_method r \<noteq> kInvalid"
  proof -
    have "processRequestLine line r = None"
      using processRequestLine_again [OF assms(4) _ that] by (simp add: HttpRequest_ctor_def)
    then show ?thesis
      using parseRequest_abort [OF b'(2), of "length line"] search_index_append [OF i] b'(3) assms(2)
      by (simp add: HttpContext_ctor_def)
  qed
  with first b'(1) show ?thesis by (simp add: http_onMessage_def gotAll_def HttpContext_ctor_def)
qed

theorem http_bad_request_line_witness:
  "\<exists>b b' r. Buffer_append (''GET /'' @ kCRLF) empty_buffer = Some b \<and>
     http_onMessage defaultHttpCallback 0 (Some HttpContext_ctor) b =
       Some ([Send badRequest, Shutdown], Some (HttpContext_ctor\<lparr>ctx_request := r\<rparr>), b) \<and>
     Buffer_append ''x'' b = Some b' \<and>
     http_onMessage defaultHttpCallback 1 (Some (HttpContext_ctor\<lparr>ctx_request := r\<rparr>)) b' = None"
proof -
  let ?d = "''GET /'' @ kCRLF" and ?r = "HttpRequest_ctor\<lparr>req_method := kGet\<rparr>"
  have room: "has_room empty_buffer (length ?d + 1)"
    by (simp add: has_room_def empty_buffer_def kCRLF_def max_size_def)
  then have "has_room empty_buffer (length ?d)" by (simp add: has_room_def)
  with buf.put_ok [OF empty_buffer_wf] obtain b where b: "Buffer_append ?d empty_buffer = Some b"
    "buffer_wf b" "readable b = ?d" by (metis append_Nil readable_empty)
  have room': "has_room b (length ''x'')" using buf.put_room [OF empty_buffer_wf room b(1)] by simp
  have p: "processRequestLine ''GET /'' HttpRequest_ctor = Some (False, ?r)"
    by (simp add: processRequestLine_def setMethod_def method_of_string_def HttpRequest_ctor_def)
  have "readable b = ''GET /'' @ kCRLF @ []" using b(3) by simp
  from http_bad_request_line [OF b(2) this _ p room', of defaultHttpCallback 0 1] obtain b' where
    "http_onMessage defaultHttpCallback 0 (Some HttpContext_ctor) b =
       Some ([Send badRequest, Shutdown], Some (HttpContext_ctor\<lparr>ctx_request := ?r\<rparr>), b)"
    "Buffer_append ''x'' b = Some b'"
    "http_onMessage defaultHttpCallback 1 (Some (HttpContext_ctor\<lparr>ctx_request := ?r\<rparr>)) b' = None"
    by auto
  then show ?thesis using b(1) by blast
qed

end
