(* ===== verification/HttpConnection.thy ===== *)
theory HttpConnection
  imports HttpServer ConnOutput
begin

text \<open>
  An HTTP server on its connections: the callbacks of \<open>net/http/HttpServer.cc\<close> as the user code of a
  \<open>TcpConnection\<close>. The constructor of the server registers \<open>onConnection\<close> and \<open>onMessage\<close> with its
  \<open>TcpServer\<close>, which hands them to every connection; the connection's context (\<open>std::any\<close>) is the parser state. The
  input buffer that \<open>readFd\<close> fills is the one that is parsed, and the responses go through \<open>send\<close> and
  \<open>shutdown\<close> of the connection, so that what the client receives depends on the kernel's writes.
\<close>

subsection \<open>The callbacks on a connection\<close>

record http_conn =
  hc_conn :: tcp_conn
  hc_context :: "http_context option"

fun api_of :: "conn_action \<Rightarrow> api_call" where
  "api_of (Send d) = ApiSend d"
| "api_of Shutdown = ApiShutdown"

text \<open>The connection callback makes no call of the connection, it only sets the context of one that is up.\<close>

definition http_user :: user_code where
  "http_user = \<lparr>onConnection = (\<lambda>c. []), onMessage = (\<lambda>t c. []), onWriteComplete = (\<lambda>c. []), onHighWaterMark = (\<lambda>n c. [])\<rparr>"

definition http_established :: "sys_write \<Rightarrow> http_conn \<Rightarrow> http_conn option" where
  "http_established W hc = do {
     c \<leftarrow> connectionEstablished http_user W True (hc_conn hc);
     Some \<lparr>hc_conn = c, hc_context = http_onConnection (connected c) (hc_context hc)\<rparr> }"

text \<open>\<open>TcpServer::newConnection\<close> makes the connection object and establishes it.\<close>

definition http_newConnection :: "sys_write \<Rightarrow> string \<Rightarrow> fd \<Rightarrow> http_conn option" where
  "http_newConnection W connName sockfd = do {
     conn \<leftarrow> TcpConnection_ctor connName sockfd;
     http_established W \<lparr>hc_conn = conn, hc_context = None\<rparr> }"

text \<open>\<open>TcpConnection::handleRead\<close> with \<open>HttpServer::onMessage\<close> as its message callback.\<close>

definition http_handleRead ::
  "http_callback \<Rightarrow> sys_write \<Rightarrow> (size_t \<Rightarrow> int + bytes) \<Rightarrow> int \<Rightarrow> http_conn \<Rightarrow> http_conn option" where
  "http_handleRead cb W readv receiveTime hc = do {
     (n, savedErrno, b) \<leftarrow> readFd readv 0 (inputBuffer (hc_conn hc));
     let c = (hc_conn hc)\<lparr>inputBuffer := b\<rparr>;
     if n > 0 then do {
       (acts, context, b) \<leftarrow> http_onMessage cb receiveTime (hc_context hc) (inputBuffer c);
       c \<leftarrow> exec_apis W True (map api_of acts) ((emit EMessageCallback c)\<lparr>inputBuffer := b\<rparr>);
       Some \<lparr>hc_conn = c, hc_context = context\<rparr> }
     else if n = 0 then do {
       c \<leftarrow> handleClose http_user W True c;
       Some (hc\<lparr>hc_conn := c, hc_context := http_onConnection (connected c) (hc_context hc)\<rparr>) }
     else do {
       c \<leftarrow> conn_handleError c;
       Some (hc\<lparr>hc_conn := c\<rparr>) } }"

datatype http_event = Arrives bytes | CanWrite

fun exec_http :: "http_callback \<Rightarrow> sys_write \<Rightarrow> int \<Rightarrow> http_event \<Rightarrow> http_conn \<Rightarrow> http_conn option" where
  "exec_http cb W t (Arrives d) hc = http_handleRead cb W (\<lambda>n. Inr d) t hc"
| "exec_http cb W t CanWrite hc = do { c \<leftarrow> handleWrite W True (hc_conn hc); Some (hc\<lparr>hc_conn := c\<rparr>) }"

primrec exec_https :: "http_callback \<Rightarrow> sys_write \<Rightarrow> int \<Rightarrow> http_event list \<Rightarrow> http_conn \<Rightarrow> http_conn option" where
  "exec_https cb W t [] hc = Some hc"
| "exec_https cb W t (e # es) hc = exec_http cb W t e hc \<bind> exec_https cb W t es"

fun arrivals :: "http_event list \<Rightarrow> bytes list" where
  "arrivals [] = []"
| "arrivals (Arrives d # es) = d # arrivals es"
| "arrivals (CanWrite # es) = arrivals es"

subsection \<open>The server on byte strings\<close>

text \<open>
  The specification: the server as a function on the bytes received and not yet consumed, with neither buffers nor
  a connection.
\<close>

definition serve_bytes :: "http_callback \<Rightarrow> int \<Rightarrow> http_context \<Rightarrow> bytes \<Rightarrow> (conn_action list \<times> http_context \<times> bytes) option" where
  "serve_bytes cb t c xs = do {
     (ok, c, rest) \<leftarrow> parse_bytes t True c xs;
     let bad = (if \<not> ok then [Send badRequest, Shutdown] else []);
     if gotAll c then do {
       acts \<leftarrow> http_onRequest cb (ctx_request c);
       Some (bad @ acts, HttpContext_reset c, rest) }
     else Some (bad, c, rest) }"

fun serve_stream :: "http_callback \<Rightarrow> int \<Rightarrow> bytes list \<Rightarrow> http_context \<Rightarrow> bytes \<Rightarrow> (conn_action list \<times> http_context \<times> bytes) option" where
  "serve_stream cb t [] c xs = Some ([], c, xs)"
| "serve_stream cb t (d # ds) c xs = do {
     (acts, c, xs) \<leftarrow> serve_bytes cb t c (xs @ d);
     (acts', c, xs) \<leftarrow> serve_stream cb t ds c xs;
     Some (acts @ acts', c, xs) }"

text \<open>
  Of the messages sent, a connection accepts those up to the first \<open>shutdown\<close>; the flag says whether it is
  still connected.
\<close>

fun accepted :: "bool \<Rightarrow> conn_action list \<Rightarrow> bytes list \<times> bool" where
  "accepted up [] = ([], up)"
| "accepted up (Send d # as) = (let (ds, up') = accepted up as in (if up then d # ds else ds, up'))"
| "accepted up (Shutdown # as) = accepted False as"

lemma accepted_down: "accepted False as = ([], False)"
  by (induction False as rule: accepted.induct) auto

lemma accepted_append:
  "accepted up as = (ds, up1) \<Longrightarrow> accepted up1 bs = (es, up2) \<Longrightarrow> accepted up (as @ bs) = (ds @ es, up2)"
proof (induction up as arbitrary: ds rule: accepted.induct)
  case (2 up d as)
  then show ?case by (cases "accepted up as") auto
qed auto

lemma serve_stream_append:
  "serve_stream cb t ds c xs = Some (as, c1, xs1) \<Longrightarrow> serve_stream cb t es c1 xs1 = Some (bs, c2, xs2) \<Longrightarrow>
   serve_stream cb t (ds @ es) c xs = Some (as @ bs, c2, xs2)"
proof (induction ds arbitrary: c xs as)
  case (Cons d ds)
  then obtain a1 c0 xs0 a2 where 1: "serve_bytes cb t c (xs @ d) = Some (a1, c0, xs0)"
    "serve_stream cb t ds c0 xs0 = Some (a2, c1, xs1)" "as = a1 @ a2"
    by (auto simp: bind_eq_Some_conv)
  with Cons.IH [OF 1(2) Cons.prems(2)] show ?case by simp
qed simp

lemma http_onMessage_bytes:
  assumes "buffer_wf b" and "serve_bytes cb t c (readable b) = Some (acts, c', rest)"
  shows "\<exists>b'. http_onMessage cb t (Some c) b = Some (acts, Some c', b') \<and> buffer_wf b' \<and> readable b' = rest \<and>
    (\<forall>n. has_room b n \<longrightarrow> has_room b' n)"
proof -
  obtain ok c1 where p: "parse_bytes t True c (readable b) = Some (ok, c1, rest)"
    using assms(2) by (auto simp: serve_bytes_def bind_eq_Some_conv Let_def split: if_splits)
  from parseRequest_bytes [OF assms(1) p] obtain b' where "parseRequest t c b = Some (ok, c1, b')" "buffer_wf b'"
    "readable b' = rest" "\<forall>n. has_room b n \<longrightarrow> has_room b' n" by blast
  with p assms(2) show ?thesis
    by (auto simp: serve_bytes_def http_onMessage_def bind_eq_Some_conv Let_def split: if_splits)
qed

subsection \<open>A well-formed request in pieces\<close>

lemma serve_stream_header:
  assumes "ctx_ready c" "parse_bytes t True c (xs @ h) = Some (True, c', [])" "gotAll c'" "req_body (ctx_request c') = []"
    and "concat ds @ d = h @ body" "length (concat ds) < length h"
    and "http_onRequest cb (setBody body (ctx_request c')) = Some acts"
  shows "serve_stream cb t (ds @ [d]) c xs = Some (acts, HttpContext_ctor, [])"
  using assms
proof (induction ds arbitrary: c xs h)
  case Nil
  have "parse_bytes t True c (xs @ d) = Some (True, c'\<lparr>ctx_request := setBody body (ctx_request c')\<rparr>, [])"
    using parse_bytes_gotAll_append [OF Nil.prems(2), of body] Nil.prems(3-5) by (simp add: gotAll_def)
  then show ?case using Nil.prems(3,7) by (simp add: serve_bytes_def gotAll_def HttpContext_reset_fresh)
next
  case (Cons e ds)
  have "e @ concat ds @ d = h @ body" "length e < length h" using Cons.prems(5,6) by simp_all
  then obtain h' where h': "h = e @ h'" "concat ds @ d = h' @ body" by (auto simp: append_eq_append_conv2)
  then have ne: "h' \<noteq> []" and short: "length (concat ds) < length h'" using Cons.prems(6) by auto
  have all: "parse_bytes t True c ((xs @ e) @ h') = Some (True, c', [])" using Cons.prems(2) h'(1) by simp
  from parse_bytes_prefix [OF Cons.prems(1) this Cons.prems(4) ne, of h'] all obtain c1 rest where
    c1: "parse_bytes t True c (xs @ e) = Some (True, c1, rest)" "ctx_ready c1" "parse_bytes t True c1 (rest @ h') = Some (True, c', [])"
    by auto
  have "\<not> gotAll c1" using c1(2) by (simp add: ctx_ready_def gotAll_def)
  with Cons.IH [OF c1(2,3) Cons.prems(3,4) h'(2) short Cons.prems(7)] c1(1) show ?case by (simp add: serve_bytes_def)
qed

lemma serve_stream_request:
  assumes "cr_ok q" "response_ok (cr_response cb t q)"
  shows "serve_stream cb t (cr_chunks q) HttpContext_ctor [] = Some (reply (cr_response cb t q), HttpContext_ctor, [])"
proof -
  note q = assms(1) [unfolded cr_ok_def]
  let ?c = "\<lparr>ctx_state = kGotAll, ctx_request = parsed_request t (cr_method q) (cr_path q) (cr_query q)
    (cr_version q) (cr_headers q) []\<rparr>"
  let ?h = "header_part (cr_method q) (cr_path q) (cr_query q) (cr_version q) (cr_headers q)"
  have p: "parse_bytes t True HttpContext_ctor ([] @ ?h) = Some (True, ?c, [])"
    using parse_bytes_print [of "cr_method q" "cr_version q" "cr_path q" "cr_query q" "cr_headers q" t "[]"] q
    by (simp add: print_request_parts)
  have c: "ctx_ready HttpContext_ctor" "gotAll ?c" "req_body (ctx_request ?c) = []"
    by (simp_all add: ctx_ready_def HttpContext_ctor_def HttpRequest_ctor_def gotAll_def parsed_request_def)
  have "setBody (cr_body q) (ctx_request ?c) = cr_parsed t q" by (simp add: cr_parsed_def setBody_def parsed_request_def)
  then have "http_onRequest cb (setBody (cr_body q) (ctx_request ?c)) = Some (reply (cr_response cb t q))"
    using http_onRequest_reply [OF assms(2)] by simp
  moreover have "concat (cr_pieces q) @ cr_last q = ?h @ cr_body q" "length (concat (cr_pieces q)) < length ?h"
    using q by (simp_all add: cr_chunks_def cr_bytes_def print_request_parts)
  ultimately show ?thesis unfolding cr_chunks_def by (intro serve_stream_header [OF c(1) p c(2,3)])
qed

lemma serve_stream_session:
  assumes "list_all cr_ok qs" "list_all (\<lambda>q. response_ok (cr_response cb t q)) qs"
  shows "serve_stream cb t (concat (map cr_chunks qs)) HttpContext_ctor [] =
    Some (concat (map (\<lambda>q. reply (cr_response cb t q)) qs), HttpContext_ctor, [])"
  using assms by (induction qs) (auto intro: serve_stream_append serve_stream_request)

lemma cr_session_bytes: "list_all cr_ok qs \<Longrightarrow> concat (concat (map cr_chunks qs)) = concat (map cr_bytes qs)"
  by (induction qs) (auto simp: cr_ok_def)

subsection \<open>The connection carries out the actions\<close>

lemma actions_carried:
  assumes "write_ok W"
  shows "conn_good c \<Longrightarrow> accepted (conn_state c = kConnected) acts = (ds, up) \<Longrightarrow>
    has_room (outputBuffer c) (length (concat ds)) \<Longrightarrow>
    \<exists>c'. exec_apis W True (map api_of acts) c = Some c' \<and> (conn_state c' = kConnected \<longleftrightarrow> up) \<and> carried W ds c c'"
proof (induction acts arbitrary: c ds)
  case Nil
  then show ?case by (auto intro: carried_refl)
next
  case (Cons a acts)
  note good = Cons.prems(1)
  show ?case
  proof (cases a)
    case (Send d)
    show ?thesis
    proof (cases "conn_state c = kConnected")
      case True
      with Cons.prems(2) Send obtain ds' where ds: "accepted True acts = (ds', up)" "ds = d # ds'"
        by (auto split: prod.splits)
      have "has_room (outputBuffer c) (length d)" using Cons.prems(3) ds(2) by (simp add: has_room_def)
      from send_carried [OF good True assms this] obtain c1 where c1: "exec_api W True (ApiSend d) c = Some c1"
        "conn_state c1 = kConnected" "carried W [d] c c1" by blast
      moreover have "conn_good c1" "has_room (outputBuffer c1) (length (concat ds'))"
        using c1(3) Cons.prems(3) ds(2) by (simp_all add: carried_def)
      ultimately obtain c2 where "exec_apis W True (map api_of acts) c1 = Some c2" "conn_state c2 = kConnected \<longleftrightarrow> up"
        "carried W ds' c1 c2" using Cons.IH [of c1 ds'] ds(1) by auto
      then show ?thesis using carried_trans [OF c1(3)] c1(1) Send ds(2) by auto
    next
      case False
      then have "exec_api W True (ApiSend d) c = Some c" by (simp add: exec_api_def send_string_def)
      then show ?thesis using Cons False Send by (auto split: prod.splits)
    qed
  next
    case Shutdown
    from shutdown_carried [OF good, of W] obtain c1 where c1: "exec_api W True ApiShutdown c = Some c1"
      "conn_state c1 = kDisconnecting" "carried W [] c c1" by blast
    have "has_room (outputBuffer c) (0 + length (concat ds))" using Cons.prems(3) by simp
    then have "has_room (outputBuffer c1) (length (concat ds))" using c1(3) by (simp add: carried_def)
    moreover have "conn_good c1" using c1(3) by (simp add: carried_def)
    ultimately obtain c2 where "exec_apis W True (map api_of acts) c1 = Some c2" "conn_state c2 = kConnected \<longleftrightarrow> up"
      "carried W ds c1 c2" using Cons.IH [of c1 ds] Cons.prems(2) Shutdown c1(2) by auto
    then show ?thesis using carried_trans [OF c1(3)] c1(1) Shutdown by auto
  qed
qed

subsection \<open>The server on a connection implements the server on byte strings\<close>

definition hc_good :: "http_conn \<Rightarrow> http_context \<Rightarrow> bytes \<Rightarrow> bool" where
  "hc_good hc ctx xs \<longleftrightarrow> conn_good (hc_conn hc) \<and> hc_context hc = Some ctx \<and> readable (inputBuffer (hc_conn hc)) = xs"

lemma hc_goodD:
  "hc_good hc ctx xs \<Longrightarrow> buffer_wf (inputBuffer (hc_conn hc))"
  by (simp add: hc_good_def conn_good_def conn_live_def)

lemma arrives_carried:
  assumes good: "hc_good hc ctx xs" and s: "serve_bytes cb t ctx (xs @ d) = Some (acts, ctx', xs')" and "d \<noteq> []" "write_ok W"
    and inroom: "has_room (inputBuffer (hc_conn hc)) (length d + n)"
    and acc: "accepted (conn_state (hc_conn hc) = kConnected) acts = (ds, up)"
    and outroom: "has_room (outputBuffer (hc_conn hc)) (length (concat ds) + m)"
  shows "\<exists>hc'. exec_http cb W t (Arrives d) hc = Some hc' \<and> hc_good hc' ctx' xs' \<and> (conn_state (hc_conn hc') = kConnected \<longleftrightarrow> up) \<and>
    carried W ds ((hc_conn hc)\<lparr>inputBuffer := inputBuffer (hc_conn hc')\<rparr>) (hc_conn hc') \<and>
    has_room (inputBuffer (hc_conn hc')) n \<and> has_room (outputBuffer (hc_conn hc')) m"
proof -
  let ?c = "hc_conn hc"
  have r: "has_room (inputBuffer ?c) (length d)" using inroom by (simp add: has_room_def)
  from readFd_ok [OF hc_goodD [OF good] _ r, of "\<lambda>n. Inr d" 0] good obtain b where b: "readFd (\<lambda>n. Inr d) 0 (inputBuffer ?c) = Some (int (length d), 0, b)"
      "buffer_wf b" "readable b = xs @ d" "has_room b n"
    using inroom by (auto simp: hc_good_def has_room_def)
  with s obtain b' where b': "http_onMessage cb t (Some ctx) b = Some (acts, Some ctx', b')" "buffer_wf b'" "readable b' = xs'" "has_room b' n"
    using http_onMessage_bytes [of b cb t ctx acts ctx' xs'] by auto
  let ?c1 = "emit EMessageCallback (?c\<lparr>inputBuffer := b'\<rparr>)"
  have upd: "(emit EMessageCallback (?c\<lparr>inputBuffer := b\<rparr>))\<lparr>inputBuffer := b'\<rparr> = ?c1" by (simp add: emit_def)
  have live: "conn_live (?c\<lparr>inputBuffer := b'\<rparr>)" using good b'(2) by (simp add: hc_good_def conn_good_def conn_live_def)
  then have c1: "conn_good ?c1" using good by (auto simp: hc_good_def conn_good_def emit_live)
  have room: "has_room (outputBuffer ?c1) (length (concat ds))" using outroom by (simp add: has_room_def)
  from actions_carried [OF assms(4) c1 _ room, of acts up] acc obtain c' where
    c': "exec_apis W True (map api_of acts) ?c1 = Some c'" "conn_state c' = kConnected \<longleftrightarrow> up" "carried W ds ?c1 c'" by auto
  have e: "exec_http cb W t (Arrives d) hc = Some \<lparr>hc_conn = c', hc_context = Some ctx'\<rparr>"
    using b(1) b'(1) c'(1) good \<open>d \<noteq> []\<close> by (simp add: http_handleRead_def hc_good_def upd)
  have i: "inputBuffer c' = b'" using c'(3) by (simp add: carried_def)
  then have "carried W ds (?c\<lparr>inputBuffer := inputBuffer c'\<rparr>) c'"
    using c'(3) by (simp add: carried_def output_adds_def out_state_def written_def)
  moreover have "hc_good \<lparr>hc_conn = c', hc_context = Some ctx'\<rparr> ctx' xs'" using c'(3) b'(3) i by (simp add: hc_good_def carried_def)
  moreover have "has_room (outputBuffer c') m" using c'(3) outroom by (simp add: carried_def)
  ultimately show ?thesis using e c'(2) b'(4) i by simp
qed

lemma http_conn_refines:
  assumes "write_ok W"
  shows "hc_good hc ctx xs \<Longrightarrow> serve_stream cb t (arrivals es) ctx xs = Some (acts, ctx', xs') \<Longrightarrow> [] \<notin> set (arrivals es) \<Longrightarrow>
    accepted (conn_state (hc_conn hc) = kConnected) acts = (ds, up) \<Longrightarrow>
    has_room (inputBuffer (hc_conn hc)) (length (concat (arrivals es))) \<Longrightarrow>
    has_room (outputBuffer (hc_conn hc)) (length (concat ds)) \<Longrightarrow>
    \<exists>hc'. exec_https cb W t es hc = Some hc' \<and> hc_good hc' ctx' xs' \<and> (conn_state (hc_conn hc') = kConnected \<longleftrightarrow> up) \<and>
      output_adds W ds (hc_conn hc) (hc_conn hc')"
proof (induction es arbitrary: hc ctx xs acts ds)
  case Nil
  then show ?case by (auto intro: output_adds_refl)
next
  case (Cons e es)
  show ?case
  proof (cases e)
    case CanWrite
    have "conn_good (hc_conn hc)" using Cons.prems(1) by (simp add: hc_good_def)
    from handleWrite_carried [OF this assms] obtain c1 where c1: "handleWrite W True (hc_conn hc) = Some c1"
      "conn_state c1 = conn_state (hc_conn hc)" "carried W [] (hc_conn hc) c1" by blast
    have "hc_good (hc\<lparr>hc_conn := c1\<rparr>) ctx xs" using Cons.prems(1) c1(3) by (simp add: hc_good_def carried_def)
    moreover have "has_room (outputBuffer c1) (length (concat ds))" "inputBuffer c1 = inputBuffer (hc_conn hc)"
      using Cons.prems(6) c1(3) by (simp_all add: carried_def)
    ultimately obtain hc' where "exec_https cb W t es (hc\<lparr>hc_conn := c1\<rparr>) = Some hc'" "hc_good hc' ctx' xs'"
        "conn_state (hc_conn hc') = kConnected \<longleftrightarrow> up" "output_adds W ds c1 (hc_conn hc')"
      using Cons.IH [of "hc\<lparr>hc_conn := c1\<rparr>" ctx xs acts ds] Cons.prems CanWrite c1(2) by auto
    moreover have "output_adds W [] (hc_conn hc) c1" using c1(3) by (simp add: carried_def)
    ultimately show ?thesis using CanWrite c1(1) output_adds_trans by fastforce
  next
    case (Arrives d)
    from Cons.prems(2) Arrives obtain a1 ctx1 xs1 a2 where s: "serve_bytes cb t ctx (xs @ d) = Some (a1, ctx1, xs1)"
      "serve_stream cb t (arrivals es) ctx1 xs1 = Some (a2, ctx', xs')" "acts = a1 @ a2" by (auto simp: bind_eq_Some_conv)
    obtain d1 up1 where a1: "accepted (conn_state (hc_conn hc) = kConnected) a1 = (d1, up1)" by fastforce
    obtain d2 up2 where a2: "accepted up1 a2 = (d2, up2)" by fastforce
    have ds: "ds = d1 @ d2" "up2 = up" using accepted_append [OF a1 a2] Cons.prems(4) s(3) by auto
    from Cons.prems(3,5,6) Arrives ds(1) have "d \<noteq> []" "[] \<notin> set (arrivals es)"
      "has_room (inputBuffer (hc_conn hc)) (length d + length (concat (arrivals es)))"
      "has_room (outputBuffer (hc_conn hc)) (length (concat d1) + length (concat d2))" by auto
    from arrives_carried [OF Cons.prems(1) s(1) this(1) assms this(3) a1 this(4)] obtain h1 where
      h1: "exec_http cb W t (Arrives d) hc = Some h1" "hc_good h1 ctx1 xs1" "conn_state (hc_conn h1) = kConnected \<longleftrightarrow> up1"
        "output_adds W d1 (hc_conn hc) (hc_conn h1)"
        "has_room (inputBuffer (hc_conn h1)) (length (concat (arrivals es)))" "has_room (outputBuffer (hc_conn h1)) (length (concat d2))"
      using carried_output by blast
    have "accepted (conn_state (hc_conn h1) = kConnected) a2 = (d2, up)" using a2 h1(3) ds(2) by simp
    from Cons.IH [OF h1(2) s(2) \<open>[] \<notin> set (arrivals es)\<close> this h1(5,6)] obtain hc' where
      "exec_https cb W t es h1 = Some hc'" "hc_good hc' ctx' xs'" "conn_state (hc_conn hc') = kConnected \<longleftrightarrow> up"
      "output_adds W d2 (hc_conn h1) (hc_conn hc')" by blast
    then show ?thesis using Arrives h1(1) output_adds_trans [OF h1(4)] ds(1) by auto
  qed
qed

subsection \<open>From the accepted socket to the bytes of the responses\<close>

lemma http_newConnection_good:
  "\<exists>hc. http_newConnection W connName sockfd = Some hc \<and> hc_good hc HttpContext_ctor [] \<and>
     conn_state (hc_conn hc) = kConnected \<and> inputBuffer (hc_conn hc) = empty_buffer \<and>
     outputBuffer (hc_conn hc) = empty_buffer \<and> written (hc_conn hc) = [] \<and> writes (hc_conn hc) = 0"
  using established_fresh [of http_user connName sockfd W]
  by (auto simp: http_newConnection_def http_established_def http_user_def http_onConnection_def connected_def hc_good_def readable_empty)

text \<open>The responses that are answered: up to and including the first that closes the connection.\<close>

fun answered :: "http_response list \<Rightarrow> http_response list" where
  "answered [] = []"
| "answered (r # rs) = r # (if isCloseConnection r then [] else answered rs)"

lemma accepted_replies:
  "accepted True (concat (map reply rs)) = (map render (answered rs), \<not> list_ex isCloseConnection rs)"
  by (induction rs) (auto simp: reply_def accepted_down)

lemma output_adds_renders:
  assumes "output_adds W (map render rs) c c'" "out_state c = (0, [], [])" "write_ok W"
  shows "\<exists>is. messages is = map render rs \<and> out_state c' = out_run W is (0, [], []) \<and>
    list_all2 (\<lambda>r k. k \<le> length (render r) \<and> (whole_writes W \<longrightarrow> on_wire (render r) k = render r)) rs (direct W is (0, [], [])) \<and>
    written c' @ readable (outputBuffer c') = concat (map2 (\<lambda>r. on_wire (render r)) rs (direct W is (0, [], [])))"
proof -
  obtain "is" where i: "messages is = map render rs" "out_state c' = out_run W is (0, [], [])"
    using assms(1,2) by (auto simp: output_adds_def)
  let ?ks = "direct W is (0, [], [])"
  have len: "length ?ks = length rs" using i(1) by (metis direct_length length_map)
  have "list_all2 (\<lambda>r k. k \<le> length (render r)) rs ?ks"
    using direct_bound [OF assms(3), of "is" "(0, [], [])"] by (simp add: i(1) list_all2_map1)
  moreover have "list_all2 (\<lambda>r k. on_wire (render r) k = render r) rs ?ks" if "whole_writes W"
    using direct_whole_writes [OF that, of "is" "(0, [], [])"] len unfolding i(1)
    by (auto simp: list_all2_conv_all_nth list_eq_iff_nth_eq)
  ultimately have "list_all2 (\<lambda>r k. k \<le> length (render r) \<and> (whole_writes W \<longrightarrow> on_wire (render r) k = render r)) rs ?ks"
    by (auto simp: list_all2_conv_all_nth)
  moreover have "written c' @ readable (outputBuffer c') = concat (map2 on_wire (map render rs) ?ks)"
    using out_run_stream [OF i(2) [unfolded out_state_def, symmetric]] i(1) by simp
  ultimately show ?thesis using i by (intro exI [of _ "is"]) (simp add: zip_map1 comp_def case_prod_unfold)
qed

text \<open>
  C3: a client that sends any sequence of well-formed requests on a new connection, each request arriving in
  pieces of which only the last reaches beyond its blank line, interleaved in any way with the events on which the
  socket becomes writable, as long as the kernel takes no more bytes than it is offered and reports no broken pipe
  (all input is received at the time \<open>t\<close>, which the requests store): the server neither aborts nor loses data, and what it has written together with what is
  still waiting in its output buffer is the responses in order, up to and including the first that closes the
  connection, each as its direct write left it on the wire (\<open>direct\<close>, of the specification of the output), and exactly the rendered responses when the kernel
  takes a write as a whole or not at all. The connection stays up unless a response closes it; then the write side is
  shut down once the output has drained. Afterwards the parser is fresh and the input buffer empty.
\<close>

theorem http_connection_end_to_end:
  assumes "list_all cr_ok qs" and "list_all (\<lambda>q. response_ok (cr_response cb t q)) qs"
    and "arrivals es = concat (map cr_chunks qs)" and "[] \<notin> set (arrivals es)" and "write_ok W"
    and "rs = answered (map (cr_response cb t) qs)"
    and "8 + length (concat (map cr_bytes qs)) \<le> max_size" and "8 + length (concat (map render rs)) \<le> max_size"
  shows "\<exists>hc0 hc is ks. http_newConnection W connName sockfd = Some hc0 \<and> exec_https cb W t es hc0 = Some hc \<and>
    messages is = map render rs \<and> ks = direct W is (0, [], []) \<and>
    (writes (hc_conn hc), written (hc_conn hc), readable (outputBuffer (hc_conn hc))) = out_run W is (0, [], []) \<and>
    list_all2 (\<lambda>r k. k \<le> length (render r) \<and> (whole_writes W \<longrightarrow> on_wire (render r) k = render r)) rs ks \<and>
    written (hc_conn hc) @ readable (outputBuffer (hc_conn hc)) = concat (map2 (\<lambda>r. on_wire (render r)) rs ks) \<and>
    (connected (hc_conn hc) \<longleftrightarrow> \<not> list_ex isCloseConnection (map (cr_response cb t) qs)) \<and>
    (list_ex isCloseConnection (map (cr_response cb t) qs) \<longrightarrow> readable (outputBuffer (hc_conn hc)) = [] \<longrightarrow>
      EShutdownWrite \<in> set (effects (hc_conn hc))) \<and>
    hc_context hc = Some HttpContext_ctor \<and> readable (inputBuffer (hc_conn hc)) = []"
proof -
  let ?as = "concat (map reply (map (cr_response cb t) qs))" and ?close = "list_ex isCloseConnection (map (cr_response cb t) qs)"
  obtain hc0 where hc0: "http_newConnection W connName sockfd = Some hc0" "hc_good hc0 HttpContext_ctor []"
      "conn_state (hc_conn hc0) = kConnected" "inputBuffer (hc_conn hc0) = empty_buffer"
      "outputBuffer (hc_conn hc0) = empty_buffer" "written (hc_conn hc0) = []" "writes (hc_conn hc0) = 0"
    using http_newConnection_good by blast
  have s: "serve_stream cb t (arrivals es) HttpContext_ctor [] = Some (?as, HttpContext_ctor, [])"
    using serve_stream_session [OF assms(1,2)] assms(3) by (simp add: comp_def)
  have a: "accepted (conn_state (hc_conn hc0) = kConnected) ?as = (map render rs, \<not> ?close)"
    using accepted_replies [of "map (cr_response cb t) qs"] hc0(3) assms(6) by simp
  have "concat (arrivals es) = concat (map cr_bytes qs)"
    using assms(1,3) by (simp add: cr_session_bytes)
  then have room: "has_room (inputBuffer (hc_conn hc0)) (length (concat (arrivals es)))"
      "has_room (outputBuffer (hc_conn hc0)) (length (concat (map render rs)))"
    using assms(7,8) hc0(4,5) by (simp_all add: has_room_def empty_buffer_def)
  from http_conn_refines [OF assms(5) hc0(2) s assms(4) a room] obtain hc where
    hc: "exec_https cb W t es hc0 = Some hc" "hc_good hc HttpContext_ctor []" "conn_state (hc_conn hc) = kConnected \<longleftrightarrow> \<not> ?close"
      "output_adds W (map render rs) (hc_conn hc0) (hc_conn hc)" by blast
  have "conn_state (hc_conn hc) = kConnected \<or> conn_state (hc_conn hc) = kDisconnecting"
    using hc(2) by (simp add: hc_good_def conn_good_def conn_live_def)
  then have "EShutdownWrite \<in> set (effects (hc_conn hc))" if "?close" "readable (outputBuffer (hc_conn hc)) = []"
    using that hc(2,3) by (auto simp: hc_good_def conn_good_def)
  moreover have "out_state (hc_conn hc0) = (0, [], [])" using hc0(5-7) by (simp add: out_state_def readable_empty)
  ultimately show ?thesis
    using output_adds_renders [OF hc(4) _ assms(5)] hc hc0(1) unfolding connected_def hc_good_def out_state_def by fastforce
qed

theorem http_connection_end_to_end_witness:
  "\<exists>hc0 hc. http_newConnection (\<lambda>n d. Wrote (length d)) ''c#1'' 5 = Some hc0 \<and>
     exec_https defaultHttpCallback (\<lambda>n d. Wrote (length d)) 0
       [Arrives ''GET /'', CanWrite, Arrives ('' HTTP/1.1'' @ kCRLF @ kCRLF), Arrives ''GET /'',
        Arrives ('' HTTP/1.1'' @ kCRLF @ kCRLF), CanWrite] hc0 = Some hc \<and>
     written (hc_conn hc) @ readable (outputBuffer (hc_conn hc)) = demo_answer \<and> \<not> connected (hc_conn hc)"
proof -
  let ?W = "\<lambda>n d. Wrote (length d)" and ?qs = "[demo_request, demo_request]"
  let ?es = "[Arrives ''GET /'', CanWrite, Arrives ('' HTTP/1.1'' @ kCRLF @ kCRLF), Arrives ''GET /'',
    Arrives ('' HTTP/1.1'' @ kCRLF @ kCRLF), CanWrite]"
  have es: "arrivals ?es = concat (map cr_chunks ?qs)" "[] \<notin> set (arrivals ?es)"
    by (simp_all add: demo_request_def cr_chunks_def)
  have W: "write_ok ?W" "whole_writes ?W" by (simp_all add: write_ok_def whole_writes_def)
  have len: "8 + length (concat (map render (answered (map (cr_response defaultHttpCallback 0) ?qs)))) \<le> max_size"
    by (simp add: demo_response demo_answer_def kCRLF_def max_size_def)
  from http_connection_end_to_end [OF _ _ es W(1) refl demo_request_length len, of "''c#1''" 5] W(2) demo_request_ok
  show ?thesis by (auto simp: demo_response list_all2_Cons1 simp del: exec_https.simps)
qed

end
