(* ===== verification/FileUtil.thy ===== *)
theory FileUtil
  imports Printf
begin

text \<open>
  \<open>tmuduo/base/FileUtil.h\<close>, \<open>FileUtil.cc\<close> and \<open>LogFile.cc\<close>: reading a small file,
  appending to a log file, and rolling from one log file to the next. The kernel's \<open>read\<close> and
  \<open>pread\<close>, stdio's \<open>fopen\<close> and \<open>fwrite_unlocked\<close>, the clock and the text of the date are parameters.
  \<open>None\<close> is a failed assertion or the use of a null \<open>file_\<close>.
\<close>

subsection \<open>ReadSmallFile\<close>

text \<open>\<open>Inl errno\<close> is a failed call.\<close>

record small_file =
  sf_fd :: fd
  sf_err :: int
  sf_buf :: bytes

definition kBufferSize :: nat where
  "kBufferSize = 64 * 1024"

definition ReadSmallFile_ctor :: "int + fd \<Rightarrow> small_file" where
  "ReadSmallFile_ctor opened = (case opened of
       Inl errno \<Rightarrow> \<lparr>sf_fd = -1, sf_err = errno, sf_buf = [CHR 0x00]\<rparr>
     | Inr fd \<Rightarrow> \<lparr>sf_fd = fd, sf_err = 0, sf_buf = [CHR 0x00]\<rparr>)"

text \<open>
  \<open>sysread off count\<close> is the result of \<open>read\<close> with the file position at \<open>off\<close>. A
  result longer than requested cannot happen; the model cuts it.
\<close>

lemma read_progress:
  "length content < maxSize \<Longrightarrow> s \<noteq> [] \<Longrightarrow>
     maxSize - length (content @ take (min (maxSize - length content) kBufferSize) s) < maxSize - length content"
  by (cases s) (auto simp: kBufferSize_def min_def)

function read_loop :: "(nat \<Rightarrow> nat \<Rightarrow> int + bytes) \<Rightarrow> nat \<Rightarrow> int \<Rightarrow> bytes \<Rightarrow> int \<times> bytes" where
  "read_loop sysread maxSize err content =
     (if length content < maxSize then
        (let toRead = min (maxSize - length content) kBufferSize in
         case sysread (length content) toRead of
           Inl errno \<Rightarrow> (errno, content)
         | Inr s \<Rightarrow> if s \<noteq> [] then read_loop sysread maxSize err (content @ take toRead s) else (err, content))
      else (err, content))"
  by auto
termination
  by (relation "measure (\<lambda>(_, maxSize, _, content). maxSize - length content)") (use read_progress in simp_all)

declare read_loop.simps [simp del]

datatype file_kind = RegularFile | Directory | OtherFile

text \<open>\<open>fstat\<close> gives an error or the kind, size, modification and creation time of the file.\<close>

record file_stat =
  st_kind :: file_kind
  st_size :: int
  st_mtime :: int
  st_ctime :: int

text \<open>
  The result holds the error, the content (or the old string, when the descriptor is not usable),
  and the three optional outputs as they are after the call. \<open>wants\<close> is \<open>fileSize != nullptr\<close>.
\<close>

definition EISDIR :: int where "EISDIR = 21"

definition readToString ::
  "(nat \<Rightarrow> nat \<Rightarrow> int + bytes) \<Rightarrow> int + file_stat \<Rightarrow> bool \<Rightarrow> nat \<Rightarrow> bytes \<Rightarrow> small_file \<Rightarrow> int \<times> bytes \<times> file_stat option" where
  "readToString sysread fstat wants maxSize old f =
     (let err = sf_err f in
      if sf_fd f > 0 then
        (let (err, st) =
           (if wants then
              (case fstat of
                 Inr st \<Rightarrow> (if st_kind st = Directory then EISDIR else err, Some st)
               | Inl errno \<Rightarrow> (errno, None))
            else (err, None));
           (err, content) = read_loop sysread maxSize err []
         in (err, content, st))
      else (err, old, None))"

definition readFile :: "(nat \<Rightarrow> nat \<Rightarrow> int + bytes) \<Rightarrow> int + fd \<Rightarrow> nat \<Rightarrow> bytes \<Rightarrow> int \<times> bytes" where
  "readFile sysread opened maxSize old =
     (let file = ReadSmallFile_ctor opened; (err, content, _) = readToString sysread (Inl 0) False maxSize old file
      in (err, content))"

definition readToBuffer :: "(nat \<Rightarrow> nat \<Rightarrow> int + bytes) \<Rightarrow> small_file \<Rightarrow> int \<times> int option \<times> small_file" where
  "readToBuffer pread f =
     (if sf_fd f \<ge> 0 then
        (case pread 0 (kBufferSize - 1) of
           Inr s \<Rightarrow> (sf_err f, Some (int (length s)), f\<lparr>sf_buf := s @ [CHR 0x00]\<rparr>)
         | Inl errno \<Rightarrow> (errno, None, f))
      else (sf_err f, None, f))"

definition ReadSmallFile_clear :: "small_file \<Rightarrow> small_file" where
  "ReadSmallFile_clear f = f\<lparr>sf_buf := [CHR 0x00]\<rparr>"

text \<open>
  A file with the given contents: \<open>read\<close> returns some bytes at the position, at least one unless the
  file ends there.
\<close>

definition reads_file :: "(nat \<Rightarrow> nat \<Rightarrow> int + bytes) \<Rightarrow> bytes \<Rightarrow> bool" where
  "reads_file sysread contents \<longleftrightarrow>
     (\<forall>off n. 0 < n \<longrightarrow> (\<exists>k \<le> n. sysread off n = Inr (take k (drop off contents)) \<and> (off < length contents \<longrightarrow> 0 < k)))"

lemma reads_file_eof:
  assumes "reads_file sysread contents" "0 < n"
  shows "sysread (length contents) n = Inr []"
proof -
  obtain k where "sysread (length contents) n = Inr (take k (drop (length contents) contents))"
    using assms unfolding reads_file_def by blast
  then show ?thesis by simp
qed

lemma read_loop_step:
  assumes "length content < maxSize" "sysread (length content) n = Inr s" "s \<noteq> []"
    "n = min (maxSize - length content) kBufferSize"
  shows "read_loop sysread maxSize err content = read_loop sysread maxSize err (content @ take n s)"
  using assms by (subst read_loop.simps) simp

lemma read_loop_prefix:
  assumes "reads_file sysread contents" "m \<le> maxSize"
  shows "read_loop sysread maxSize err (take m contents) = (err, take maxSize contents)"
  using assms(2)
proof (induction "maxSize - m" arbitrary: m rule: less_induct)
  case less
  show ?case
  proof (cases "m < length contents \<and> m < maxSize")
    case False
    then consider "length contents \<le> m" | "m = maxSize" "m < length contents" using less.prems by force
    then show ?thesis
    proof cases
      case 1
      then have "take m contents = contents" "take maxSize contents = contents" using less.prems by simp_all
      moreover have "sysread (length contents) (min (maxSize - length contents) kBufferSize) = Inr []"
        if "length contents < maxSize"
      proof -
        have "0 < min (maxSize - length contents) kBufferSize" using that by (simp add: kBufferSize_def)
        then show ?thesis by (rule reads_file_eof [OF assms(1)])
      qed
      ultimately show ?thesis by (simp add: read_loop.simps Let_def)
    next
      case 2
      then show ?thesis by (simp add: read_loop.simps)
    qed
  next
    case True
    let ?n = "min (maxSize - m) kBufferSize"
    have "0 < ?n" using True by (simp add: kBufferSize_def)
    then obtain k where k: "k \<le> ?n" "sysread m ?n = Inr (take k (drop m contents))" "0 < k"
      using assms(1) True unfolding reads_file_def by blast
    have "read_loop sysread maxSize err (take m contents) =
        read_loop sysread maxSize err (take m contents @ take ?n (take k (drop m contents)))"
      using True k by (intro read_loop_step) simp_all
    also have "take m contents @ take ?n (take k (drop m contents)) = take (m + k) contents"
      using k(1) by (simp only: take_take min_absorb2 take_add)
    also have "read_loop sysread maxSize err (take (m + k) contents) = (err, take maxSize contents)"
      using k True by (intro less.hyps) auto
    finally show ?thesis .
  qed
qed

lemma readFile_contents:
  assumes "reads_file sysread contents" "fd > 0"
  shows "readFile sysread (Inr fd) maxSize old = (0, take maxSize contents)"
  using assms read_loop_prefix [OF assms(1), of 0 maxSize]
  by (simp add: readFile_def readToString_def ReadSmallFile_ctor_def)

text \<open>The guard is \<open>fd_ > 0\<close>: a file opened as descriptor 0 is silently not read.\<close>

lemma readFile_fd0: "readFile sysread (Inr 0) maxSize old = (0, old)"
  by (simp add: readFile_def readToString_def ReadSmallFile_ctor_def)

subsection \<open>AppendFile\<close>

text \<open>
  \<open>af_content\<close> is what stdio accepted for the file. \<open>fe_fopen\<close> tells whether a file can be opened, \<open>fe_fwrite\<close> how
  many bytes are taken.
\<close>

record append_file =
  af_name :: string
  af_content :: bytes
  af_writtenBytes :: int

record file_env =
  fe_fopen :: "string \<Rightarrow> bool"
  fe_fwrite :: "append_file \<Rightarrow> bytes \<Rightarrow> nat"
  fe_time :: "nat \<Rightarrow> int"
  fe_strftime :: "int \<Rightarrow> string"
  fe_gethostname :: "string option"
  fe_getpid :: int

definition AppendFile_ctor :: "file_env \<Rightarrow> string \<Rightarrow> append_file option" where
  "AppendFile_ctor env filename = do {
     assert_that (fe_fopen env filename);
     Some \<lparr>af_name = filename, af_content = [], af_writtenBytes = 0\<rparr> }"

definition AppendFile_write :: "file_env \<Rightarrow> bytes \<Rightarrow> append_file \<Rightarrow> nat \<times> append_file" where
  "AppendFile_write env s f = (let n = min (fe_fwrite env f s) (length s) in (n, f\<lparr>af_content := af_content f @ take n s\<rparr>))"

function append_rest :: "file_env \<Rightarrow> bytes \<Rightarrow> append_file \<Rightarrow> append_file" where
  "append_rest env rest f =
     (if rest \<noteq> [] then
        (let (x, f) = AppendFile_write env rest f in
         if x = 0 then f else append_rest env (drop x rest) f)
      else f)"
  by auto
termination
  by (relation "measure (\<lambda>(_, rest, _). length rest)") (auto simp: AppendFile_write_def Let_def)

declare append_rest.simps [simp del]

definition AppendFile_append :: "file_env \<Rightarrow> bytes \<Rightarrow> append_file \<Rightarrow> append_file" where
  "AppendFile_append env logline f =
     (let (n, f) = AppendFile_write env logline f; f = append_rest env (drop n logline) f
      in f\<lparr>af_writtenBytes := af_writtenBytes f + int (length logline)\<rparr>)"

definition fwrite_progress :: "file_env \<Rightarrow> bool" where
  "fwrite_progress env \<longleftrightarrow> (\<forall>f s. s \<noteq> [] \<longrightarrow> 0 < fe_fwrite env f s)"

lemma append_rest_all:
  "fwrite_progress env \<Longrightarrow> append_rest env rest f = f\<lparr>af_content := af_content f @ rest\<rparr>"
proof (induction env rest f rule: append_rest.induct)
  case (1 env rest f)
  show ?case
  proof (cases "rest = []")
    case False
    let ?n = "min (fe_fwrite env f rest) (length rest)"
    have n: "?n \<noteq> 0" using False "1.prems" by (simp add: fwrite_progress_def)
    then have w: "AppendFile_write env rest f = (?n, f\<lparr>af_content := af_content f @ take ?n rest\<rparr>)"
      by (simp only: AppendFile_write_def Let_def)
    have "append_rest env rest f =
        append_rest env (drop ?n rest) (f\<lparr>af_content := af_content f @ take ?n rest\<rparr>)"
      by (subst append_rest.simps) (simp only: w Let_def prod.case n False if_False if_True not_False_eq_True)
    also have "\<dots> = f\<lparr>af_content := (af_content f @ take ?n rest) @ drop ?n rest\<rparr>"
      using "1.IH" [OF False w [symmetric] refl n "1.prems"] by simp
    finally show ?thesis by (simp only: append_assoc append_take_drop_id)
  qed (simp add: append_rest.simps)
qed

text \<open>As long as stdio makes progress, short writes lose nothing; in any case no more is in the file than was counted.\<close>

lemma AppendFile_append_all:
  "fwrite_progress env \<Longrightarrow> AppendFile_append env s f =
     f\<lparr>af_content := af_content f @ s, af_writtenBytes := af_writtenBytes f + int (length s)\<rparr>"
  by (simp add: AppendFile_append_def AppendFile_write_def Let_def append_rest_all)

lemma append_rest_counts:
  "af_writtenBytes (append_rest env rest f) = af_writtenBytes f \<and>
   length (af_content (append_rest env rest f)) \<le> length (af_content f) + length rest"
proof (induction env rest f rule: append_rest.induct)
  case (1 env rest f)
  obtain x f1 where w: "AppendFile_write env rest f = (x, f1)" by fastforce
  then have f1: "af_writtenBytes f1 = af_writtenBytes f" "length (af_content f1) = length (af_content f) + x" "x \<le> length rest"
    by (auto simp: AppendFile_write_def Let_def)
  show ?case
  proof (cases "rest = [] \<or> x = 0")
    case True
    then show ?thesis using w f1 by (subst (1 2) append_rest.simps) auto
  next
    case False
    then have "append_rest env rest f = append_rest env (drop x rest) f1" using w by (subst append_rest.simps) simp
    then show ?thesis using "1.IH" [OF _ w [symmetric] refl] False f1 by auto
  qed
qed

lemma AppendFile_append_counts:
  "af_writtenBytes (AppendFile_append env s f) = af_writtenBytes f + int (length s)"
  "length (af_content (AppendFile_append env s f)) \<le> length (af_content f) + length s"
  using append_rest_counts [of env "drop (min (fe_fwrite env f s) (length s)) s"
      "f\<lparr>af_content := af_content f @ take (min (fe_fwrite env f s) (length s)) s\<rparr>"]
  by (simp_all add: AppendFile_append_def AppendFile_write_def Let_def)

subsection \<open>LogFile\<close>

text \<open>
  \<open>lf_closed\<close> collects the files that a roll replaced, oldest first; \<open>lf_ticks\<close> counts the
  calls of \<open>time\<close>, and \<open>lf_flushes\<close> the calls of \<open>fflush\<close>.
\<close>

record log_file =
  lf_basename :: string
  lf_rollSize :: int
  lf_flushInterval :: int
  lf_checkEveryN :: int
  lf_count :: int
  lf_startOfPeriod :: int
  lf_lastRoll :: int
  lf_lastFlush :: int
  lf_file :: "append_file option"
  lf_closed :: "append_file list"
  lf_ticks :: nat
  lf_flushes :: nat

definition kRollPerSeconds :: int where
  "kRollPerSeconds = 60 * 60 * 24"

definition ProcessInfo_hostname :: "file_env \<Rightarrow> string" where
  "ProcessInfo_hostname env = (case fe_gethostname env of Some s \<Rightarrow> take 255 s | None \<Rightarrow> ''unknownhost'')"

definition getLogFileName :: "file_env \<Rightarrow> log_file \<Rightarrow> string \<times> int \<times> log_file" where
  "getLogFileName env lf =
     (let now = fe_time env (lf_ticks lf);
          pidbuf = snprintf 32 (''.'' @ dec_int (fe_getpid env));
          filename = lf_basename lf @ fe_strftime env now @ ProcessInfo_hostname env @ pidbuf @ ''.log''
      in (filename, now, lf\<lparr>lf_ticks := Suc (lf_ticks lf)\<rparr>))"

text \<open>Times are not negative, so division is that of the naturals.\<close>

definition rollFile :: "file_env \<Rightarrow> log_file \<Rightarrow> (bool \<times> log_file) option" where
  "rollFile env lf = do {
     let (filename, now, lf) = getLogFileName env lf;
     let start = now div kRollPerSeconds * kRollPerSeconds;
     if now > lf_lastRoll lf then do {
       let lf = lf\<lparr>lf_lastRoll := now, lf_lastFlush := now, lf_startOfPeriod := start\<rparr>;
       file \<leftarrow> AppendFile_ctor env filename;
       Some (True, lf\<lparr>lf_closed := lf_closed lf @ (case lf_file lf of None \<Rightarrow> [] | Some f \<Rightarrow> [f]), lf_file := Some file\<rparr>) }
     else Some (False, lf) }"

definition LogFile_ctor :: "file_env \<Rightarrow> string \<Rightarrow> int \<Rightarrow> int \<Rightarrow> int \<Rightarrow> log_file option" where
  "LogFile_ctor env basename rollSize flushInterval checkEveryN = do {
     let lf = \<lparr>lf_basename = basename, lf_rollSize = rollSize, lf_flushInterval = flushInterval,
       lf_checkEveryN = checkEveryN, lf_count = 0, lf_startOfPeriod = 0, lf_lastRoll = 0, lf_lastFlush = 0,
       lf_file = None, lf_closed = [], lf_ticks = 0, lf_flushes = 0\<rparr>;
     assert_that (CHR ''/'' \<notin> set basename);
     (_, lf) \<leftarrow> rollFile env lf;
     Some lf }"

definition LogFile_flush :: "log_file \<Rightarrow> log_file option" where
  "LogFile_flush lf = do {
     f \<leftarrow> lf_file lf;
     Some (lf\<lparr>lf_flushes := Suc (lf_flushes lf)\<rparr>) }"

definition append_unlocked :: "file_env \<Rightarrow> bytes \<Rightarrow> log_file \<Rightarrow> log_file option" where
  "append_unlocked env logline lf = do {
     f \<leftarrow> lf_file lf;
     let f = AppendFile_append env logline f;
     let lf = lf\<lparr>lf_file := Some f\<rparr>;
     if af_writtenBytes f > lf_rollSize lf then do { (_, lf) \<leftarrow> rollFile env lf; Some lf }
     else do {
       let lf = lf\<lparr>lf_count := lf_count lf + 1\<rparr>;
       if lf_count lf \<ge> lf_checkEveryN lf then do {
         let lf = lf\<lparr>lf_count := 0\<rparr>;
         let now = fe_time env (lf_ticks lf);
         let lf = lf\<lparr>lf_ticks := Suc (lf_ticks lf)\<rparr>;
         let thisPeriod = now div kRollPerSeconds * kRollPerSeconds;
         if thisPeriod \<noteq> lf_startOfPeriod lf then do { (_, lf) \<leftarrow> rollFile env lf; Some lf }
         else if now - lf_lastFlush lf > lf_flushInterval lf then LogFile_flush (lf\<lparr>lf_lastFlush := now\<rparr>)
         else Some lf }
       else Some lf } }"

definition LogFile_append :: "file_env \<Rightarrow> bytes \<Rightarrow> log_file \<Rightarrow> log_file option" where
  "LogFile_append env logline lf = append_unlocked env logline lf"

primrec LogFile_appends :: "file_env \<Rightarrow> bytes list \<Rightarrow> log_file \<Rightarrow> log_file option" where
  "LogFile_appends env [] lf = Some lf"
| "LogFile_appends env (s # ss) lf = LogFile_append env s lf \<bind> LogFile_appends env ss"

text \<open>All bytes of all files, in the order of the files.\<close>

definition lf_stream :: "log_file \<Rightarrow> bytes" where
  "lf_stream lf = concat (map af_content (lf_closed lf)) @ (case lf_file lf of None \<Rightarrow> [] | Some f \<Rightarrow> af_content f)"

definition clock_runs :: "file_env \<Rightarrow> bool" where
  "clock_runs env \<longleftrightarrow> 0 < fe_time env 0 \<and> (\<forall>i. fe_time env i < fe_time env (Suc i))"

text \<open>Every file can be opened.\<close>

definition files_open :: "file_env \<Rightarrow> bool" where
  "files_open env \<longleftrightarrow> (\<forall>filename. fe_fopen env filename)"

text \<open>
  The invariant: there is a file; every file holds no more bytes than were counted for it, and as many when stdio takes
  them; the last roll is in the past.
\<close>

definition lf_inv :: "file_env \<Rightarrow> log_file \<Rightarrow> bool" where
  "lf_inv env lf \<longleftrightarrow> (\<exists>f. lf_file lf = Some f \<and> int (length (af_content f)) \<le> af_writtenBytes f \<and>
     (clock_runs env \<longrightarrow> lf_lastRoll lf < fe_time env (lf_ticks lf) \<and> af_writtenBytes f \<le> max 0 (lf_rollSize lf)))"

lemma rollFile_stream:
  assumes "files_open env" "lf_file lf = Some f" "int (length (af_content f)) \<le> af_writtenBytes f"
    "clock_runs env \<Longrightarrow> lf_lastRoll lf < fe_time env (lf_ticks lf)"
  shows "\<exists>lf'. (do { (_, lf) \<leftarrow> rollFile env lf; Some lf }) = Some lf' \<and> lf_inv env lf' \<and> lf_stream lf' = lf_stream lf"
  using assms
  by (auto simp: rollFile_def getLogFileName_def Let_def lf_inv_def lf_stream_def AppendFile_ctor_def clock_runs_def files_open_def)

lemma LogFile_append_stream:
  assumes "files_open env" "lf_inv env lf"
  shows "\<exists>lf'. LogFile_append env s lf = Some lf' \<and> lf_inv env lf' \<and> (fwrite_progress env \<longrightarrow> lf_stream lf' = lf_stream lf @ s)"
proof -
  obtain f where f: "lf_file lf = Some f" "int (length (af_content f)) \<le> af_writtenBytes f"
      "clock_runs env \<Longrightarrow> lf_lastRoll lf < fe_time env (lf_ticks lf)"
    using assms(2) by (auto simp: lf_inv_def)
  define f' where "f' = AppendFile_append env s f"
  have f': "int (length (af_content f')) \<le> af_writtenBytes f'" "fwrite_progress env \<longrightarrow> af_content f' = af_content f @ s"
    using f(2) AppendFile_append_counts [of env s f] by (simp_all add: f'_def AppendFile_append_all)
  let ?lf = "lf\<lparr>lf_file := Some f'\<rparr>"
  have st: "fwrite_progress env \<longrightarrow> lf_stream ?lf = lf_stream lf @ s" using f f' by (simp add: lf_stream_def)
  have tick: "clock_runs env \<Longrightarrow> lf_lastRoll lf < fe_time env (Suc (lf_ticks lf))"
    using f(3) by (auto simp: clock_runs_def intro: less_trans)
  have roll: "\<exists>lf'. (do { (_, lf) \<leftarrow> rollFile env l; Some lf }) = Some lf' \<and> lf_inv env lf' \<and>
      (fwrite_progress env \<longrightarrow> lf_stream lf' = lf_stream lf @ s)"
    if "lf_file l = Some f'" "lf_closed l = lf_closed lf" "lf_lastRoll l = lf_lastRoll lf"
      "lf_ticks l = lf_ticks lf \<or> lf_ticks l = Suc (lf_ticks lf)" for l
    using rollFile_stream [OF assms(1), of l f'] that f'(1) f(3) tick st by (auto simp: lf_stream_def)
  have keep: "lf_inv env l \<and> (fwrite_progress env \<longrightarrow> lf_stream l = lf_stream lf @ s)"
    if "lf_file l = Some f'" "lf_closed l = lf_closed lf" "lf_lastRoll l = lf_lastRoll lf" "lf_rollSize l = lf_rollSize lf"
      "lf_ticks l = lf_ticks lf \<or> lf_ticks l = Suc (lf_ticks lf)" "af_writtenBytes f' \<le> lf_rollSize lf" for l
    using that f'(1) f(3) tick st by (auto simp: lf_inv_def lf_stream_def)
  show ?thesis
    using roll keep by (auto simp: LogFile_append_def append_unlocked_def f(1) Let_def LogFile_flush_def simp flip: f'_def)
qed

lemma LogFile_ctor_inv:
  assumes "CHR ''/'' \<notin> set basename" "0 < fe_time env 0" "files_open env"
  shows "\<exists>lf. LogFile_ctor env basename rollSize flushInterval checkEveryN = Some lf \<and> lf_inv env lf \<and> lf_stream lf = []"
  using assms
  by (auto simp: LogFile_ctor_def rollFile_def getLogFileName_def Let_def lf_inv_def lf_stream_def AppendFile_ctor_def clock_runs_def
      files_open_def)

text \<open>A log file that cannot be opened aborts the process in its constructor.\<close>

lemma LogFile_ctor_fails:
  assumes "0 < fe_time env 0" "\<forall>filename. \<not> fe_fopen env filename"
  shows "LogFile_ctor env basename rollSize flushInterval checkEveryN = None"
  using assms by (simp add: LogFile_ctor_def rollFile_def getLogFileName_def Let_def AppendFile_ctor_def assert_that_def)

subsection \<open>formattedName\<close>

text \<open>
  The part of a path after its last slash, copied into a static array \<open>buf\<close> of 32 bytes, without a terminator:
  what the caller reads ends at the first null byte of the array. Without a slash the pointer leaves the string at the
  front, and a name of more than 32 bytes leaves the array; both are undefined.
\<close>

definition formattedName :: "string \<Rightarrow> bytes \<Rightarrow> bytes option" where
  "formattedName path buf = do {
     assert_that (CHR ''/'' \<in> set path);
     let p = rev (takeWhile (\<lambda>c. c \<noteq> CHR ''/'') (rev path));
     assert_that (length p \<le> 32);
     Some (p @ drop (length p) buf) }"

definition static_text :: "bytes \<Rightarrow> string" where
  "static_text buf = takeWhile (\<lambda>c. c \<noteq> CHR 0x00) buf"

lemma formattedName_eq:
  assumes "CHR ''/'' \<notin> set name" "length name \<le> 32"
  shows "formattedName (dir @ CHR ''/'' # name) buf = Some (name @ drop (length name) buf)"
proof -
  have "takeWhile (\<lambda>c. c \<noteq> CHR ''/'') (rev name @ CHR ''/'' # rev dir) = rev name"
    using assms(1) by (subst takeWhile_append2) auto
  then show ?thesis using assms(2) by (simp add: formattedName_def)
qed

text \<open>The first call returns the name; a later call for a shorter name returns it with the end of the first one.\<close>

lemma formattedName_calls:
  assumes "CHR ''/'' \<notin> set name1 \<union> set name2" "CHR 0x00 \<notin> set name1 \<union> set name2"
    and "length name2 \<le> length name1" "length name1 < 32"
  shows "\<exists>buf1 buf2. formattedName (dir1 @ CHR ''/'' # name1) (replicate 32 (CHR 0x00)) = Some buf1 \<and> static_text buf1 = name1 \<and>
     formattedName (dir2 @ CHR ''/'' # name2) buf1 = Some buf2 \<and> static_text buf2 = name2 @ drop (length name2) name1"
proof -
  let ?zeros = "replicate (32 - length name1) (CHR 0x00)"
  have upto: "static_text (xs @ ?zeros) = xs" if "CHR 0x00 \<notin> set xs" for xs
    unfolding static_text_def using that assms(4) by (subst takeWhile_append2) (auto simp: takeWhile_replicate)
  have "CHR 0x00 \<notin> set (name2 @ drop (length name2) name1)" using assms(2) by (auto dest: in_set_dropD)
  then have "static_text ((name2 @ drop (length name2) name1) @ ?zeros) = name2 @ drop (length name2) name1" by (rule upto)
  then show ?thesis
    using assms upto [of name1] by (simp add: formattedName_eq)
qed

end
