(* ===== verification/Sync.thy ===== *)
theory Sync
  imports Prelude
begin

text \<open>
  \<open>tmuduo/base/BlockingQueue.h\<close>, \<open>BoundedBlockingQueue.h\<close>, \<open>CountDownLatch.cc\<close> and
  \<open>ThreadPool.h\<close>: the thread synchronisation of the library. What a thread does while it holds the
  mutex is one atomic step; \<open>condition_variable::wait\<close> gives the mutex up, so that it ends a step, and
  a woken thread tests its condition again in a later step. \<open>notify_one\<close> wakes an arbitrary waiter,
  if there is one, and a waiter may also wake without a notification.
\<close>

subsection \<open>The queues\<close>

text \<open>
  The body of each operation once the mutex is held, from its start or from the return of a \<open>wait\<close>: the thread waits on a
  condition variable, a failed assertion stops the process, or the operation finishes with its result, the new queue and the condition
  variables it has notified.
\<close>

datatype condvar = NotEmpty | NotFull

datatype ('r, 'a) q_outcome = Wait condvar | AssertionFails | Finish 'r "'a list" "condvar list"

text \<open>The result and the queue of an operation that neither waits nor fails.\<close>

primrec at_once :: "('r, 'a) q_outcome \<Rightarrow> ('r \<times> 'a list) option" where
  "at_once (Wait cv) = None"
| "at_once AssertionFails = None"
| "at_once (Finish r queue cvs) = Some (r, queue)"

definition BlockingQueue_put :: "'a \<Rightarrow> 'a list \<Rightarrow> (unit, 'a) q_outcome" where
  "BlockingQueue_put x queue = Finish () (queue @ [x]) [NotEmpty]"

definition BlockingQueue_take :: "'a list \<Rightarrow> ('a, 'a) q_outcome" where
  "BlockingQueue_take queue =
     (if queue = [] then Wait NotEmpty
      else if \<not> queue \<noteq> [] then AssertionFails
      else Finish (hd queue) (tl queue) [])"

definition BlockingQueue_size :: "'a list \<Rightarrow> nat" where
  "BlockingQueue_size queue = length queue"

definition BoundedBlockingQueue_put :: "nat \<Rightarrow> 'a \<Rightarrow> 'a list \<Rightarrow> (unit, 'a) q_outcome" where
  "BoundedBlockingQueue_put maxSize x queue =
     (if length queue = maxSize then Wait NotFull
      else if \<not> length queue < maxSize then AssertionFails
      else Finish () (queue @ [x]) [NotEmpty])"

definition BoundedBlockingQueue_take :: "'a list \<Rightarrow> ('a, 'a) q_outcome" where
  "BoundedBlockingQueue_take queue =
     (if queue = [] then Wait NotEmpty else Finish (hd queue) (tl queue) [NotFull])"

definition BoundedBlockingQueue_empty :: "'a list \<Rightarrow> bool" where
  "BoundedBlockingQueue_empty queue \<longleftrightarrow> queue = []"

definition BoundedBlockingQueue_full :: "nat \<Rightarrow> 'a list \<Rightarrow> bool" where
  "BoundedBlockingQueue_full maxSize queue \<longleftrightarrow> length queue = maxSize"

definition BoundedBlockingQueue_size :: "'a list \<Rightarrow> nat" where
  "BoundedBlockingQueue_size queue = length queue"

subsection \<open>Threads at a queue\<close>

text \<open>
  A thread is about to take the mutex (\<open>Putting\<close>, \<open>Taking\<close>), waits on a condition variable in one of the two
  operations, or is outside. The ghost fields \<open>q_put\<close> and \<open>q_taken\<close> log the items in
  the order of the steps; \<open>q_aborted\<close> says that an assertion has failed.
\<close>

datatype 'a qthread = Putting 'a | PutWaits condvar 'a | Taking | TakeWaits condvar | Idle

record 'a qstate =
  q_queue :: "'a list"
  q_threads :: "'a qthread list"
  q_put :: "'a list"
  q_taken :: "'a list"
  q_aborted :: bool

definition is_taking :: "'a qthread \<Rightarrow> bool" where "is_taking t \<longleftrightarrow> t = Taking"

fun is_putting :: "'a qthread \<Rightarrow> bool" where
  "is_putting (Putting x) \<longleftrightarrow> True" | "is_putting _ \<longleftrightarrow> False"

fun waits_on :: "condvar \<Rightarrow> 'a qthread \<Rightarrow> bool" where
  "waits_on cv (PutWaits cv' x) \<longleftrightarrow> cv' = cv" | "waits_on cv (TakeWaits cv') \<longleftrightarrow> cv' = cv" | "waits_on cv _ \<longleftrightarrow> False"

fun woken :: "'a qthread \<Rightarrow> 'a qthread" where
  "woken (PutWaits cv x) = Putting x" | "woken (TakeWaits cv) = Taking" | "woken t = t"

definition how_many :: "('a qthread \<Rightarrow> bool) \<Rightarrow> 'a qthread list \<Rightarrow> nat" where
  "how_many P ts = length (filter P ts)"

text \<open>\<open>notify_one\<close>, as a relation: some waiter becomes ready, or there is none.\<close>

definition notify_one :: "condvar \<Rightarrow> 'a qthread list \<Rightarrow> 'a qthread list \<Rightarrow> bool" where
  "notify_one cv ts ts' \<longleftrightarrow>
     (\<exists>j < length ts. waits_on cv (ts ! j) \<and> ts' = ts[j := woken (ts ! j)]) \<or> (\<not> list_ex (waits_on cv) ts \<and> ts' = ts)"

fun notify :: "condvar list \<Rightarrow> 'a qthread list \<Rightarrow> 'a qthread list \<Rightarrow> bool" where
  "notify [] ts ts' \<longleftrightarrow> ts' = ts"
| "notify (cv # cvs) ts ts' \<longleftrightarrow> (\<exists>ts1. notify_one cv ts ts1 \<and> notify cvs ts1 ts')"

inductive qstep :: "('a \<Rightarrow> 'a list \<Rightarrow> (unit, 'a) q_outcome) \<Rightarrow> ('a list \<Rightarrow> ('a, 'a) q_outcome) \<Rightarrow> 'a qstate \<Rightarrow> 'a qstate \<Rightarrow> bool"
  for put take_op where
  PutWait: "i < length (q_threads s) \<Longrightarrow> q_threads s ! i = Putting x \<Longrightarrow> put x (q_queue s) = Wait cv \<Longrightarrow>
     qstep put take_op s (s\<lparr>q_threads := (q_threads s)[i := PutWaits cv x]\<rparr>)"
| PutAbort: "i < length (q_threads s) \<Longrightarrow> q_threads s ! i = Putting x \<Longrightarrow> put x (q_queue s) = AssertionFails \<Longrightarrow>
     qstep put take_op s (s\<lparr>q_aborted := True\<rparr>)"
| PutDone: "i < length (q_threads s) \<Longrightarrow> q_threads s ! i = Putting x \<Longrightarrow> put x (q_queue s) = Finish () q' cvs \<Longrightarrow>
     notify cvs ((q_threads s)[i := Idle]) ts' \<Longrightarrow>
     qstep put take_op s (s\<lparr>q_queue := q', q_threads := ts', q_put := q_put s @ [x]\<rparr>)"
| TakeWait: "i < length (q_threads s) \<Longrightarrow> q_threads s ! i = Taking \<Longrightarrow> take_op (q_queue s) = Wait cv \<Longrightarrow>
     qstep put take_op s (s\<lparr>q_threads := (q_threads s)[i := TakeWaits cv]\<rparr>)"
| TakeAbort: "i < length (q_threads s) \<Longrightarrow> q_threads s ! i = Taking \<Longrightarrow> take_op (q_queue s) = AssertionFails \<Longrightarrow>
     qstep put take_op s (s\<lparr>q_aborted := True\<rparr>)"
| TakeDone: "i < length (q_threads s) \<Longrightarrow> q_threads s ! i = Taking \<Longrightarrow> take_op (q_queue s) = Finish x q' cvs \<Longrightarrow>
     notify cvs ((q_threads s)[i := Idle]) ts' \<Longrightarrow>
     qstep put take_op s (s\<lparr>q_queue := q', q_threads := ts', q_taken := q_taken s @ [x]\<rparr>)"
| Spurious: "i < length (q_threads s) \<Longrightarrow>
     qstep put take_op s (s\<lparr>q_threads := (q_threads s)[i := woken (q_threads s ! i)]\<rparr>)"
| Call: "i < length (q_threads s) \<Longrightarrow> q_threads s ! i = Idle \<Longrightarrow> t = Taking \<or> t = Putting x \<Longrightarrow>
     qstep put take_op s (s\<lparr>q_threads := (q_threads s)[i := t]\<rparr>)"

definition qinit :: "nat \<Rightarrow> 'a qstate" where
  "qinit n = \<lparr>q_queue = [], q_threads = replicate n Idle, q_put = [], q_taken = [], q_aborted = False\<rparr>"

definition qreach :: "('a \<Rightarrow> 'a list \<Rightarrow> (unit, 'a) q_outcome) \<Rightarrow> ('a list \<Rightarrow> ('a, 'a) q_outcome) \<Rightarrow> nat \<Rightarrow> 'a qstate \<Rightarrow> bool" where
  "qreach put take_op n s \<longleftrightarrow> (qstep put take_op)\<^sup>*\<^sup>* (qinit n) s"

subsection \<open>Counting threads\<close>

lemma how_many_update:
  "i < length ts \<Longrightarrow> how_many P (ts[i := t]) + (if P (ts ! i) then 1 else 0) = how_many P ts + (if P t then 1 else 0)"
proof (induction ts arbitrary: i)
  case (Cons u ts)
  then show ?case by (cases i) (auto simp: how_many_def)
qed simp

lemma list_ex_how_many: "list_ex P ts \<longleftrightarrow> 0 < how_many P ts"
  by (induction ts) (auto simp: how_many_def)

text \<open>The four counters that matter: ready and waiting, on each side.\<close>

definition counts :: "'a qthread list \<Rightarrow> nat \<times> nat \<times> nat \<times> nat" where
  "counts ts = (how_many is_putting ts, how_many (waits_on NotFull) ts, how_many is_taking ts, how_many (waits_on NotEmpty) ts)"

fun kind_of :: "'a qthread \<Rightarrow> nat \<times> nat \<times> nat \<times> nat" where
  "kind_of (Putting x) = (1, 0, 0, 0)" | "kind_of (PutWaits NotFull x) = (0, 1, 0, 0)" | "kind_of (PutWaits NotEmpty x) = (0, 0, 0, 1)"
| "kind_of Taking = (0, 0, 1, 0)" | "kind_of (TakeWaits NotEmpty) = (0, 0, 0, 1)" | "kind_of (TakeWaits NotFull) = (0, 1, 0, 0)"
| "kind_of Idle = (0, 0, 0, 0)"

text \<open>Producers wait for room and consumers for items.\<close>

fun ordinary :: "'a qthread \<Rightarrow> bool" where
  "ordinary (PutWaits cv x) \<longleftrightarrow> cv = NotFull" | "ordinary (TakeWaits cv) \<longleftrightarrow> cv = NotEmpty" | "ordinary _ \<longleftrightarrow> True"

lemma kind_of_eq:
  "kind_of t = (if is_putting t then 1 else 0, if waits_on NotFull t then 1 else 0, if is_taking t then 1 else 0, if waits_on NotEmpty t then 1 else 0)"
  by (cases t rule: kind_of.cases) (simp_all add: is_taking_def)

lemma list_all_update: "list_all P xs \<Longrightarrow> P x \<Longrightarrow> list_all P (xs[i := x])"
  using set_update_subset_insert [of xs i x] by (auto simp: list_all_iff)

lemma counts_update:
  assumes "i < length ts" "counts ts = (a, b, c, d)" "kind_of (ts ! i) = (a1, b1, c1, d1)" "kind_of t = (a2, b2, c2, d2)"
    "counts (ts[i := t]) = (a', b', c', d')"
  shows "a' + a1 = a + a2" "b' + b1 = b + b2" "c' + c1 = c + c2" "d' + d1 = d + d2"
  using assms how_many_update [OF assms(1), of is_putting t] how_many_update [OF assms(1), of "waits_on NotFull" t]
    how_many_update [OF assms(1), of is_taking t] how_many_update [OF assms(1), of "waits_on NotEmpty" t]
  unfolding kind_of_eq counts_def by (simp_all only: prod.inject)

lemma counts_change:
  assumes "i < length ts" "counts ts = (a, b, c, d)" "kind_of (ts ! i) = (a1, b1, c1, d1)" "kind_of t = (a2, b2, c2, d2)"
  shows "counts (ts[i := t]) = (a + a2 - a1, b + b2 - b1, c + c2 - c1, d + d2 - d1)"
    "a1 \<le> a + a2 \<and> b1 \<le> b + b2 \<and> c1 \<le> c + c2 \<and> d1 \<le> d + d2"
proof -
  obtain a' b' c' d' where n: "counts (ts[i := t]) = (a', b', c', d')" by (cases "counts (ts[i := t])")
  note u = counts_update [OF assms n]
  show "a1 \<le> a + a2 \<and> b1 \<le> b + b2 \<and> c1 \<le> c + c2 \<and> d1 \<le> d + d2" using u by simp
  show "counts (ts[i := t]) = (a + a2 - a1, b + b2 - b1, c + c2 - c1, d + d2 - d1)"
    unfolding n u [symmetric] by simp
qed

lemma notify_not_empty:
  assumes "notify_one NotEmpty ts ts'" "counts ts = (a, b, c, d)" "list_all ordinary ts"
  shows "counts ts' = (if 0 < d then (a, b, c + 1, d - 1) else (a, b, c, d)) \<and> list_all ordinary ts'"
proof -
  obtain a' b' c' d' where ts': "counts ts' = (a', b', c', d')" by (cases "counts ts'")
  have ord: "ordinary (ts ! j)" if "j < length ts" for j using assms(3) that by (simp add: list_all_length)
  from assms(1) ord consider (wake) j where "j < length ts" "ts ! j = TakeWaits NotEmpty" "ts' = ts[j := Taking]"
    | (none) "\<not> list_ex (waits_on NotEmpty) ts" "ts' = ts"
    by (fastforce simp: notify_one_def elim!: waits_on.elims)
  then show ?thesis
  proof cases
    case wake
    then have "0 < d" using assms(2) by (auto simp: counts_def list_ex_how_many [symmetric] list_ex_iff) (metis nth_mem waits_on.simps(2))
    with counts_update [of j ts a b c d 0 0 0 1 Taking 0 0 1 0 a' b' c' d'] wake assms(2,3) ts' show ?thesis
      by (auto simp: list_all_length nth_list_update)
  next
    case none
    then show ?thesis using assms(2,3) by (auto simp: counts_def list_ex_how_many)
  qed
qed

lemma notify_not_full:
  assumes "notify_one NotFull ts ts'" "counts ts = (a, b, c, d)" "list_all ordinary ts"
  shows "counts ts' = (if 0 < b then (a + 1, b - 1, c, d) else (a, b, c, d)) \<and> list_all ordinary ts'"
proof -
  obtain a' b' c' d' where ts': "counts ts' = (a', b', c', d')" by (cases "counts ts'")
  have ord: "ordinary (ts ! j)" if "j < length ts" for j using assms(3) that by (simp add: list_all_length)
  from assms(1) ord consider (wake) j x where "j < length ts" "ts ! j = PutWaits NotFull x" "ts' = ts[j := Putting x]"
    | (none) "\<not> list_ex (waits_on NotFull) ts" "ts' = ts"
    by (fastforce simp: notify_one_def elim!: waits_on.elims)
  then show ?thesis
  proof cases
    case wake
    then have "0 < b" using assms(2) by (auto simp: counts_def list_ex_how_many [symmetric] list_ex_iff) (metis nth_mem waits_on.simps(1))
    with counts_update [of j ts a b c d 0 1 0 0 "Putting x" 1 0 0 0 a' b' c' d'] wake assms(2,3) ts' show ?thesis
      by (auto simp: list_all_length nth_list_update)
  next
    case none
    then show ?thesis using assms(2,3) by (auto simp: counts_def list_ex_how_many)
  qed
qed

subsection \<open>The contract of a blocking queue\<close>

text \<open>
  A queue of capacity \<open>cap\<close> (\<open>None\<close>: unbounded). The invariant: items leave in the order they
  entered, the capacity is respected, and no wakeup is lost: while a consumer waits there
  are at least as many ready consumers as items, while a producer waits at least as many ready
  producers as free places.
\<close>

definition q_inv :: "nat option \<Rightarrow> 'a qstate \<Rightarrow> bool" where
  "q_inv cap s \<longleftrightarrow> \<not> q_aborted s \<and> list_all ordinary (q_threads s) \<and> q_put s = q_taken s @ q_queue s \<and> (\<forall>m. cap = Some m \<longrightarrow> length (q_queue s) \<le> m) \<and>
     (case counts (q_threads s) of (pr, pw, cr, cw) \<Rightarrow>
       (0 < cw \<longrightarrow> length (q_queue s) \<le> cr) \<and> (0 < pw \<longrightarrow> (\<exists>m. cap = Some m \<and> m \<le> length (q_queue s) + pr)))"

text \<open>A thread that becomes ready changes nothing else.\<close>

lemma q_inv_ready:
  assumes "q_inv cap s" "counts (q_threads s) = (pr, pw, cr, cw)" "counts ts = (pr', pw', cr', cw')"
    "pr \<le> pr'" "pw' \<le> pw" "cr \<le> cr'" "cw' \<le> cw" "list_all ordinary ts"
  shows "q_inv cap (s\<lparr>q_threads := ts\<rparr>)"
  using assms by (fastforce simp: q_inv_def)

locale blocking_queue =
  fixes put :: "'a \<Rightarrow> 'a list \<Rightarrow> (unit, 'a) q_outcome"
    and take_op :: "'a list \<Rightarrow> ('a, 'a) q_outcome"
    and cap :: "nat option"
  assumes put_full: "cap = Some (length q) \<Longrightarrow> put x q = Wait NotFull"
    and put_room: "\<forall>m. cap = Some m \<longrightarrow> length q < m \<Longrightarrow> put x q = Finish () (q @ [x]) [NotEmpty]"
    and take_empty: "take_op [] = Wait NotEmpty"
    and take_front: "take_op (x # q) = Finish x q (if cap = None then [] else [NotFull])"
begin

lemma put_cases:
  assumes "q_inv cap s"
  shows "cap = Some (length (q_queue s)) \<and> put x (q_queue s) = Wait NotFull \<or>
    cap \<noteq> Some (length (q_queue s)) \<and> put x (q_queue s) = Finish () (q_queue s @ [x]) [NotEmpty]"
  using assms put_full [of "q_queue s" x] put_room [of "q_queue s" x] by (cases cap) (auto simp: q_inv_def le_less)

lemma take_cases:
  "q_queue s = [] \<and> take_op (q_queue s) = Wait NotEmpty \<or>
    (\<exists>x q. q_queue s = x # q \<and> take_op (q_queue s) = Finish x q (if cap = None then [] else [NotFull]))"
  using take_empty take_front by (cases "q_queue s") auto

lemma qstep_inv:
  assumes "qstep put take_op s s'" "q_inv cap s"
  shows "q_inv cap s'"
proof -
  obtain pr pw cr cw where c: "counts (q_threads s) = (pr, pw, cr, cw)" by (cases "counts (q_threads s)")
  note change = counts_change [OF _ c]
  have ord: "list_all ordinary ((q_threads s)[i := t])" if "ordinary t" for i t
    using assms(2) that list_all_update by (auto simp: q_inv_def)
  from assms(1) show ?thesis
  proof cases
    case (PutWait i x cv)
    then have "cap = Some (length (q_queue s))" "cv = NotFull" using put_cases [OF assms(2), of x] by auto
    then show ?thesis using assms(2) change [of i 1 0 0 0 "PutWaits NotFull x" 0 1 0 0] PutWait c ord by (auto simp: q_inv_def)
  next
    case (PutAbort i x)
    then show ?thesis using put_cases [OF assms(2), of x] by auto
  next
    case (PutDone i x q' cvs ts')
    then have cap: "cap \<noteq> Some (length (q_queue s))" "q' = q_queue s @ [x]" "cvs = [NotEmpty]" using put_cases [OF assms(2), of x] by auto
    have n: "counts ((q_threads s)[i := Idle]) = (pr - 1, pw, cr, cw)" "1 \<le> pr"
      using change [of i 1 0 0 0 Idle 0 0 0 0] PutDone by simp_all
    have "notify_one NotEmpty ((q_threads s)[i := Idle]) ts'" using PutDone(5) cap(3) by simp
    from notify_not_empty [OF this n(1) ord] assms(2) PutDone c cap n(2) show ?thesis by (auto simp: q_inv_def le_less)
  next
    case (TakeWait i cv)
    then have e: "q_queue s = []" "cv = NotEmpty" using take_cases [of s] by auto
    then show ?thesis using assms(2) change [of i 0 0 1 0 "TakeWaits NotEmpty" 0 0 0 1] TakeWait c ord by (auto simp: q_inv_def)
  next
    case (TakeAbort i)
    then show ?thesis using take_cases [of s] by auto
  next
    case (TakeDone i x q' cvs ts')
    then have q: "q_queue s = x # q'" "cvs = (if cap = None then [] else [NotFull])" using take_cases [of s] by auto
    have n: "counts ((q_threads s)[i := Idle]) = (pr, pw, cr - 1, cw)" "1 \<le> cr"
      using change [of i 0 0 1 0 Idle 0 0 0 0] TakeDone by simp_all
    show ?thesis
    proof (cases cap)
      case None
      then have "ts' = (q_threads s)[i := Idle]" using TakeDone(5) q(2) by simp
      then show ?thesis using None assms(2) TakeDone c q n ord by (auto simp: q_inv_def)
    next
      case (Some m)
      then have "notify_one NotFull ((q_threads s)[i := Idle]) ts'" using TakeDone(5) q(2) by simp
      from notify_not_full [OF this n(1) ord] assms(2) TakeDone c q Some n(2) show ?thesis by (auto simp: q_inv_def)
    qed
  next
    case (Spurious i)
    obtain a1 b1 e1 f1 where k: "kind_of (q_threads s ! i) = (a1, b1, e1, f1)" by (cases "kind_of (q_threads s ! i)")
    have "ordinary (q_threads s ! i)" using assms(2) Spurious(2) by (simp add: q_inv_def list_all_length)
    then have k': "kind_of (woken (q_threads s ! i)) = (a1 + b1, 0, e1 + f1, 0)" "ordinary (woken (q_threads s ! i))"
      using k by (cases "q_threads s ! i" rule: kind_of.cases; auto)+
    show ?thesis unfolding Spurious(1)
      by (rule q_inv_ready [OF assms(2) c change(1) [OF Spurious(2) k k'(1)]]) (use ord [OF k'(2)] in simp_all)
  next
    case (Call i t x)
    obtain a b e f where k: "kind_of t = (a, b, e, f)" "b = 0" "f = 0" "ordinary t" using Call(4) by auto
    show ?thesis unfolding Call(1)
      by (rule q_inv_ready [OF assms(2) c change(1) [OF Call(2) _ k(1), of 0 0 0 0]]) (use Call(3) k ord [OF k(4)] in simp_all)
  qed
qed

lemma qreach_inv: "qreach put take_op n s \<Longrightarrow> q_inv cap s"
  unfolding qreach_def
proof (induction rule: rtranclp_induct)
  case base
  have "how_many P (replicate n Idle) = 0" if "\<not> P (Idle :: 'a qthread)" for P using that by (simp add: how_many_def)
  then show ?case by (simp add: q_inv_def qinit_def counts_def is_taking_def list_all_iff)
next
  case (step s s')
  then show ?case using qstep_inv by blast
qed

text \<open>A consumer or a producer that could go on is never left waiting with nobody else to run.\<close>

lemma not_stuck:
  assumes "qreach put take_op n s" "\<forall>t \<in> set (q_threads s). \<not> is_putting t \<and> \<not> is_taking t"
  shows "(list_ex (waits_on NotEmpty) (q_threads s) \<longrightarrow> q_queue s = []) \<and>
     (list_ex (waits_on NotFull) (q_threads s) \<longrightarrow> cap = Some (length (q_queue s)))"
proof -
  have "how_many is_putting (q_threads s) = 0" "how_many is_taking (q_threads s) = 0"
    using assms(2) by (auto simp: how_many_def filter_empty_conv)
  with qreach_inv [OF assms(1)] show ?thesis by (auto simp: q_inv_def counts_def list_ex_how_many dest: le_antisym)
qed

end

interpretation bq: blocking_queue BlockingQueue_put BlockingQueue_take None
  by unfold_locales (simp_all add: BlockingQueue_put_def BlockingQueue_take_def)

interpretation bbq: blocking_queue "BoundedBlockingQueue_put maxSize" BoundedBlockingQueue_take "Some maxSize"
  by unfold_locales (simp_all add: BoundedBlockingQueue_put_def BoundedBlockingQueue_take_def)

text \<open>
  C12: For any number of threads that call \<open>put\<close> and \<open>take\<close> of a bounded queue in any order, with
  spurious wakeups: items are taken in the order they were put, the queue never holds more than
  \<open>maxSize\<close>, the assertion in \<open>put\<close> never fails, and no wakeup is lost: when no
  thread is ready to run, consumers wait only at an empty queue and producers only at a full one, so that
  with a capacity above zero they never block each other.
\<close>
theorem bounded_queue_correct:
  assumes "qreach (BoundedBlockingQueue_put maxSize) BoundedBlockingQueue_take n s"
  shows "q_put s = q_taken s @ q_queue s \<and> BoundedBlockingQueue_size (q_queue s) \<le> maxSize \<and> \<not> q_aborted s \<and>
     ((\<forall>t \<in> set (q_threads s). \<not> is_putting t \<and> \<not> is_taking t) \<longrightarrow>
        (list_ex (waits_on NotEmpty) (q_threads s) \<longrightarrow> BoundedBlockingQueue_empty (q_queue s)) \<and>
        (list_ex (waits_on NotFull) (q_threads s) \<longrightarrow> BoundedBlockingQueue_full maxSize (q_queue s)))"
  using bbq.qreach_inv [OF assms] bbq.not_stuck [OF assms]
  by (auto simp: q_inv_def BoundedBlockingQueue_size_def BoundedBlockingQueue_empty_def BoundedBlockingQueue_full_def)

text \<open>Two producers at a queue with one place: when the first is done, the second waits, and nobody else is ready to run.\<close>

definition demo_bounded :: "nat qstate" where
  "demo_bounded = \<lparr>q_queue = [7], q_threads = [Idle, PutWaits NotFull 8], q_put = [7], q_taken = [], q_aborted = False\<rparr>"

lemma demo_bounded_reached: "qreach (BoundedBlockingQueue_put 1) BoundedBlockingQueue_take 2 demo_bounded"
proof -
  let ?step = "qstep (BoundedBlockingQueue_put 1) BoundedBlockingQueue_take"
  let ?s = "\<lambda>q ts p. \<lparr>q_queue = q, q_threads = ts, q_put = p, q_taken = [], q_aborted = False\<rparr> :: nat qstate"
  have 1: "?step (?s [] [Idle, Idle] []) (?s [] [Putting 7, Idle] [])"
    using qstep.Call [of 0 "?s [] [Idle, Idle] []" "Putting 7" 7] by simp
  have 2: "?step (?s [] [Putting 7, Idle] []) (?s [7] [Idle, Idle] [7])"
    using qstep.PutDone [of 0 "?s [] [Putting 7, Idle] []" 7 "BoundedBlockingQueue_put 1" "[7]" "[NotEmpty]" "[Idle, Idle]"]
    by (simp add: BoundedBlockingQueue_put_def notify_one_def)
  have 3: "?step (?s [7] [Idle, Idle] [7]) (?s [7] [Idle, Putting 8] [7])"
    using qstep.Call [of 1 "?s [7] [Idle, Idle] [7]" "Putting 8" 8] by simp
  have 4: "?step (?s [7] [Idle, Putting 8] [7]) demo_bounded"
    using qstep.PutWait [of 1 "?s [7] [Idle, Putting 8] [7]" 8 "BoundedBlockingQueue_put 1" NotFull]
    by (simp add: BoundedBlockingQueue_put_def demo_bounded_def)
  have "qinit 2 = ?s [] [Idle, Idle] []" by (simp add: qinit_def numeral_2_eq_2)
  then show ?thesis unfolding qreach_def
    using 1 2 3 4 by (metis (no_types, lifting) r_into_rtranclp rtranclp_trans)
qed

theorem bounded_queue_correct_witness:
  "qreach (BoundedBlockingQueue_put 1) BoundedBlockingQueue_take 2 demo_bounded \<and> list_ex (waits_on NotFull) (q_threads demo_bounded) \<and>
     BoundedBlockingQueue_full 1 (q_queue demo_bounded) \<and> q_put demo_bounded = q_taken demo_bounded @ q_queue demo_bounded"
proof -
  have "list_ex (waits_on NotFull) (q_threads demo_bounded)" "\<forall>t \<in> set (q_threads demo_bounded). \<not> is_putting t \<and> \<not> is_taking t"
    by (simp_all add: demo_bounded_def is_taking_def)
  then show ?thesis using bounded_queue_correct [OF demo_bounded_reached] demo_bounded_reached by blast
qed

end
