(* ===== verification/SqlPool.thy ===== *)
theory SqlPool
  imports Sync "HOL-Library.Multiset"
begin

text \<open>
  \<open>tmuduo/base/Singleton.h\<close>, \<open>tmuduo/net/sql/sqlConnection.cc\<close> and \<open>sqlConnectionPool.cc\<close>: the
  connections to the database, the pool that shares them between threads, and the one instance of the pool. The
  MySQL client library is a parameter, a record of the functions the code calls. A handle of that library is a number, a null
  handle \<open>None\<close>.
\<close>

subsection \<open>Singleton\<close>

record 'a singleton =
  sg_once :: bool
  sg_value :: "'a option"
  sg_atexit :: bool

definition Singleton_start :: "'a singleton" where
  "Singleton_start = \<lparr>sg_once = False, sg_value = None, sg_atexit = False\<rparr>"

definition Singleton_init :: "bool \<Rightarrow> 'a \<Rightarrow> 'a singleton \<Rightarrow> 'a singleton" where
  "Singleton_init has_no_destroy new s =
     (let s = s\<lparr>sg_value := Some new\<rparr> in if \<not> has_no_destroy then s\<lparr>sg_atexit := True\<rparr> else s)"

text \<open>\<open>pthread_once\<close> runs \<open>init\<close> in the first call; \<open>None\<close>: the assertion fails.\<close>

definition Singleton_getInstance :: "bool \<Rightarrow> 'a \<Rightarrow> 'a singleton \<Rightarrow> ('a \<times> 'a singleton) option" where
  "Singleton_getInstance has_no_destroy new s = do {
     let s = (if sg_once s then s else Singleton_init has_no_destroy new (s\<lparr>sg_once := True\<rparr>));
     v \<leftarrow> sg_value s;
     Some (v, s) }"

definition Singleton_destroy :: "'a singleton \<Rightarrow> 'a singleton" where
  "Singleton_destroy s = s\<lparr>sg_value := None\<rparr>"

definition process_exit :: "'a singleton \<Rightarrow> 'a singleton" where
  "process_exit s = (if sg_atexit s then Singleton_destroy s else s)"

text \<open>Every call gives the instance that the first one created, until the exit of the process destroys it.\<close>

lemma singleton_one_instance:
  assumes "Singleton_getInstance nd x Singleton_start = Some (v, s)"
  shows "v = x" "Singleton_getInstance nd y s = Some (x, s)"
    "Singleton_getInstance nd y (process_exit s) = (if nd then Some (x, s) else None)"
  using assms by (auto simp: Singleton_getInstance_def Singleton_start_def Singleton_init_def Singleton_destroy_def
      process_exit_def Let_def split: if_splits)

subsection \<open>SQLConnection\<close>

text \<open>\<open>mysql_use_result\<close> gives the result set of the last query on a handle, which is its second argument.\<close>

type_synonym sql_result = "string list list"

record mysql =
  mysql_init :: "nat \<Rightarrow> nat option"
  mysql_real_connect :: "nat option \<Rightarrow> string \<Rightarrow> string \<Rightarrow> string \<Rightarrow> string \<Rightarrow> nat option"
  mysql_query :: "nat \<Rightarrow> string \<Rightarrow> int"
  mysql_use_result :: "nat \<Rightarrow> string \<Rightarrow> sql_result option"

record sql_connection =
  sc_url :: string
  sc_username :: string
  sc_password :: string
  sc_databaseName :: string
  sc_conn :: "nat option"

text \<open>\<open>i\<close> numbers the calls of \<open>mysql_init\<close>, which allocates a handle.\<close>

definition SQLConnection_ctor :: "mysql \<Rightarrow> nat \<Rightarrow> string \<Rightarrow> string \<Rightarrow> string \<Rightarrow> string \<Rightarrow> sql_connection" where
  "SQLConnection_ctor my i url username password databaseName =
     \<lparr>sc_url = url, sc_username = username, sc_password = password, sc_databaseName = databaseName, sc_conn = mysql_init my i\<rparr>"

text \<open>The handles that the destructor closes: \<open>mysql_close\<close> of a null pointer does nothing.\<close>

definition SQLConnection_dtor :: "sql_connection \<Rightarrow> nat list" where
  "SQLConnection_dtor c = (if sc_conn c = None then (case sc_conn c of None \<Rightarrow> [] | Some h \<Rightarrow> [h]) else [])"

definition SQLConnection_connect :: "mysql \<Rightarrow> sql_connection \<Rightarrow> bool \<times> sql_connection" where
  "SQLConnection_connect my c =
     (let c = c\<lparr>sc_conn := mysql_real_connect my (sc_conn c) (sc_url c) (sc_username c) (sc_password c) (sc_databaseName c)\<rparr>
      in (sc_conn c \<noteq> None, c))"

text \<open>\<open>None\<close>: \<open>mysql_query\<close> is called on a null handle.\<close>

definition SQLConnection_update :: "mysql \<Rightarrow> string \<Rightarrow> sql_connection \<Rightarrow> bool option" where
  "SQLConnection_update my sql c = do {
     h \<leftarrow> sc_conn c;
     Some (if mysql_query my h sql \<noteq> 0 then False else True) }"

definition SQLConnection_query :: "mysql \<Rightarrow> string \<Rightarrow> sql_connection \<Rightarrow> sql_result option option" where
  "SQLConnection_query my sql c = do {
     h \<leftarrow> sc_conn c;
     Some (if mysql_query my h sql \<noteq> 0 then None else mysql_use_result my h sql) }"

subsection \<open>The pool\<close>

record sql_pool =
  sp_connections :: "sql_connection list"
  sp_establishedNum :: nat
  sp_maxNum :: nat

text \<open>One turn of the loop of \<open>init\<close>.\<close>

definition init_one :: "mysql \<Rightarrow> string \<Rightarrow> string \<Rightarrow> string \<Rightarrow> string \<Rightarrow> nat \<Rightarrow> sql_connection list \<Rightarrow> sql_connection list" where
  "init_one my url username password databaseName i q =
     (let (ok, conn) = SQLConnection_connect my (SQLConnection_ctor my i url username password databaseName)
      in if ok then (case at_once (BlockingQueue_put conn q) of Some (_, q) \<Rightarrow> q | None \<Rightarrow> q) else q)"

definition SQLConnectionPool_init :: "mysql \<Rightarrow> string \<Rightarrow> string \<Rightarrow> string \<Rightarrow> string \<Rightarrow> nat \<Rightarrow> sql_pool \<Rightarrow> sql_pool" where
  "SQLConnectionPool_init my url username password databaseName maxNum p =
     (let cs = fold (init_one my url username password databaseName) [0 ..< maxNum] (sp_connections p)
      in p\<lparr>sp_connections := cs, sp_establishedNum := BlockingQueue_size cs, sp_maxNum := maxNum\<rparr>)"

text \<open>\<open>None\<close>: the calling thread blocks until a connection is put back.\<close>

definition takeConnection :: "sql_pool \<Rightarrow> (sql_connection \<times> sql_pool) option" where
  "takeConnection p = do {
     (conn, q) \<leftarrow> at_once (BlockingQueue_take (sp_connections p));
     Some (conn, p\<lparr>sp_connections := q\<rparr>) }"

definition putConnection :: "sql_connection \<Rightarrow> sql_pool \<Rightarrow> (bool \<times> sql_pool) option" where
  "putConnection conn p = do {
     (_, q) \<leftarrow> at_once (BlockingQueue_put conn (sp_connections p));
     Some (True, p\<lparr>sp_connections := q\<rparr>) }"

text \<open>The loop of \<open>destroy\<close>, with the handles it closes.\<close>

function destroy_loop :: "sql_connection list \<Rightarrow> nat list \<times> sql_connection list" where
  "destroy_loop q = (case at_once (BlockingQueue_take q) of
       None \<Rightarrow> ([], q)
     | Some (conn, q') \<Rightarrow> (let (closed, q'') = destroy_loop q' in (SQLConnection_dtor conn @ closed, q'')))"
  by pat_completeness auto

termination
  by (relation "measure length") (auto simp: BlockingQueue_take_def split: if_splits)

definition SQLConnectionPool_destroy :: "sql_pool \<Rightarrow> nat list \<times> sql_pool" where
  "SQLConnectionPool_destroy p =
     (if BlockingQueue_size (sp_connections p) > 0 then
        (let (closed, q) = destroy_loop (sp_connections p) in (closed, p\<lparr>sp_connections := q, sp_establishedNum := 0\<rparr>))
      else ([], p))"

text \<open>
  \<open>ConnPoolWrapper\<close>: a connection is taken for the scope of the object and put back at its end. \<open>None\<close>: the thread
  blocks in the constructor, or the body fails.
\<close>

definition with_connection :: "(sql_connection \<Rightarrow> 'r option) \<Rightarrow> sql_pool \<Rightarrow> ('r \<times> sql_pool) option" where
  "with_connection body p = do {
     (conn, p) \<leftarrow> takeConnection p;
     r \<leftarrow> body conn;
     (_, p) \<leftarrow> putConnection conn p;
     Some (r, p) }"

lemma with_connection_rotates:
  "sp_connections p = c # cs \<Longrightarrow> body c = Some r \<Longrightarrow> with_connection body p = Some (r, p\<lparr>sp_connections := cs @ [c]\<rparr>)"
  by (simp add: with_connection_def takeConnection_def putConnection_def BlockingQueue_take_def BlockingQueue_put_def)

text \<open>Every connection of the pool has a handle, so that no query is made on a null one.\<close>

definition pool_ok :: "sql_pool \<Rightarrow> bool" where
  "pool_ok p \<longleftrightarrow> (\<forall>c \<in> set (sp_connections p). sc_conn c \<noteq> None)"

definition connects :: "mysql \<Rightarrow> string \<Rightarrow> string \<Rightarrow> string \<Rightarrow> string \<Rightarrow> nat \<Rightarrow> bool" where
  "connects my url username password databaseName i \<longleftrightarrow>
     mysql_real_connect my (mysql_init my i) url username password databaseName \<noteq> None"

lemma init_one_cases:
  "if connects my url u w d i then \<exists>c. sc_conn c \<noteq> None \<and> init_one my url u w d i q = q @ [c] else init_one my url u w d i q = q"
  by (auto simp: init_one_def SQLConnection_connect_def SQLConnection_ctor_def connects_def BlockingQueue_put_def Let_def)

lemma init_ok:
  assumes "\<forall>c \<in> set q. sc_conn c \<noteq> None"
  shows "(\<forall>c \<in> set (fold (init_one my url u w d) is q). sc_conn c \<noteq> None) \<and>
     length (fold (init_one my url u w d) is q) = length q + length (filter (connects my url u w d) is)"
  using assms
proof (induction "is" arbitrary: q)
  case (Cons i "is")
  have "(\<forall>c \<in> set (init_one my url u w d i q). sc_conn c \<noteq> None) \<and>
      length (init_one my url u w d i q) = length q + (if connects my url u w d i then 1 else 0)"
    using init_one_cases [of my url u w d i q] Cons.prems by (auto split: if_splits)
  then show ?case using Cons.IH [of "init_one my url u w d i q"] by simp
qed simp

lemma destroy_loop_closes:
  assumes "\<forall>c \<in> set q. sc_conn c \<noteq> None"
  shows "destroy_loop q = ([], [])"
  using assms
proof (induction q rule: length_induct)
  case (1 q)
  then show ?case
    by (cases q) (auto simp: destroy_loop.simps [of q] BlockingQueue_take_def SQLConnection_dtor_def)
qed

lemma query_ok:
  assumes "pool_ok p" "sp_connections p \<noteq> []"
  shows "\<exists>c res p'. c \<in> set (sp_connections p) \<and> with_connection (SQLConnection_query my sql) p = Some (res, p') \<and> pool_ok p' \<and>
     sp_establishedNum p' = sp_establishedNum p \<and>
     mset (sp_connections p') = mset (sp_connections p) \<and> SQLConnection_query my sql c = Some res"
proof -
  obtain c cs where c: "sp_connections p = c # cs" using assms(2) by (cases "sp_connections p") auto
  then obtain h where "sc_conn c = Some h" using assms(1) by (auto simp: pool_ok_def)
  then obtain res where r: "SQLConnection_query my sql c = Some res" by (auto simp: SQLConnection_query_def)
  show ?thesis using with_connection_rotates [of p c cs "SQLConnection_query my sql", OF c r] r c assms(1) by (auto simp: pool_ok_def)
qed

primrec run_queries :: "mysql \<Rightarrow> string list \<Rightarrow> sql_pool \<Rightarrow> (sql_result option list \<times> sql_pool) option" where
  "run_queries my [] p = Some ([], p)"
| "run_queries my (sql # sqls) p = do {
     (res, p) \<leftarrow> with_connection (SQLConnection_query my sql) p;
     (rest, p) \<leftarrow> run_queries my sqls p;
     Some (res # rest, p) }"

lemma run_queries_ok:
  assumes "pool_ok p" "sp_connections p \<noteq> []"
  shows "\<exists>rs p'. run_queries my sqls p = Some (rs, p') \<and> length rs = length sqls \<and> pool_ok p' \<and>
     sp_establishedNum p' = sp_establishedNum p \<and> mset (sp_connections p') = mset (sp_connections p)"
  using assms
proof (induction sqls arbitrary: p)
  case (Cons sql sqls)
  obtain res p1 where q: "with_connection (SQLConnection_query my sql) p = Some (res, p1)" "pool_ok p1"
      "sp_establishedNum p1 = sp_establishedNum p" "mset (sp_connections p1) = mset (sp_connections p)"
    using query_ok [OF Cons.prems, of my sql] by blast
  then have "sp_connections p1 \<noteq> []" using Cons.prems(2) by auto
  from Cons.IH [OF q(2) this] q show ?case by auto
qed simp

definition empty_pool :: sql_pool where
  "empty_pool = \<lparr>sp_connections = [], sp_establishedNum = 0, sp_maxNum = 0\<rparr>"

text \<open>
  C22: The life of the connection pool. After \<open>init\<close> the pool holds one connection with a handle for every
  connect that succeeded. As long as there is one, any sequence of queries, each on a
  connection taken for its duration, is answered; no query uses a null handle, and in the end the pool holds the same connections
  as before. \<open>destroy\<close> then empties the pool, but closes none of the handles: the destructor of a connection
  closes its handle only when there is none.
\<close>
theorem sql_pool_life:
  assumes "p = SQLConnectionPool_init my url username password databaseName maxNum empty_pool"
    and "sp_establishedNum p > 0"
  shows "\<exists>rs p'. sp_establishedNum p = length (filter (connects my url username password databaseName) [0 ..< maxNum]) \<and>
     run_queries my sqls p = Some (rs, p') \<and> length rs = length sqls \<and>
     mset (sp_connections p') = mset (sp_connections p) \<and> (\<forall>c \<in> set (sp_connections p'). sc_conn c \<noteq> None) \<and>
     SQLConnectionPool_destroy p' = ([], p'\<lparr>sp_connections := [], sp_establishedNum := 0\<rparr>)"
proof -
  have p: "pool_ok p" "sp_establishedNum p = length (filter (connects my url username password databaseName) [0 ..< maxNum])"
      "sp_establishedNum p = length (sp_connections p)"
    using init_ok [of "[]" my url username password databaseName "[0 ..< maxNum]"] assms(1)
    by (auto simp: pool_ok_def SQLConnectionPool_init_def empty_pool_def BlockingQueue_size_def Let_def)
  then have ne: "sp_connections p \<noteq> []" using assms(2) by auto
  from run_queries_ok [OF p(1) this, of my sqls] obtain rs p' where r: "run_queries my sqls p = Some (rs, p')"
      "length rs = length sqls" "pool_ok p'" "mset (sp_connections p') = mset (sp_connections p)"
    by blast
  then have "sp_connections p' \<noteq> []" using ne by auto
  moreover have "destroy_loop (sp_connections p') = ([], [])" using destroy_loop_closes r(3) by (simp add: pool_ok_def)
  ultimately have "SQLConnectionPool_destroy p' = ([], p'\<lparr>sp_connections := [], sp_establishedNum := 0\<rparr>)"
    by (simp add: SQLConnectionPool_destroy_def BlockingQueue_size_def)
  then show ?thesis using r p by (auto simp: pool_ok_def)
qed

definition demo_mysql :: mysql where
  "demo_mysql = \<lparr>mysql_init = (\<lambda>i. Some i), mysql_real_connect = (\<lambda>h url u w d. if h = Some 1 then None else h),
     mysql_query = (\<lambda>h sql. 0), mysql_use_result = (\<lambda>h sql. Some [[''1'', ''ann'', ''x'']])\<rparr>"

lemma demo_pool_established:
  "sp_establishedNum (SQLConnectionPool_init demo_mysql ''localhost'' ''u'' ''w'' ''users'' 3 empty_pool) = 2"
  by code_simp

theorem sql_pool_life_witness:
  "\<exists>rs p'. run_queries demo_mysql [''a'', ''b'', ''c'']
       (SQLConnectionPool_init demo_mysql ''localhost'' ''u'' ''w'' ''users'' 3 empty_pool) = Some (rs, p') \<and>
     length rs = 3 \<and> SQLConnectionPool_destroy p' = ([], p'\<lparr>sp_connections := [], sp_establishedNum := 0\<rparr>)"
  using sql_pool_life [OF refl, of demo_mysql "''localhost''" "''u''" "''w''" "''users''" 3 "[''a'', ''b'', ''c'']"]
  by (auto simp: demo_pool_established simp del: run_queries.simps)

end
