(* ===== verification/WebServer.thy ===== *)
theory WebServer
  imports HttpServer FileUtil SqlPool
begin

text \<open>
  \<open>examples/httpd/WebServer.cc\<close>: the web server example, which serves pages, registers users and logs them in
  through the connection pool of \<open>SqlPool\<close>. The file system and the database are parameters.
  \<open>None\<close> is an exception (\<open>substr\<close> out of range), the use of an uninitialised \<open>fileSize\<close>, or a
  null result set that is read.
\<close>

subsection \<open>The server\<close>

datatype file_type = kUnkown | kHtml | kImage

record web_server =
  ws_docRoot :: string
  ws_realFile :: string
  ws_filetype :: file_type
  ws_usersInfo :: "(string, string) std_map"
  ws_pool :: sql_pool

record web_env =
  fs_open :: "string \<Rightarrow> int + fd"
  fs_pread :: "string \<Rightarrow> nat \<Rightarrow> nat \<Rightarrow> int + bytes"
  db_mysql :: mysql

definition filetypeToString :: "file_type \<Rightarrow> string" where
  "filetypeToString ft = (case ft of kHtml \<Rightarrow> ''text/html'' | kImage \<Rightarrow> ''image/png'' | _ \<Rightarrow> ''Unkown'')"

definition npos :: size_t where
  "npos = 2 ^ 64 - 1"

definition std_find :: "char \<Rightarrow> string \<Rightarrow> size_t" where
  "std_find c s = (case find_index c s of Some i \<Rightarrow> i | None \<Rightarrow> npos)"

definition std_substr :: "size_t \<Rightarrow> size_t \<Rightarrow> string \<Rightarrow> string option" where
  "std_substr pos n s = (if pos > length s then None else Some (take n (drop pos s)))"

definition read_page :: "web_env \<Rightarrow> string \<Rightarrow> int \<times> int option \<times> bytes" where
  "read_page env path =
     (let rsf = ReadSmallFile_ctor (fs_open env path); (err, fileSize, rsf) = readToBuffer (fs_pread env path) rsf
      in (err, fileSize, sf_buf rsf))"

text \<open>The five assignments that end a successful answer.\<close>

definition ok_response :: "string \<Rightarrow> int option \<Rightarrow> bytes \<Rightarrow> http_response \<Rightarrow> http_response option" where
  "ok_response contentType fileSize buf response = do {
     n \<leftarrow> fileSize;
     let response = setStatusCode k200Ok response;
     let response = setStatusMessage ''OK'' response;
     let response = setContentType contentType response;
     let response = addResponseHeader ''Server'' ''orange'' response;
     Some (setResponseBody (take (nat n) buf) response) }"

definition onRequest_get :: "web_env \<Rightarrow> http_request \<Rightarrow> http_response \<Rightarrow> web_server \<Rightarrow> (http_response \<times> web_server) option" where
  "onRequest_get env request response ws =
     (if req_path request = ''/'' \<or> req_path request = ''/favion.ico'' then do {
        let ws = (if req_path request = ''/''
          then ws\<lparr>ws_realFile := ws_realFile ws @ ''/bench.html'', ws_filetype := kHtml\<rparr>
          else ws\<lparr>ws_realFile := ws_realFile ws @ ''/fig.ico'', ws_filetype := kImage\<rparr>);
        let (err, fileSize, buf) = read_page env (ws_realFile ws);
        if err > 0 then
          Some (setCloseConnection True (setStatusMessage ''Moved Permanently'' (setStatusCode k301MovedPermanently response)), ws)
        else do {
          response \<leftarrow> ok_response (filetypeToString (ws_filetype ws)) fileSize buf response;
          Some (response, ws) } }
      else
        Some (setCloseConnection True (setStatusMessage ''Not Found'' (setStatusCode k404NotFound response)),
          ws\<lparr>ws_filetype := kUnkown\<rparr>))"

definition parse_credentials :: "string \<Rightarrow> (string \<times> string) option" where
  "parse_credentials body = do {
     let andMark = std_find CHR ''&'' body;
     name \<leftarrow> std_substr 5 (sz_sub andMark 5) body;
     password \<leftarrow> std_substr (sz_add andMark 10) (sz_sub (sz_sub (length body) andMark) 10) body;
     Some (name, password) }"

definition insert_sql :: "string \<Rightarrow> string \<Rightarrow> string" where
  "insert_sql name password =
     ''INSERT INTO users(username, password) values ('' @ [CHR 0x27] @ name @ [CHR 0x27] @ '', '' @
     [CHR 0x27] @ password @ [CHR 0x27] @ '');''"

definition register_user :: "web_env \<Rightarrow> string \<Rightarrow> string \<Rightarrow> web_server \<Rightarrow> web_server option" where
  "register_user env name password ws =
     (if map_find name (ws_usersInfo ws) = None then do {
        (res, pool) \<leftarrow> with_connection (SQLConnection_query (db_mysql env) (insert_sql name password)) (ws_pool ws);
        let ws = ws\<lparr>ws_pool := pool, ws_usersInfo := map_assign name password (ws_usersInfo ws)\<rparr>;
        Some (ws\<lparr>ws_realFile := ws_realFile ws @ (if res = None then ''/login.html'' else ''/registerError.html'')\<rparr>) }
      else Some (ws\<lparr>ws_realFile := ws_realFile ws @ ''/registerError.html''\<rparr>))"

definition login_user :: "string \<Rightarrow> string \<Rightarrow> web_server \<Rightarrow> web_server" where
  "login_user name password ws =
     (if map_find name (ws_usersInfo ws) = Some password then ws\<lparr>ws_realFile := ws_realFile ws @ ''/welcome.html''\<rparr>
      else ws\<lparr>ws_realFile := ws_realFile ws @ ''/loginError.html''\<rparr>)"

definition onRequest_post :: "web_env \<Rightarrow> http_request \<Rightarrow> http_response \<Rightarrow> web_server \<Rightarrow> (http_response \<times> web_server) option" where
  "onRequest_post env request response ws = do {
     ws \<leftarrow> (if req_path request = ''/2'' \<or> req_path request = ''/3'' then do {
         (name, password) \<leftarrow> parse_credentials (req_body request);
         if req_path request = ''/3'' then register_user env name password ws else Some (login_user name password ws) }
       else if req_path request = ''/0'' then Some (ws\<lparr>ws_realFile := ws_realFile ws @ ''/register.html''\<rparr>)
       else if req_path request = ''/1'' then Some (ws\<lparr>ws_realFile := ws_realFile ws @ ''/login.html''\<rparr>)
       else Some ws);
     let (_, fileSize, buf) = read_page env (ws_realFile ws);
     response \<leftarrow> ok_response ''text/html'' fileSize buf response;
     Some (response, ws) }"

definition web_onRequest :: "web_env \<Rightarrow> http_request \<Rightarrow> http_response \<Rightarrow> web_server \<Rightarrow> (http_response \<times> web_server) option" where
  "web_onRequest env request response ws =
     (let ws = ws\<lparr>ws_realFile := ws_docRoot ws\<rparr> in
      if req_method request = kGet then onRequest_get env request response ws
      else if req_method request = kPost then onRequest_post env request response ws
      else Some (response, ws))"

text \<open>The rows of the table: columns 1 and 2 are read.\<close>

fun fetch_rows :: "sql_result \<Rightarrow> (string, string) std_map \<Rightarrow> (string, string) std_map option" where
  "fetch_rows [] m = Some m"
| "fetch_rows ((_ # temp1 # temp2 # _) # rows) m = fetch_rows rows (map_assign temp1 temp2 m)"
| "fetch_rows (_ # rows) m = None"

definition initUserInfo :: "web_env \<Rightarrow> web_server \<Rightarrow> web_server option" where
  "initUserInfo env ws = do {
     (res, pool) \<leftarrow> with_connection (SQLConnection_query (db_mysql env) ''SELECT * FROM users;'') (ws_pool ws);
     rows \<leftarrow> res;
     users \<leftarrow> fetch_rows rows (ws_usersInfo ws);
     Some (ws\<lparr>ws_pool := pool, ws_usersInfo := users\<rparr>) }"

text \<open>The constructor; the pool is the one instance of the process, and is returned with it.\<close>

definition WebServer_ctor :: "web_env \<Rightarrow> string \<Rightarrow> nat \<Rightarrow> sql_pool singleton \<Rightarrow> (web_server \<times> sql_pool singleton) option" where
  "WebServer_ctor env docRoot maxSQLConn sg = do {
     (pool, sg) \<leftarrow> Singleton_getInstance False empty_pool sg;
     let pool = SQLConnectionPool_init (db_mysql env) ''localhost'' ''testuser'' ''testuser123...'' ''users'' maxSQLConn pool;
     ws \<leftarrow> initUserInfo env \<lparr>ws_docRoot = docRoot, ws_realFile = [], ws_filetype = kUnkown, ws_usersInfo = [], ws_pool = pool\<rparr>;
     Some (ws, sg\<lparr>sg_value := Some (ws_pool ws)\<rparr>) }"

subsection \<open>Pages and credentials\<close>

definition has_page :: "web_env \<Rightarrow> string \<Rightarrow> bytes \<Rightarrow> bool" where
  "has_page env path content \<longleftrightarrow>
     (\<exists>fd \<ge> 0. fs_open env path = Inr fd) \<and> fs_pread env path 0 (kBufferSize - 1) = Inr content"

definition credentials :: "string \<Rightarrow> string \<Rightarrow> string" where
  "credentials name password = ''user='' @ name @ ''&password='' @ password"

definition post :: "string \<Rightarrow> string \<Rightarrow> http_request" where
  "post path body = HttpRequest_ctor\<lparr>req_method := kPost, req_path := path, req_body := body\<rparr>"

lemma parse_credentials_ok:
  assumes "CHR ''&'' \<notin> set name" "length (credentials name password) < 2 ^ 63"
  shows "parse_credentials (credentials name password) = Some (name, password)"
proof -
  let ?m = "5 + length name"
  have "std_find CHR ''&'' (credentials name password) = ?m"
    using find_index_append [of "CHR ''&''" "''user='' @ name" "''password='' @ password"] assms(1)
    by (simp add: std_find_def credentials_def)
  moreover have "sz_sub ?m 5 = length name" "sz_add ?m 10 = ?m + 10"
      "sz_sub (sz_sub (length (credentials name password)) ?m) 10 = length password"
    using assms(2) by (simp_all add: sz_simps credentials_def)
  moreover have "drop (?m + 10) (credentials name password) = password"
  proof -
    have "credentials name password = (''user='' @ name @ ''&password='') @ password" by (simp add: credentials_def)
    moreover have "length (''user='' @ name @ ''&password='') = ?m + 10" by simp
    ultimately show ?thesis by (metis append_eq_conv_conj)
  qed
  ultimately show ?thesis by (simp add: parse_credentials_def std_substr_def credentials_def)
qed

lemma read_page_ok: "has_page env path content \<Longrightarrow> read_page env path = (0, Some (int (length content)), content @ [CHR 0x00])"
  by (auto simp: has_page_def read_page_def ReadSmallFile_ctor_def readToBuffer_def Let_def)

lemma post_page:
  assumes "has_page env path content"
  shows "do {
     let (_, fileSize, buf) = read_page env path;
     response \<leftarrow> ok_response ''text/html'' fileSize buf response;
     Some (response, ws) } = Some (the (ok_response ''text/html'' (Some (int (length content))) content response), ws)"
  by (simp add: read_page_ok [OF assms] ok_response_def Let_def)

lemma ok_response_body:
  "res_body (the (ok_response ct (Some (int (length content))) content response)) = content"
  by (simp add: ok_response_def setResponseBody_def setStatusCode_def setStatusMessage_def setContentType_def addResponseHeader_def Let_def)

lemma web_register:
  assumes "CHR ''&'' \<notin> set name" "length (credentials name password) < 2 ^ 63" "map_find name (ws_usersInfo ws) = None"
    "sp_connections (ws_pool ws) \<noteq> []" "pool_ok (ws_pool ws)"
    "\<And>h. mysql_use_result (db_mysql env) h (insert_sql name password) = None" "has_page env (ws_docRoot ws @ ''/login.html'') page"
  shows "\<exists>resp' ws'. web_onRequest env (post ''/3'' (credentials name password)) resp ws = Some (resp', ws') \<and>
     res_body resp' = page \<and> ws_docRoot ws' = ws_docRoot ws \<and>
     ws_usersInfo ws' = map_assign name password (ws_usersInfo ws)"
proof -
  obtain c cs where c: "sp_connections (ws_pool ws) = c # cs" using assms(4) by (cases "sp_connections (ws_pool ws)") auto
  then obtain h where "sc_conn c = Some h" using assms(5) by (auto simp: pool_ok_def)
  then have "SQLConnection_query (db_mysql env) (insert_sql name password) c = Some None"
    using assms(6) by (simp add: SQLConnection_query_def)
  note with_connection_rotates [of "ws_pool ws" c cs "SQLConnection_query (db_mysql env) (insert_sql name password)", OF c this]
  then show ?thesis
    using assms(3)
    by (simp add: web_onRequest_def post_def onRequest_post_def parse_credentials_ok [OF assms(1,2)] register_user_def
        read_page_ok [OF assms(7)] ok_response_def Let_def HttpRequest_ctor_def setResponseBody_def)
qed

lemma web_login:
  assumes "CHR ''&'' \<notin> set name" "length (credentials name password) < 2 ^ 63"
    "has_page env (ws_docRoot ws @ ''/welcome.html'') welcomePage" "has_page env (ws_docRoot ws @ ''/loginError.html'') denied"
  shows "\<exists>resp' ws'. web_onRequest env (post ''/2'' (credentials name password)) resp ws = Some (resp', ws') \<and>
     res_body resp' = (if map_find name (ws_usersInfo ws) = Some password then welcomePage else denied) \<and>
     ws_usersInfo ws' = ws_usersInfo ws"
  by (simp add: web_onRequest_def post_def onRequest_post_def parse_credentials_ok [OF assms(1,2)] login_user_def
      read_page_ok [OF assms(3)] read_page_ok [OF assms(4)] ok_response_def Let_def HttpRequest_ctor_def setResponseBody_def)

text \<open>
  C21: A user who registers with a new name, without an ampersand, can log in with that name and exactly that password: after the
  register request, a login request with the name gets the welcome page when the password is
  the registered one and the error page otherwise. The database is assumed to give no result set for the
  \<open>INSERT\<close>, a connection to be free, and the three pages to exist.
\<close>
theorem web_register_login:
  assumes "CHR ''&'' \<notin> set name" "length (credentials name password) < 2 ^ 63" "length (credentials name password') < 2 ^ 63"
    "map_find name (ws_usersInfo ws) = None" "sp_connections (ws_pool ws) \<noteq> []" "pool_ok (ws_pool ws)"
    "\<And>h. mysql_use_result (db_mysql env) h (insert_sql name password) = None"
    "has_page env (ws_docRoot ws @ ''/login.html'') loginPage" "has_page env (ws_docRoot ws @ ''/welcome.html'') welcomePage"
    "has_page env (ws_docRoot ws @ ''/loginError.html'') denied"
  shows "\<exists>resp1 ws1 resp2 ws2.
     web_onRequest env (post ''/3'' (credentials name password)) (HttpResponse_ctor close) ws = Some (resp1, ws1) \<and>
     res_body resp1 = loginPage \<and>
     web_onRequest env (post ''/2'' (credentials name password')) (HttpResponse_ctor close) ws1 = Some (resp2, ws2) \<and>
     res_body resp2 = (if password' = password then welcomePage else denied)"
proof -
  obtain resp1 ws1 where w1: "web_onRequest env (post ''/3'' (credentials name password)) (HttpResponse_ctor close) ws = Some (resp1, ws1)"
      "res_body resp1 = loginPage" "ws_docRoot ws1 = ws_docRoot ws" "ws_usersInfo ws1 = map_assign name password (ws_usersInfo ws)"
    using web_register [OF assms(1,2,4,5,6,7,8)] by blast
  with web_login [OF assms(1,3), of env ws1 welcomePage denied "HttpResponse_ctor close"] assms(9,10) show ?thesis
    by (auto simp: map_find_assign)
qed

definition demo_web :: web_env where
  "demo_web = \<lparr>fs_open = (\<lambda>p. Inr 3), fs_pread = (\<lambda>p off n. Inr p), 
     db_mysql = demo_mysql\<lparr>mysql_use_result := (\<lambda>h sql. if take 6 sql = ''SELECT'' then Some [[''1'', ''ann'', ''x'']] else None)\<rparr>\<rparr>"

definition demo_site :: web_server where
  "demo_site = fst (the (WebServer_ctor demo_web ''/www'' 2 Singleton_start))"

lemma demo_site_started: "map_option fst (WebServer_ctor demo_web ''/www'' 2 Singleton_start) = Some demo_site"
  by code_simp

lemma demo_site_fields:
  "ws_docRoot demo_site = ''/www''" "map_find ''bob'' (ws_usersInfo demo_site) = None"
  "map sc_conn (sp_connections (ws_pool demo_site)) = [Some 0]"
  by code_simp+

lemma demo_site_pool: "pool_ok (ws_pool demo_site)" "sp_connections (ws_pool demo_site) \<noteq> []"
  using demo_site_fields(3) by (auto simp: pool_ok_def map_eq_Cons_conv)

lemma demo_insert: "take 6 (insert_sql name password) \<noteq> ''SELECT''"
  by (simp add: insert_sql_def)

theorem web_register_login_witness:
  "\<exists>resp1 ws1 resp2 ws2.
     web_onRequest demo_web (post ''/3'' (credentials ''bob'' ''pw'')) (HttpResponse_ctor False) demo_site = Some (resp1, ws1) \<and>
     res_body resp1 = ''/www/login.html'' \<and>
     web_onRequest demo_web (post ''/2'' (credentials ''bob'' ''pw'')) (HttpResponse_ctor False) ws1 = Some (resp2, ws2) \<and>
     res_body resp2 = ''/www/welcome.html''"
  using web_register_login [of "''bob''" "''pw''" "''pw''" demo_site demo_web "''/www/login.html''" "''/www/welcome.html''"
      "''/www/loginError.html''" False]
  by (simp add: demo_site_fields demo_site_pool demo_insert demo_web_def has_page_def credentials_def)

subsection \<open>A body that is cut off\<close>

text \<open>The bodies on which one of the two \<open>substr\<close> calls throws; without \<open>&\<close> the offset wraps around to 9.\<close>

definition credentials_cut :: "string \<Rightarrow> bool" where
  "credentials_cut body \<longleftrightarrow> length body < 5 \<or>
     (case find_index CHR ''&'' body of Some andMark \<Rightarrow> length body < andMark + 10 | None \<Rightarrow> length body < 9)"

lemma parse_credentials_throws:
  assumes "length body < 2 ^ 63"
  shows "parse_credentials body = None \<longleftrightarrow> credentials_cut body"
proof (cases "find_index CHR ''&'' body")
  case None
  have "sz_add npos 10 = 9" by (simp add: sz_add_def npos_def)
  with None show ?thesis by (simp add: parse_credentials_def credentials_cut_def std_find_def std_substr_def Let_def)
next
  case (Some m)
  then have "m < length body" by (simp add: find_index_Some)
  then have "sz_add m 10 = m + 10" using assms by (simp add: sz_simps)
  with Some show ?thesis by (simp add: parse_credentials_def credentials_cut_def std_find_def std_substr_def Let_def)
qed

lemma web_credentials_throws:
  assumes "req_method req = kPost" "req_path req = ''/2'' \<or> req_path req = ''/3''" "length (req_body req) < 2 ^ 63"
    "credentials_cut (req_body req)"
  shows "web_onRequest env req resp ws = None"
  using assms parse_credentials_throws [OF assms(3)] by (auto simp: web_onRequest_def onRequest_post_def Let_def)

text \<open>
  C39: a login or register request takes the server down when the part of the body that arrives together with the end of the
  headers is too short, in particular when the body comes in a segment of its own: the parser declares the request complete
  as soon as it has seen the blank line, with whatever follows it as the body, and taking the name and the password
  out of that body throws \<open>std::out_of_range\<close>, which nothing catches.
\<close>
theorem web_split_body_throws:
  assumes "v \<noteq> kUnknown" and "target_ok path query" and "list_all header_ok hs" and "path = ''/2'' \<or> path = ''/3''"
    and "concat chunks @ last_chunk = header_part kPost path query v hs @ part"
    and "length (concat chunks) < length (header_part kPost path query v hs)"
    and "8 + length (concat chunks @ last_chunk) \<le> max_size" and "credentials_cut part"
  shows "\<exists>c b. http_feed t (chunks @ [last_chunk]) HttpContext_ctor empty_buffer = Some (True, c, b) \<and> gotAll c \<and>
    web_onRequest env (ctx_request c) resp ws = None"
proof -
  let ?r = "parsed_request t kPost path query v hs part"
  have "length part \<le> length (concat chunks @ last_chunk)" unfolding assms(5) by simp
  then have "length part < 2 ^ 63" using assms(7) by (simp add: max_size_def)
  moreover have "req_method ?r = kPost" "req_path ?r = path" "req_body ?r = part" by (simp_all add: parsed_request_def)
  ultimately have "web_onRequest env ?r resp ws = None" using assms(4,8) by (intro web_credentials_throws) simp_all
  then show ?thesis
    using http_feed_pieces [of kPost v path query hs chunks last_chunk part t] assms(1-3,5-7)
    by (auto simp: print_request_parts gotAll_def)
qed

theorem web_split_body_throws_witness:
  "\<exists>c b. http_feed 7 [''POST /2 HT'', ''TP/1.1'' @ kCRLF @ kCRLF] HttpContext_ctor empty_buffer = Some (True, c, b) \<and> gotAll c \<and>
     web_onRequest demo_web (ctx_request c) (HttpResponse_ctor False) demo_site = None"
  using web_split_body_throws [of kHttp1_1 "''/2''" "[]" "[]" "[''POST /2 HT'']" "''TP/1.1'' @ kCRLF @ kCRLF" "[]" 7 demo_web
      "HttpResponse_ctor False" demo_site]
  by (simp add: target_ok_def clean_def header_part_def request_line_def kCRLF_def max_size_def credentials_cut_def
      del: http_feed.simps)

end
