(* ===== verification/Poller.thy ===== *)
theory Poller
  imports Channel
begin

text \<open>
  \<open>tmuduo/net/Poller.h\<close> and the two implementations of it: \<open>poller/EPollPoller.cc\<close>
  and \<open>poller/PollPoller.cc\<close>. The interface is a pair of locales over the reactor:
  \<open>poller_registry\<close> says which channels are registered, \<open>exact_poller\<close> also that
  the kernel watches exactly the events the channels ask for. The system calls
  \<open>epoll_ctl\<close>, \<open>epoll_wait\<close> and \<open>poll\<close> are parameters.
\<close>

subsection \<open>The interface\<close>

text \<open>A channel with its interest changed and marked as added, just before \<open>updateChannel\<close>.\<close>

definition touch :: "chan_ptr \<Rightarrow> flags \<Rightarrow> ('cb, 'p) reactor \<Rightarrow> ('cb, 'p) reactor" where
  "touch p ev s = map_chan p (\<lambda>ch. ch\<lparr>ch_events := ev, addedToLoop := True\<rparr>) s"

definition untouch :: "chan_ptr \<Rightarrow> ('cb, 'p) reactor \<Rightarrow> ('cb, 'p) reactor" where
  "untouch p s = map_chan p (\<lambda>ch. ch\<lparr>addedToLoop := False\<rparr>) s"

text \<open>Pollers change of a channel only its index.\<close>

definition same_but_index :: "('cb, 'p) reactor \<Rightarrow> ('cb, 'p) reactor \<Rightarrow> bool" where
  "same_but_index s s' \<longleftrightarrow> (\<forall>q. (chans s' q)\<lparr>ch_index := 0\<rparr> = (chans s q)\<lparr>ch_index := 0\<rparr>)"

abbreviation fd_of :: "('cb, 'p) reactor \<Rightarrow> chan_ptr \<Rightarrow> fd" where
  "fd_of s p \<equiv> ch_fd (chans s p)"

lemma same_but_indexD:
  assumes "same_but_index s s'"
  shows "ch_fd (chans s' q) = ch_fd (chans s q)" "ch_events (chans s' q) = ch_events (chans s q)"
  using assms [unfolded same_but_index_def, rule_format, of q]
  by (metis channel.select_convs channel.surjective channel.update_convs(4))+

lemma touch_simps [simp]:
  "ch_fd (chans (touch p ev s) q) = ch_fd (chans s q)"
  "ch_index (chans (touch p ev s) q) = ch_index (chans s q)"
  "ch_events (chans (touch p ev s) q) = (if q = p then ev else ch_events (chans s q))"
  "poller (touch p ev s) = poller s"
  by (simp_all add: touch_def map_chan_def)

lemma untouch_simps [simp]:
  "ch_fd (chans (untouch p s) q) = ch_fd (chans s q)"
  "ch_index (chans (untouch p s) q) = ch_index (chans s q)"
  "ch_events (chans (untouch p s) q) = ch_events (chans s q)"
  "poller (untouch p s) = poller s"
  by (simp_all add: untouch_def map_chan_def)

lemma channel_ops_touch:
  "enableReading upd p s = upd p (touch p (ch_events (chans s p) OR kReadEvent) s)"
  "disableReading upd p s = upd p (touch p (ch_events (chans s p) AND NOT kReadEvent) s)"
  "enableWriting upd p s = upd p (touch p (ch_events (chans s p) OR kWriteEvent) s)"
  "disableWriting upd p s = upd p (touch p (ch_events (chans s p) AND NOT kWriteEvent) s)"
  "disableAll upd p s = upd p (touch p kNoneEvent s)"
  by (simp_all add: enableReading_def disableReading_def enableWriting_def disableWriting_def
      disableAll_def Channel_update_def touch_def map_chan_def)

lemma Channel_remove_untouch:
  "Channel_remove rem p s = (if ch_events (chans s p) = 0 then rem p (untouch p s) else None)"
  by (simp add: Channel_remove_def isNoneEvent_def kNoneEvent_def untouch_def)

locale poller_registry =
  fixes usable :: "fd \<Rightarrow> bool"
    and invar :: "('cb, 'p) reactor \<Rightarrow> bool"
    and known :: "('cb, 'p) reactor \<Rightarrow> fd \<rightharpoonup> chan_ptr"
    and update :: "('cb, 'p) poller_op"
    and remove :: "('cb, 'p) poller_op"
  assumes update_ok: "invar s \<Longrightarrow> usable (fd_of s p) \<Longrightarrow>
      known s (fd_of s p) = Some p \<or> known s (fd_of s p) = None \<and> ch_index (chans s p) = -1 \<and> ev \<noteq> 0 \<Longrightarrow>
      \<exists>s'. update p (touch p ev s) = Some s' \<and> invar s' \<and> known s' = (known s)(fd_of s p \<mapsto> p) \<and>
        same_but_index (touch p ev s) s'"
    and remove_ok: "invar s \<Longrightarrow> known s (fd_of s p) = Some p \<Longrightarrow> ch_events (chans s p) = 0 \<Longrightarrow>
      \<exists>s'. remove p (untouch p s) = Some s' \<and> invar s' \<and> known s' = (known s)(fd_of s p := None) \<and>
        same_but_index (untouch p s) s'"
    and known_fd: "invar s \<Longrightarrow> known s f = Some p \<Longrightarrow> fd_of s p = f \<and> usable f"
begin

text \<open>The life of a channel: registered by a first interest, parked, and removed again.\<close>

lemma register_park_remove:
  assumes "invar s" "usable (fd_of s p)" "known s (fd_of s p) = None" "ch_index (chans s p) = -1" "ev \<noteq> 0"
  shows "\<exists>s1 s2 s3. update p (touch p ev s) = Some s1 \<and> disableAll update p s1 = Some s2 \<and>
    Channel_remove remove p s2 = Some s3 \<and> invar s3 \<and> known s3 = known s"
proof -
  obtain s1 where s1: "update p (touch p ev s) = Some s1" "invar s1" "known s1 = (known s)(fd_of s p \<mapsto> p)"
    "same_but_index (touch p ev s) s1" using update_ok [OF assms(1,2), of ev] assms(3-5) by blast
  have f1: "fd_of s1 p = fd_of s p" using same_but_indexD [OF s1(4), of p] by simp
  obtain s2 where s2: "update p (touch p 0 s1) = Some s2" "invar s2" "known s2 = (known s1)(fd_of s p \<mapsto> p)"
    "same_but_index (touch p 0 s1) s2" using update_ok [OF s1(2), of p 0] s1(3) f1 assms(2) by auto
  have f2: "fd_of s2 p = fd_of s p" "ch_events (chans s2 p) = 0"
    using same_but_indexD [OF s2(4), of p] f1 by simp_all
  obtain s3 where "remove p (untouch p s2) = Some s3" "invar s3" "known s3 = (known s2)(fd_of s p := None)"
    using remove_ok [OF s2(2), of p] s2(3) f2 by auto
  moreover have "(known s)(fd_of s p := None) = known s" using assms(3) by (rule fun_upd_idem)
  ultimately show ?thesis
    using s1 s2 f2 by (auto simp: channel_ops_touch Channel_remove_untouch kNoneEvent_def)
qed

end

subsection \<open>Runs of channel operations\<close>

datatype chan_op = EnableReading chan_ptr | DisableReading chan_ptr | EnableWriting chan_ptr
  | DisableWriting chan_ptr | DisableAll chan_ptr | RemoveChan chan_ptr

fun exec_chan_op :: "('cb, 'p) poller_op \<Rightarrow> ('cb, 'p) poller_op \<Rightarrow> chan_op \<Rightarrow> ('cb, 'p) reactor \<Rightarrow>
    ('cb, 'p) reactor option" where
  "exec_chan_op upd rem (EnableReading p) = enableReading upd p"
| "exec_chan_op upd rem (DisableReading p) = disableReading upd p"
| "exec_chan_op upd rem (EnableWriting p) = enableWriting upd p"
| "exec_chan_op upd rem (DisableWriting p) = disableWriting upd p"
| "exec_chan_op upd rem (DisableAll p) = disableAll upd p"
| "exec_chan_op upd rem (RemoveChan p) = Channel_remove rem p"

primrec exec_chan_ops :: "('cb, 'p) poller_op \<Rightarrow> ('cb, 'p) poller_op \<Rightarrow> chan_op list \<Rightarrow> ('cb, 'p) reactor \<Rightarrow>
    ('cb, 'p) reactor option" where
  "exec_chan_ops upd rem [] s = Some s"
| "exec_chan_ops upd rem (op # ops) s = exec_chan_op upd rem op s \<bind> exec_chan_ops upd rem ops"

text \<open>
  The specification: for each registered channel, what it asks for and whether the kernel has its descriptor in the interest list. The
  first operation on a channel registers it. A registered channel that asks for nothing is taken out of the list; one that
  is not in the list is put into it by its next operation, even if it still asks for nothing.
\<close>

type_synonym interests = "chan_ptr \<rightharpoonup> flags \<times> bool"

definition asked :: "interests \<Rightarrow> chan_ptr \<Rightarrow> flags" where
  "asked A p = (case A p of None \<Rightarrow> 0 | Some (e, _) \<Rightarrow> e)"

definition spec_update :: "chan_ptr \<Rightarrow> flags \<Rightarrow> interests \<Rightarrow> interests" where
  "spec_update p ev A = A(p \<mapsto> (ev, case A p of Some (_, True) \<Rightarrow> ev \<noteq> 0 | _ \<Rightarrow> True))"

fun spec_op :: "chan_op \<Rightarrow> interests \<Rightarrow> interests" where
  "spec_op (EnableReading p) A = spec_update p (asked A p OR kReadEvent) A"
| "spec_op (DisableReading p) A = spec_update p (asked A p AND NOT kReadEvent) A"
| "spec_op (EnableWriting p) A = spec_update p (asked A p OR kWriteEvent) A"
| "spec_op (DisableWriting p) A = spec_update p (asked A p AND NOT kWriteEvent) A"
| "spec_op (DisableAll p) A = spec_update p kNoneEvent A"
| "spec_op (RemoveChan p) A = A(p := None)"

text \<open>
  What an operation requires: two registered channels have different descriptors, and only a registered channel that asks for nothing
  is removed.
\<close>

fun legal_op :: "(chan_ptr \<Rightarrow> fd) \<Rightarrow> interests \<Rightarrow> chan_op \<Rightarrow> bool" where
  "legal_op fdof A (RemoveChan p) \<longleftrightarrow> A p \<noteq> None \<and> asked A p = 0"
| "legal_op fdof A (EnableReading p) \<longleftrightarrow> (\<forall>q \<in> dom A. fdof q = fdof p \<longrightarrow> q = p)"
| "legal_op fdof A (EnableWriting p) \<longleftrightarrow> (\<forall>q \<in> dom A. fdof q = fdof p \<longrightarrow> q = p)"
| "legal_op fdof A (DisableReading p) \<longleftrightarrow> (\<forall>q \<in> dom A. fdof q = fdof p \<longrightarrow> q = p)"
| "legal_op fdof A (DisableWriting p) \<longleftrightarrow> (\<forall>q \<in> dom A. fdof q = fdof p \<longrightarrow> q = p)"
| "legal_op fdof A (DisableAll p) \<longleftrightarrow> (\<forall>q \<in> dom A. fdof q = fdof p \<longrightarrow> q = p)"

fun legal_ops :: "(chan_ptr \<Rightarrow> fd) \<Rightarrow> interests \<Rightarrow> chan_op list \<Rightarrow> bool" where
  "legal_ops fdof A [] \<longleftrightarrow> True"
| "legal_ops fdof A (op # ops) \<longleftrightarrow> legal_op fdof A op \<and> legal_ops fdof (spec_op op A) ops"

lemma or_event_nonzero: "x OR kReadEvent \<noteq> 0" "x OR kWriteEvent \<noteq> 0"
  by (auto simp: kReadEvent_def kWriteEvent_def poll_flags or_eq_0_iff)

text \<open>
  An exact poller also tells what the kernel's interest list becomes, and refuses (by an assertion) what is not allowed.
\<close>

locale exact_poller = poller_registry usable invar known update remove
  for usable :: "fd \<Rightarrow> bool"
    and invar :: "('cb, 'p) reactor \<Rightarrow> bool"
    and known :: "('cb, 'p) reactor \<Rightarrow> fd \<rightharpoonup> chan_ptr"
    and update :: "('cb, 'p) poller_op"
    and remove :: "('cb, 'p) poller_op" +
  fixes watch :: "('cb, 'p) reactor \<Rightarrow> fd \<rightharpoonup> flags \<times> chan_ptr"
  assumes update_exact: "invar s \<Longrightarrow> usable (fd_of s p) \<Longrightarrow> known s (fd_of s p) \<in> {None, Some p} \<Longrightarrow>
      \<exists>s'. update p (touch p ev s) = Some s' \<and> invar s' \<and> known s' = (known s)(fd_of s p \<mapsto> p) \<and>
        same_but_index (touch p ev s) s' \<and>
        watch s' = (watch s)(fd_of s p := if watch s (fd_of s p) \<noteq> None \<and> ev = 0 then None else Some (ev, p))"
    and update_refused: "invar s \<Longrightarrow> known s (fd_of s p) \<notin> {None, Some p} \<Longrightarrow> update p (touch p ev s) = None"
    and remove_exact: "invar s \<Longrightarrow> known s (fd_of s p) = Some p \<Longrightarrow> ch_events (chans s p) = 0 \<Longrightarrow>
      \<exists>s'. remove p (untouch p s) = Some s' \<and> invar s' \<and> known s' = (known s)(fd_of s p := None) \<and>
        same_but_index (untouch p s) s' \<and> watch s' = (watch s)(fd_of s p := None)"
    and remove_refused: "invar s \<Longrightarrow> known s (fd_of s p) \<noteq> Some p \<Longrightarrow> remove p (untouch p s) = None"
begin

definition synced :: "(chan_ptr \<Rightarrow> fd) \<Rightarrow> interests \<Rightarrow> ('cb, 'p) reactor \<Rightarrow> bool" where
  "synced fdof A s \<longleftrightarrow> invar s \<and> (\<forall>p. fd_of s p = fdof p) \<and> (\<forall>f p. known s f = Some p \<longleftrightarrow> fdof p = f \<and> p \<in> dom A) \<and>
     (\<forall>p. ch_events (chans s p) = asked A p) \<and> (\<forall>f ev p. watch s f = Some (ev, p) \<longleftrightarrow> fdof p = f \<and> A p = Some (ev, True))"

lemma syncedD:
  assumes "synced fdof A s"
  shows "invar s" "fd_of s p = fdof p" "known s f = Some p \<longleftrightarrow> fdof p = f \<and> p \<in> dom A" "ch_events (chans s p) = asked A p"
    "watch s f = Some (ev, p) \<longleftrightarrow> fdof p = f \<and> A p = Some (ev, True)"
  using assms unfolding synced_def by blast+

lemma synced_known:
  assumes "synced fdof A s"
  shows "known s (fd_of s p) \<in> {None, Some p} \<longleftrightarrow> (\<forall>q \<in> dom A. fdof q = fdof p \<longrightarrow> q = p)"
proof -
  have "known s (fd_of s p) \<in> {None, Some p} \<longleftrightarrow> (\<forall>q. known s (fdof p) = Some q \<longrightarrow> q = p)"
    unfolding syncedD(2) [OF assms] by (cases "known s (fdof p)") auto
  then show ?thesis unfolding syncedD(3) [OF assms] by blast
qed

lemma update_synced:
  assumes "synced fdof A s" "usable (fdof p)"
  shows "if \<forall>q \<in> dom A. fdof q = fdof p \<longrightarrow> q = p
    then \<exists>s'. update p (touch p ev s) = Some s' \<and> synced fdof (spec_update p ev A) s' else update p (touch p ev s) = None"
proof -
  note sy = syncedD [OF assms(1)]
  note inv = sy(1) and fd = sy(2)
  show ?thesis
  proof (cases "\<forall>q \<in> dom A. fdof q = fdof p \<longrightarrow> q = p")
    case True
    then have kn: "known s (fd_of s p) \<in> {None, Some p}" using synced_known [OF assms(1)] by blast
    from update_exact [OF inv _ kn, of ev] assms(2) fd obtain s' where
      s': "update p (touch p ev s) = Some s'" "invar s'" "known s' = (known s)(fdof p \<mapsto> p)" "same_but_index (touch p ev s) s'"
        "watch s' = (watch s)(fdof p := if watch s (fdof p) \<noteq> None \<and> ev = 0 then None else Some (ev, p))" by auto
    have "fd_of s' q = fdof q" "ch_events (chans s' q) = asked (spec_update p ev A) q" for q
      using same_but_indexD [OF s'(4), of q] fd [of q] sy(4) [of q] by (simp_all add: asked_def spec_update_def)
    moreover have "known s' f = Some q \<longleftrightarrow> fdof q = f \<and> q \<in> dom (spec_update p ev A)" for f q
      using s'(3) sy(3) [of f q] True by (auto simp: spec_update_def)
    moreover have "watch s' f = Some (e, q) \<longleftrightarrow> fdof q = f \<and> spec_update p ev A q = Some (e, True)" for f e q
    proof (cases "f = fdof p")
      case f: True
      have "watch s (fdof p) \<noteq> None \<longleftrightarrow> (\<exists>e. A p = Some (e, True))"
      proof
        assume "watch s (fdof p) \<noteq> None"
        then obtain e q where "watch s (fdof p) = Some (e, q)" by (cases "watch s (fdof p)") auto
        then have "fdof q = fdof p" "A q = Some (e, True)" by (simp_all add: sy(5))
        then show "\<exists>e. A p = Some (e, True)" using True by auto
      next
        assume "\<exists>e. A p = Some (e, True)"
        then obtain e where "watch s (fdof p) = Some (e, p)" by (auto simp: sy(5))
        then show "watch s (fdof p) \<noteq> None" by simp
      qed
      then have w: "watch s' f = (if (\<exists>e. A p = Some (e, True)) \<and> ev = 0 then None else Some (ev, p))" using s'(5) f by simp
      have q: "q = p" if "fdof q = f" "spec_update p ev A q = Some (e, True)"
      proof (rule ccontr)
        assume "q \<noteq> p"
        then have "q \<in> dom A" using that(2) by (auto simp: spec_update_def)
        then show False using True that(1) f \<open>q \<noteq> p\<close> by blast
      qed
      have "spec_update p ev A p = Some (e, True) \<longleftrightarrow> e = ev \<and> \<not> ((\<exists>e. A p = Some (e, True)) \<and> ev = 0)" for e
        by (cases "A p") (auto simp: spec_update_def split: bool.splits)
      then show ?thesis using w f q by (cases "q = p") auto
    next
      case False
      then show ?thesis using s'(5) sy(5) [of f e q] by (auto simp: spec_update_def)
    qed
    ultimately show ?thesis using True s'(1,2) by (auto simp: synced_def)
  next
    case False
    then have "known s (fd_of s p) \<notin> {None, Some p}" using synced_known [OF assms(1)] by blast
    from update_refused [OF inv this] False show ?thesis by auto
  qed
qed

lemma remove_synced:
  assumes "synced fdof A s"
  shows "if A p \<noteq> None \<and> asked A p = 0 then \<exists>s'. Channel_remove remove p s = Some s' \<and> synced fdof (A(p := None)) s'
    else Channel_remove remove p s = None"
proof -
  note sy = syncedD [OF assms(1)]
  note inv = sy(1) and fd = sy(2) and ev = sy(4)
  show ?thesis
  proof (cases "A p \<noteq> None \<and> asked A p = 0")
    case True
    then have k: "known s (fd_of s p) = Some p" "ch_events (chans s p) = 0" using fd [of p] ev [of p] sy(3) [of "fdof p" p] by auto
    from remove_exact [OF inv k] fd obtain s' where
      s': "remove p (untouch p s) = Some s'" "invar s'" "known s' = (known s)(fdof p := None)" "same_but_index (untouch p s) s'"
        "watch s' = (watch s)(fdof p := None)" by auto
    have p: "q = p" if "fdof q = fdof p" "q \<in> dom A" for q using that sy(3) [of "fdof p" q] k(1) fd [of p] by auto
    have "fd_of s' q = fdof q" "ch_events (chans s' q) = asked (A(p := None)) q" for q
      using same_but_indexD [OF s'(4), of q] fd [of q] ev [of q] True by (auto simp: asked_def)
    moreover have "known s' f = Some q \<longleftrightarrow> fdof q = f \<and> q \<in> dom (A(p := None))" for f q
      using s'(3) sy(3) [of f q] p [of q] by auto
    moreover have "watch s' f = Some (e, q) \<longleftrightarrow> fdof q = f \<and> (A(p := None)) q = Some (e, True)" for f e q
      using s'(5) sy(5) [of f e q] p [of q] by auto
    ultimately show ?thesis using True s'(1,2) k(2) by (auto simp: synced_def Channel_remove_untouch)
  next
    case False
    have "known s (fd_of s p) = Some p \<longleftrightarrow> A p \<noteq> None" using sy(3) [of "fdof p" p] fd [of p] by auto
    then show ?thesis using False remove_refused [OF inv, of p] ev [of p] by (auto simp: Channel_remove_untouch)
  qed
qed

lemma exec_chan_op_synced:
  assumes "synced fdof A s" "\<forall>p. usable (fdof p)"
  shows "if legal_op fdof A op then \<exists>s'. exec_chan_op update remove op s = Some s' \<and> synced fdof (spec_op op A) s'
    else exec_chan_op update remove op s = None"
proof -
  have "ch_events (chans s p) = asked A p" for p using assms(1) by (simp add: synced_def)
  then show ?thesis
    using update_synced [OF assms(1) spec [OF assms(2)]] remove_synced [OF assms(1)]
    by (cases op) (simp_all only: channel_ops_touch exec_chan_op.simps legal_op.simps spec_op.simps)
qed

lemma exec_chan_ops_synced:
  assumes "synced fdof A s" "\<forall>p. usable (fdof p)"
  shows "if legal_ops fdof A ops then \<exists>s'. exec_chan_ops update remove ops s = Some s' \<and> synced fdof (fold spec_op ops A) s'
    else exec_chan_ops update remove ops s = None"
  using assms(1)
proof (induction ops arbitrary: A s)
  case (Cons op ops)
  show ?case
  proof (cases "legal_op fdof A op")
    case True
    with exec_chan_op_synced [OF Cons.prems assms(2), of op] obtain s1 where
      "exec_chan_op update remove op s = Some s1" "synced fdof (spec_op op A) s1" by auto
    with Cons.IH [of "spec_op op A" s1] True show ?thesis by simp
  next
    case False
    with exec_chan_op_synced [OF Cons.prems assms(2), of op] show ?thesis by simp
  qed
qed simp

end

end
