(* ===== verification/EPollPoller.thy ===== *)
theory EPollPoller
  imports Poller
begin

text \<open>
  \<open>tmuduo/net/poller/EPollPoller.cc\<close>. The kernel's side of \<open>epollfd_\<close> is a parameter:
  a state \<open>'k\<close> and the system call \<open>epoll_ctl\<close>, which returns the new state and whether
  it succeeded. What the code relies on is the locale \<open>epoll_kernel\<close>.
\<close>

datatype ctl_op = EPOLL_CTL_ADD | EPOLL_CTL_DEL | EPOLL_CTL_MOD

type_synonym 'k epoll_ctl = "'k \<Rightarrow> ctl_op \<Rightarrow> fd \<Rightarrow> flags \<times> chan_ptr \<Rightarrow> 'k \<times> bool"

record 'k epoll =
  ep_kernel :: 'k
  ep_events_size :: nat
  ep_channels :: "fd \<rightharpoonup> chan_ptr"

definition kNew :: int where "kNew = -1"
definition kAdded :: int where "kAdded = 1"
definition kDeleted :: int where "kDeleted = 2"

lemmas index_consts = kNew_def kAdded_def kDeleted_def

definition kInitEventListSize :: nat where
  "kInitEventListSize = 16"

definition EPollPoller_ctor :: "'k \<Rightarrow> 'k epoll" where
  "EPollPoller_ctor k = \<lparr>ep_kernel = k, ep_events_size = kInitEventListSize, ep_channels = Map.empty\<rparr>"

definition operationToString :: "ctl_op \<Rightarrow> string" where
  "operationToString op =
     (case op of EPOLL_CTL_ADD \<Rightarrow> ''ADD'' | EPOLL_CTL_DEL \<Rightarrow> ''DEL'' | EPOLL_CTL_MOD \<Rightarrow> ''MOD'')"

text \<open>A failed \<open>EPOLL_CTL_DEL\<close> is logged; any other failure is fatal.\<close>

definition EPoll_update :: "'k epoll_ctl \<Rightarrow> ctl_op \<Rightarrow> ('cb, 'k epoll) poller_op" where
  "EPoll_update ctl operation p s =
     (let ch = chans s p;
          (k, ok) = ctl (ep_kernel (poller s)) operation (ch_fd ch) (ch_events ch, p);
          s = s\<lparr>poller := (poller s)\<lparr>ep_kernel := k\<rparr>\<rparr>
      in if ok \<or> operation = EPOLL_CTL_DEL then Some s else None)"

definition EPoll_updateChannel :: "'k epoll_ctl \<Rightarrow> ('cb, 'k epoll) poller_op" where
  "EPoll_updateChannel ctl p s =
     (let index = ch_index (chans s p); f = ch_fd (chans s p); channels = ep_channels (poller s) in
      if index = kNew \<or> index = kDeleted then do {
        s \<leftarrow> (if index = kNew then do {
               assert_that (channels f = None);
               Some (s\<lparr>poller := (poller s)\<lparr>ep_channels := channels(f \<mapsto> p)\<rparr>\<rparr>) }
             else do {
               assert_that (channels f \<noteq> None);
               assert_that (channels f = Some p);
               Some s });
        let s = map_chan p (setIndex kAdded) s;
        EPoll_update ctl EPOLL_CTL_ADD p s }
      else do {
        assert_that (channels f \<noteq> None);
        assert_that (channels f = Some p);
        assert_that (index = kAdded);
        if isNoneEvent (chans s p) then do {
          s \<leftarrow> EPoll_update ctl EPOLL_CTL_DEL p s;
          Some (map_chan p (setIndex kDeleted) s) }
        else EPoll_update ctl EPOLL_CTL_MOD p s })"

definition EPoll_removeChannel :: "'k epoll_ctl \<Rightarrow> ('cb, 'k epoll) poller_op" where
  "EPoll_removeChannel ctl p s =
     (let f = ch_fd (chans s p); channels = ep_channels (poller s); index = ch_index (chans s p) in do {
        assert_that (channels f \<noteq> None);
        assert_that (channels f = Some p);
        assert_that (isNoneEvent (chans s p));
        assert_that (index = kAdded \<or> index = kDeleted);
        let s = s\<lparr>poller := (poller s)\<lparr>ep_channels := channels(f := None)\<rparr>\<rparr>;
        s \<leftarrow> (if index = kAdded then EPoll_update ctl EPOLL_CTL_DEL p s else Some s);
        Some (map_chan p (setIndex kNew) s) })"

fun EPoll_fillActiveChannels :: "(flags \<times> chan_ptr) list \<Rightarrow> chan_ptr list \<Rightarrow> ('cb, 'k epoll) reactor \<Rightarrow>
    (chan_ptr list \<times> ('cb, 'k epoll) reactor) option" where
  "EPoll_fillActiveChannels [] active s = Some (active, s)"
| "EPoll_fillActiveChannels ((revents, p) # evs) active s = do {
     let f = ch_fd (chans s p);
     assert_that (ep_channels (poller s) f \<noteq> None);
     assert_that (ep_channels (poller s) f = Some p);
     EPoll_fillActiveChannels evs (active @ [p]) (map_chan p (setRevents revents) s) }"

text \<open>
  \<open>poll\<close>: \<open>epoll_wait\<close> gets the size of the event array and returns the events, or
  \<open>None\<close> on an error.
\<close>

definition EPoll_poll ::
  "(nat \<Rightarrow> (flags \<times> chan_ptr) list option) \<Rightarrow> int \<Rightarrow> chan_ptr list \<Rightarrow> ('cb, 'k epoll) reactor \<Rightarrow>
     (int \<times> chan_ptr list \<times> ('cb, 'k epoll) reactor) option" where
  "EPoll_poll epoll_wait now active s =
     (case epoll_wait (ep_events_size (poller s)) of
        None \<Rightarrow> Some (now, active, s)
      | Some evs \<Rightarrow>
          if length evs > 0 then do {
            assert_that (length evs \<le> ep_events_size (poller s));
            (active, s) \<leftarrow> EPoll_fillActiveChannels evs active s;
            let s = (if length evs = ep_events_size (poller s)
                     then s\<lparr>poller := (poller s)\<lparr>ep_events_size := ep_events_size (poller s) * 2\<rparr>\<rparr> else s);
            Some (now, active, s) }
          else Some (now, active, s))"

subsection \<open>What the kernel does\<close>

text \<open>
  The documented behaviour of \<open>epoll_ctl\<close> on descriptors that can be polled: adding one that
  is not in the interest list, and changing or deleting one that is, succeeds and has the obvious
  effect on the list.
\<close>

locale epoll_kernel =
  fixes usable :: "fd \<Rightarrow> bool"
    and ctl :: "'k epoll_ctl"
    and interest :: "'k \<Rightarrow> fd \<rightharpoonup> flags \<times> chan_ptr"
  assumes ctl_add: "usable f \<Longrightarrow> interest k f = None \<Longrightarrow>
      \<exists>k'. ctl k EPOLL_CTL_ADD f e = (k', True) \<and> interest k' = (interest k)(f \<mapsto> e)"
    and ctl_mod: "usable f \<Longrightarrow> interest k f \<noteq> None \<Longrightarrow>
      \<exists>k'. ctl k EPOLL_CTL_MOD f e = (k', True) \<and> interest k' = (interest k)(f \<mapsto> e)"
    and ctl_del: "usable f \<Longrightarrow> interest k f \<noteq> None \<Longrightarrow>
      \<exists>k'. ctl k EPOLL_CTL_DEL f e = (k', True) \<and> interest k' = (interest k)(f := None)"

text \<open>The invariant: the map of channels, the index field and the interest list agree.\<close>

definition ep_invar :: "(fd \<Rightarrow> bool) \<Rightarrow> ('k \<Rightarrow> fd \<rightharpoonup> flags \<times> chan_ptr) \<Rightarrow> ('cb, 'k epoll) reactor \<Rightarrow> bool" where
  "ep_invar usable interest s \<longleftrightarrow>
     (\<forall>p. ch_index (chans s p) = kNew \<and> ep_channels (poller s) (fd_of s p) \<noteq> Some p \<or>
          ch_index (chans s p) \<in> {kAdded, kDeleted} \<and> ep_channels (poller s) (fd_of s p) = Some p) \<and>
     (\<forall>f p. ep_channels (poller s) f = Some p \<longrightarrow> fd_of s p = f \<and> usable f) \<and>
     (\<forall>p. ch_index (chans s p) = kDeleted \<longrightarrow> ch_events (chans s p) = 0) \<and>
     (\<forall>f. interest (ep_kernel (poller s)) f =
        (case ep_channels (poller s) f of
           None \<Rightarrow> None
         | Some p \<Rightarrow> if ch_index (chans s p) = kAdded then Some (ch_events (chans s p), p) else None))"

definition ep_known :: "('cb, 'k epoll) reactor \<Rightarrow> fd \<rightharpoonup> chan_ptr" where
  "ep_known s = ep_channels (poller s)"

definition ep_watch :: "('k \<Rightarrow> fd \<rightharpoonup> flags \<times> chan_ptr) \<Rightarrow> ('cb, 'k epoll) reactor \<Rightarrow> fd \<rightharpoonup> flags \<times> chan_ptr" where
  "ep_watch interest s = interest (ep_kernel (poller s))"

lemma touch_poller: "(touch p ev s)\<lparr>poller := poller s\<rparr> = touch p ev s"
  by (simp add: touch_def map_chan_def)

lemma ep_invarD:
  assumes "ep_invar usable interest s"
  shows "ch_index (chans s p) = kNew \<longleftrightarrow> ep_channels (poller s) (fd_of s p) \<noteq> Some p"
    "ch_index (chans s p) \<in> {kNew, kAdded, kDeleted}"
    "ep_channels (poller s) f = Some q \<Longrightarrow> fd_of s q = f \<and> usable f"
    "ch_index (chans s p) = kDeleted \<Longrightarrow> ch_events (chans s p) = 0"
    "interest (ep_kernel (poller s)) f = (case ep_channels (poller s) f of None \<Rightarrow> None
         | Some q \<Rightarrow> if ch_index (chans s q) = kAdded then Some (ch_events (chans s q), q) else None)"
  using assms unfolding ep_invar_def by (auto simp: index_consts dest: spec [of _ p])

context epoll_kernel
begin

lemma EPoll_update_ok:
  assumes us: "usable (fd_of s p)"
    and op: "(op = EPOLL_CTL_ADD) = (interest (ep_kernel (poller s)) (fd_of s p) = None)"
  shows "\<exists>k'. EPoll_update ctl op p s = Some (s\<lparr>poller := (poller s)\<lparr>ep_kernel := k'\<rparr>\<rparr>) \<and>
    interest k' = (interest (ep_kernel (poller s)))(fd_of s p :=
      if op = EPOLL_CTL_DEL then None else Some (ch_events (chans s p), p))"
proof -
  let ?k = "ep_kernel (poller s)" and ?e = "(ch_events (chans s p), p)"
  have "\<exists>k'. ctl ?k op (fd_of s p) ?e = (k', True) \<and>
      interest k' = (interest ?k)(fd_of s p := if op = EPOLL_CTL_DEL then None else Some ?e)"
    using ctl_add [OF us, of ?k ?e] ctl_mod [OF us, of ?k ?e] ctl_del [OF us, of ?k ?e] op
    by (cases op) auto
  then show ?thesis by (auto simp: EPoll_update_def Let_def)
qed

lemma ep_invar_registered:
  assumes inv: "ep_invar usable interest s" and us: "usable (fd_of s p)"
    and k: "ep_channels (poller s) (fd_of s p) \<in> {None, Some p}"
    and s': "chans s' = (chans s)(p := ch)" "ch_fd ch = fd_of s p" "ch_index ch \<in> {kAdded, kDeleted}"
      "ch_index ch = kDeleted \<longrightarrow> ch_events ch = 0"
      "ep_channels (poller s') = (ep_channels (poller s))(fd_of s p \<mapsto> p)"
      "interest (ep_kernel (poller s')) = (interest (ep_kernel (poller s)))(fd_of s p :=
         if ch_index ch = kAdded then Some (ch_events ch, p) else None)"
  shows "ep_invar usable interest s'"
proof -
  note D = ep_invarD [OF inv]
  have other: "ch_index (chans s q) = kNew \<and> ep_channels (poller s') (fd_of s q) \<noteq> Some q \<or>
      ch_index (chans s q) \<in> {kAdded, kDeleted} \<and> ep_channels (poller s') (fd_of s q) = Some q" if "q \<noteq> p" for q
  proof (cases "fd_of s q = fd_of s p")
    case True
    then have "ep_channels (poller s) (fd_of s q) \<noteq> Some q" using k that by auto
    then show ?thesis using D(1) [of q] True that s'(5) by simp
  next
    case False
    then show ?thesis using D(1) [of q] D(2) [of q] s'(5) by auto
  qed
  have int: "interest (ep_kernel (poller s')) f = (case ep_channels (poller s') f of None \<Rightarrow> None
      | Some q \<Rightarrow> if ch_index (chans s' q) = kAdded then Some (ch_events (chans s' q), q) else None)" for f
  proof (cases "f = fd_of s p")
    case False
    then have "q \<noteq> p" if "ep_channels (poller s) f = Some q" for q using D(3) [OF that] by auto
    with False D(5) [of f] s'(1,5,6) show ?thesis by (auto split: option.split)
  qed (use s' in auto)
  have fd: "fd_of s' q = fd_of s q" for q using s'(1,2) by simp
  have "ch_index (chans s' q) = kNew \<and> ep_channels (poller s') (fd_of s' q) \<noteq> Some q \<or>
      ch_index (chans s' q) \<in> {kAdded, kDeleted} \<and> ep_channels (poller s') (fd_of s' q) = Some q" for q
    using other [of q] s'(1,3,5) unfolding fd by (cases "q = p") simp_all
  moreover have "ep_channels (poller s') f = Some q \<longrightarrow> fd_of s' q = f \<and> usable f" for f q
    using D(3) [of f q] us unfolding fd s'(5) by auto
  moreover have "ch_index (chans s' q) = kDeleted \<longrightarrow> ch_events (chans s' q) = 0" for q
    using D(4) [of q] s'(1,4) by simp
  ultimately show ?thesis unfolding ep_invar_def using int by blast
qed

lemma EPoll_updateChannel_ok:
  assumes inv: "ep_invar usable interest s" and us: "usable (fd_of s p)"
    and k: "ep_known s (fd_of s p) \<in> {None, Some p}"
  shows "\<exists>s'. EPoll_updateChannel ctl p (touch p ev s) = Some s' \<and> ep_invar usable interest s' \<and>
    ep_known s' = (ep_known s)(fd_of s p \<mapsto> p) \<and> same_but_index (touch p ev s) s' \<and>
    ep_watch interest s' = (ep_watch interest s)(fd_of s p :=
      if ep_watch interest s (fd_of s p) \<noteq> None \<and> ev = 0 then None else Some (ev, p))"
proof -
  note D = ep_invarD [OF inv]
  let ?t = "touch p ev s" and ?i = "ch_index (chans s p)" and ?f = "fd_of s p"
  let ?ch = "\<lambda>i. (chans ?t p)\<lparr>ch_index := i\<rparr>"
  define op where "op = (if ?i \<noteq> kAdded then EPOLL_CTL_ADD else if ev = 0 then EPOLL_CTL_DEL else EPOLL_CTL_MOD)"
  define t where "t = (if ?i = kAdded then ?t else map_chan p (setIndex kAdded)
    (?t\<lparr>poller := (poller ?t)\<lparr>ep_channels := (ep_channels (poller s))(?f \<mapsto> p)\<rparr>\<rparr>))"
  let ?j = "if op = EPOLL_CTL_DEL then kDeleted else kAdded"
  have kn: "ep_channels (poller s) ?f \<in> {None, Some p}" using k by (auto simp: ep_known_def)
  have added: "(ep_channels (poller s))(?f \<mapsto> p) = ep_channels (poller s)" if "?i \<noteq> kNew"
    using D(1) [of p] that by (simp add: fun_upd_idem)
  have t: "fd_of t p = ?f" "ch_events (chans t p) = ev" "ep_kernel (poller t) = ep_kernel (poller s)"
    "chans t = (chans ?t)(p := (chans ?t p)\<lparr>ch_index := kAdded\<rparr>)"
    by (auto simp: t_def setIndex_def map_chan_def)
  have t5: "ep_channels (poller t) = (ep_channels (poller s))(?f \<mapsto> p)"
    using added by (simp add: t_def index_consts)
  have "(op = EPOLL_CTL_ADD) = (interest (ep_kernel (poller t)) (fd_of t p) = None)"
    using D(5) [of ?f] D(1) [of p] kn by (auto simp: op_def t index_consts)
  from EPoll_update_ok [OF _ this] us t obtain k' where
    k': "EPoll_update ctl op p t = Some (t\<lparr>poller := (poller t)\<lparr>ep_kernel := k'\<rparr>\<rparr>)"
    "interest k' = (interest (ep_kernel (poller s)))(?f := if op = EPOLL_CTL_DEL then None else Some (ev, p))"
    by auto
  let ?s' = "(if op = EPOLL_CTL_DEL then map_chan p (setIndex kDeleted) else id)
    (t\<lparr>poller := (poller t)\<lparr>ep_kernel := k'\<rparr>\<rparr>)"
  have "EPoll_updateChannel ctl p ?t = Some ?s'"
    using k'(1) kn k D(1,2) [of p]
    by (auto simp: EPoll_updateChannel_def op_def t_def isNoneEvent_def kNoneEvent_def ep_known_def Let_def
        index_consts fun_upd_idem touch_poller split: if_splits)
  moreover have c: "chans ?s' = (chans s)(p := ?ch ?j)"
    by (auto simp: t(4) setIndex_def map_chan_def touch_def intro!: ext)
  moreover have "ep_invar usable interest ?s'"
    by (rule ep_invar_registered [OF inv us kn c]) (auto simp: op_def k'(2) t5 index_consts split: if_splits)
  moreover have "same_but_index ?t ?s'"
    by (auto simp: same_but_index_def c touch_def)
  moreover have "ep_watch interest s ?f \<noteq> None \<longleftrightarrow> ?i = kAdded"
    using D(5) [of ?f] D(1) [of p] kn by (auto simp: ep_watch_def index_consts split: if_splits)
  then have "ep_watch interest ?s' = (ep_watch interest s)(?f := if ep_watch interest s ?f \<noteq> None \<and> ev = 0 then None else Some (ev, p))"
    using k'(2) by (auto simp: ep_watch_def op_def map_chan_def)
  ultimately show ?thesis by (auto simp: ep_known_def t5 map_chan_def)
qed

lemma EPoll_updateChannel_refused:
  assumes "ep_invar usable interest s" "ep_known s (fd_of s p) \<notin> {None, Some p}"
  shows "EPoll_updateChannel ctl p (touch p ev s) = None"
  using assms ep_invarD(1,2) [OF assms(1), of p]
  by (auto simp: EPoll_updateChannel_def ep_known_def index_consts Let_def)

lemma ep_invar_removed:
  assumes inv: "ep_invar usable interest s" and kn: "ep_channels (poller s) (fd_of s p) = Some p"
    and c: "\<And>q. fd_of s' q = fd_of s q" "\<And>q. ch_events (chans s' q) = ch_events (chans s q)"
      "\<And>q. ch_index (chans s' q) = (if q = p then kNew else ch_index (chans s q))"
    and kn': "ep_channels (poller s') = (ep_channels (poller s))(fd_of s p := None)"
    and k': "interest (ep_kernel (poller s')) = (interest (ep_kernel (poller s)))(fd_of s p := None)"
  shows "ep_invar usable interest s'"
proof -
  note D = ep_invarD [OF inv]
  have ne: "q \<noteq> p" if "ep_channels (poller s) f = Some q" "f \<noteq> fd_of s p" for f q using D(3) [OF that(1)] that(2) by auto
  have "interest (ep_kernel (poller s')) f = (case ep_channels (poller s') f of None \<Rightarrow> None
    | Some q \<Rightarrow> if ch_index (chans s' q) = kAdded then Some (ch_events (chans s' q), q) else None)" for f
    using D(5) [of f] ne [of f] unfolding kn' c k' by (auto split: option.split)
  moreover have "ch_index (chans s' q) = kNew \<and> ep_channels (poller s') (fd_of s' q) \<noteq> Some q \<or>
      ch_index (chans s' q) \<in> {kAdded, kDeleted} \<and> ep_channels (poller s') (fd_of s' q) = Some q" for q
    using D(1,2) [of q] kn unfolding kn' c by auto
  moreover have "ch_index (chans s' q) = kDeleted \<longrightarrow> ch_events (chans s' q) = 0" for q
    using D(4) [of q] unfolding c by (simp add: index_consts)
  moreover have "ep_channels (poller s') f = Some q \<longrightarrow> fd_of s' q = f \<and> usable f" for f q
    using D(3) [of f q] unfolding kn' c by simp
  ultimately show ?thesis unfolding ep_invar_def by blast
qed

lemma EPoll_removeChannel_ok:
  assumes inv: "ep_invar usable interest s" and k: "ep_known s (fd_of s p) = Some p"
    and ev: "ch_events (chans s p) = 0"
  shows "\<exists>s'. EPoll_removeChannel ctl p (untouch p s) = Some s' \<and> ep_invar usable interest s' \<and>
    ep_known s' = (ep_known s)(fd_of s p := None) \<and> same_but_index (untouch p s) s' \<and>
    ep_watch interest s' = (ep_watch interest s)(fd_of s p := None)"
proof -
  note D = ep_invarD [OF inv]
  let ?u = "untouch p s" and ?f = "fd_of s p"
  define t where "t = ?u\<lparr>poller := (poller ?u)\<lparr>ep_channels := (ep_channels (poller s))(?f := None)\<rparr>\<rparr>"
  have kn: "ep_channels (poller s) ?f = Some p" using k by (simp add: ep_known_def)
  have us: "usable ?f" using D(3) [OF kn] by simp
  have i: "ch_index (chans s p) \<in> {kAdded, kDeleted}" using D(1,2) [of p] kn by auto
  have t: "fd_of t p = ?f" "chans t = chans ?u" "ep_kernel (poller t) = ep_kernel (poller s)"
    by (simp_all add: t_def)
  have "\<exists>k'. (if ch_index (chans s p) = kAdded then EPoll_update ctl EPOLL_CTL_DEL p t else Some t) =
      Some (t\<lparr>poller := (poller t)\<lparr>ep_kernel := k'\<rparr>\<rparr>) \<and>
      interest k' = (interest (ep_kernel (poller s)))(?f := None)"
  proof (cases "ch_index (chans s p) = kAdded")
    case True
    then show ?thesis
      using EPoll_update_ok [of t p EPOLL_CTL_DEL] us t D(5) [of ?f] kn by auto
  next
    case False
    then have "interest (ep_kernel (poller s)) ?f = None" using D(5) [of ?f] kn by simp
    with False show ?thesis by (intro exI [of _ "ep_kernel (poller s)"]) (simp add: t_def fun_upd_idem)
  qed
  then obtain k' where k': "(if ch_index (chans s p) = kAdded then EPoll_update ctl EPOLL_CTL_DEL p t else Some t) =
      Some (t\<lparr>poller := (poller t)\<lparr>ep_kernel := k'\<rparr>\<rparr>)"
    "interest k' = (interest (ep_kernel (poller s)))(?f := None)" by blast
  let ?s' = "map_chan p (setIndex kNew) (t\<lparr>poller := (poller t)\<lparr>ep_kernel := k'\<rparr>\<rparr>)"
  have "EPoll_removeChannel ctl p ?u =
      (if ch_index (chans s p) = kAdded then EPoll_update ctl EPOLL_CTL_DEL p t else Some t) \<bind>
        (\<lambda>s. Some (map_chan p (setIndex kNew) s))"
    using kn i ev by (simp add: EPoll_removeChannel_def t_def isNoneEvent_def kNoneEvent_def Let_def)
  then have "EPoll_removeChannel ctl p ?u = Some ?s'" unfolding k'(1) by simp
  moreover have kn': "ep_channels (poller ?s') = (ep_channels (poller s))(?f := None)"
    by (simp add: t_def map_chan_def)
  moreover have "ep_invar usable interest ?s'"
    by (rule ep_invar_removed [OF inv kn]) (use kn' k'(2) in \<open>simp_all add: t(2) map_chan_def\<close>)
  moreover have "same_but_index ?u ?s'" by (simp add: same_but_index_def t(2))
  moreover have "ep_watch interest ?s' = (ep_watch interest s)(?f := None)" using k'(2) by (simp add: ep_watch_def map_chan_def fun_upd_def)
  ultimately show ?thesis by (auto simp: ep_known_def)
qed

lemma EPoll_removeChannel_refused:
  assumes "ep_known s (fd_of s p) \<noteq> Some p"
  shows "EPoll_removeChannel ctl p (untouch p s) = None"
  using assms by (auto simp: EPoll_removeChannel_def ep_known_def Let_def)

lemma ep_exact: "exact_poller usable (ep_invar usable interest) ep_known
  (EPoll_updateChannel ctl) (EPoll_removeChannel ctl) (ep_watch interest)"
proof (unfold_locales, goal_cases)
  case (1 s p ev)
  then have "ep_known s (fd_of s p) \<in> {None, Some p}" by auto
  from EPoll_updateChannel_ok [OF 1(1,2) this, of ev] show ?case by blast
next
  case (2 s p)
  from EPoll_removeChannel_ok [OF 2] show ?case by blast
next
  case (3 s f p)
  then show ?case using ep_invarD(3) [OF 3(1), of f p] by (simp add: ep_known_def)
next
  case (4 s p ev)
  from EPoll_updateChannel_ok [OF 4] show ?case .
next
  case (5 s p ev)
  from EPoll_updateChannel_refused [OF 5] show ?case .
next
  case (6 s p)
  from EPoll_removeChannel_ok [OF 6] show ?case .
next
  case (7 s p)
  from EPoll_removeChannel_refused [OF 7(2)] show ?case .
qed

end

sublocale epoll_kernel \<subseteq> ep: exact_poller usable "ep_invar usable interest" ep_known
  "EPoll_updateChannel ctl" "EPoll_removeChannel ctl" "ep_watch interest"
  by (rule ep_exact)

subsection \<open>A kernel\<close>

text \<open>An interest list with the error cases of \<open>epoll_ctl(2)\<close>: \<open>EEXIST\<close> and \<open>ENOENT\<close>.\<close>

definition list_ctl :: "(fd \<rightharpoonup> flags \<times> chan_ptr) epoll_ctl" where
  "list_ctl k op f e =
     (case op of
        EPOLL_CTL_ADD \<Rightarrow> if k f = None then (k(f \<mapsto> e), True) else (k, False)
      | EPOLL_CTL_MOD \<Rightarrow> if k f = None then (k, False) else (k(f \<mapsto> e), True)
      | EPOLL_CTL_DEL \<Rightarrow> if k f = None then (k, False) else (k(f := None), True))"

interpretation listk: epoll_kernel "\<lambda>f. True" list_ctl "\<lambda>k. k"
  by unfold_locales (auto simp: list_ctl_def)

subsection \<open>Polling\<close>

lemma EPoll_fillActiveChannels_ok:
  assumes "\<forall>(r, p) \<in> set evs. ep_channels (poller s) (fd_of s p) = Some p" and "distinct (map snd evs)"
  shows "\<exists>s'. EPoll_fillActiveChannels evs active s = Some (active @ map snd evs, s') \<and> poller s' = poller s \<and>
    (\<forall>p. chans s' p = (case map_of (map prod.swap evs) p of
       None \<Rightarrow> chans s p | Some r \<Rightarrow> (chans s p)\<lparr>ch_revents := r\<rparr>))"
  using assms
proof (induction evs arbitrary: active s)
  case (Cons e evs)
  obtain r p where e: "e = (r, p)" by (cases e)
  let ?s = "map_chan p (setRevents r) s"
  have p: "p \<notin> snd ` set evs" using Cons.prems(2) e by simp
  have "\<forall>(r, p) \<in> set evs. ep_channels (poller ?s) (fd_of ?s p) = Some p"
    using Cons.prems(1) by (auto simp: setRevents_def)
  from Cons.IH [OF this, of "active @ [p]"] Cons.prems(2) e obtain s' where
    s': "EPoll_fillActiveChannels evs (active @ [p]) ?s = Some ((active @ [p]) @ map snd evs, s')"
      "poller s' = poller s"
      "\<And>q. chans s' q = (case map_of (map prod.swap evs) q of
        None \<Rightarrow> chans ?s q | Some r \<Rightarrow> (chans ?s q)\<lparr>ch_revents := r\<rparr>)" by auto
  have "map_of (map prod.swap evs) p = None" using p by (auto simp: map_of_eq_None_iff image_image)
  with s' Cons.prems(1) e show ?case by (auto simp: setRevents_def split: option.split)
qed simp

subsection \<open>Properties\<close>

text \<open>
  C6: what sequences of enabling, disabling and removing channels do, given that all descriptors can be polled. If no operation is on a channel whose descriptor
  belongs to another registered channel, and only registered channels that ask for nothing are removed, then no assertion of the
  epoll poller fails and no \<open>epoll_ctl\<close> call does; every other sequence fails at an assertion. The kernel's interest list
  has exactly the descriptors that the specification says, with the events the channel asks for and its address as user data: a channel that
  asks for something is in the list; when it comes to ask for nothing it is taken out of the list, but the next operation that leaves it
  asking for nothing puts it back, with no events.
\<close>

theorem epoll_tracks_interest:
  assumes "epoll_kernel usable ctl interest" and "interest k = Map.empty" and "\<forall>p. usable (fdof p)"
  shows "let r = exec_chan_ops (EPoll_updateChannel ctl) (EPoll_removeChannel ctl) ops
      \<lparr>chans = (\<lambda>p. Channel_ctor (fdof p)), poller = EPollPoller_ctor k\<rparr>
    in if legal_ops fdof Map.empty ops then
      \<exists>s' :: ('cb, 'k epoll) reactor. r = Some s' \<and> (\<forall>p. ch_events (chans s' p) = asked (fold spec_op ops Map.empty) p) \<and>
        (\<forall>f ev p. interest (ep_kernel (poller s')) f = Some (ev, p) \<longleftrightarrow> fdof p = f \<and> fold spec_op ops Map.empty p = Some (ev, True))
    else r = None"
proof -
  let ?s = "\<lparr>chans = (\<lambda>p. Channel_ctor (fdof p)), poller = EPollPoller_ctor k\<rparr> :: ('cb, 'k epoll) reactor"
  have E: "exact_poller usable (ep_invar usable interest) ep_known
      (EPoll_updateChannel ctl) (EPoll_removeChannel ctl) (ep_watch interest)"
    using assms(1) by (rule epoll_kernel.ep_exact)
  note sd = exact_poller.synced_def [OF E]
  have "exact_poller.synced (ep_invar usable interest) ep_known (ep_watch interest) fdof Map.empty ?s"
    unfolding sd using assms(2)
    by (simp add: ep_invar_def ep_known_def ep_watch_def EPollPoller_ctor_def Channel_ctor_def kNew_def kDeleted_def asked_def)
  from exact_poller.exec_chan_ops_synced [OF E this assms(3), of ops] show ?thesis
    unfolding Let_def by (auto simp: sd ep_watch_def split: if_splits)
qed

theorem epoll_tracks_interest_witness:
  "\<exists>s'. exec_chan_ops (EPoll_updateChannel list_ctl) (EPoll_removeChannel list_ctl)
      [EnableReading 0, EnableWriting 0, EnableReading 1, DisableAll 0, RemoveChan 0, DisableAll 1, DisableAll 1]
      \<lparr>chans = (\<lambda>p. Channel_ctor (int p)), poller = EPollPoller_ctor Map.empty\<rparr> =
        Some (s' :: (unit, (fd \<rightharpoonup> flags \<times> chan_ptr) epoll) reactor) \<and>
    ep_kernel (poller s') 1 = Some (0, 1) \<and> ep_kernel (poller s') 0 = None"
proof -
  let ?ops = "[EnableReading 0, EnableWriting 0, EnableReading 1, DisableAll 0, RemoveChan 0, DisableAll 1, DisableAll 1]"
  have A: "fold spec_op ?ops Map.empty = [1 \<mapsto> (0, True)]"
    by (auto simp: asked_def spec_update_def kNoneEvent_def or_event_nonzero fun_eq_iff)
  have "legal_ops int Map.empty ?ops" by (auto simp: kNoneEvent_def spec_update_def asked_def split: if_splits)
  with epoll_tracks_interest [of "\<lambda>f. True" list_ctl "\<lambda>k. k" Map.empty int ?ops] listk.epoll_kernel_axioms
  obtain s' :: "(unit, (fd \<rightharpoonup> flags \<times> chan_ptr) epoll) reactor" where
    s': "exec_chan_ops (EPoll_updateChannel list_ctl) (EPoll_removeChannel list_ctl) ?ops
      \<lparr>chans = (\<lambda>p. Channel_ctor (int p)), poller = EPollPoller_ctor Map.empty\<rparr> = Some s'"
    "\<forall>f ev p. ep_kernel (poller s') f = Some (ev, p) \<longleftrightarrow> int p = f \<and> [1 \<mapsto> (0, True)] p = Some (ev, True)"
    unfolding A Let_def by auto
  have "ep_kernel (poller s') 0 = None"
  proof (cases "ep_kernel (poller s') 0")
    case (Some e)
    then show ?thesis using s'(2) [rule_format, of 0 "fst e" "snd e"] by (simp split: if_splits)
  qed simp
  then show ?thesis using s' by auto
qed

text \<open>
  When \<open>epoll_wait\<close> reports channels that are in the interest list, each at most once and
  no more than the event array can hold, \<open>poll\<close> passes its assertions, hands back exactly
  these channels in that order behind the ones already in the list, sets \<open>revents_\<close> of these
  channels and nothing else, and doubles the event array if it came back full.
\<close>

theorem epoll_poll_reports:
  assumes "ep_invar usable interest s" and "epoll_wait (ep_events_size (poller s)) = Some evs"
    and "length evs \<le> ep_events_size (poller s)" and "distinct (map snd evs)"
    and "\<forall>(r, p) \<in> set evs. \<exists>f ev. interest (ep_kernel (poller s)) f = Some (ev, p)"
    and "evs \<noteq> []"
  shows "\<exists>s'. EPoll_poll epoll_wait now active s = Some (now, active @ map snd evs, s') \<and>
    (\<forall>p. chans s' p = (case map_of (map prod.swap evs) p of
       None \<Rightarrow> chans s p | Some r \<Rightarrow> (chans s p)\<lparr>ch_revents := r\<rparr>)) \<and>
    poller s' = (poller s)\<lparr>ep_events_size :=
      (if length evs = ep_events_size (poller s) then 2 else 1) * ep_events_size (poller s)\<rparr>"
proof -
  note D = ep_invarD [OF assms(1)]
  have "ep_channels (poller s) (fd_of s p) = Some p" if i: "interest (ep_kernel (poller s)) f = Some (ev, p)" for f ev p
  proof -
    have "ep_channels (poller s) f = Some p"
      using i unfolding D(5) [of f] by (simp split: option.splits if_splits)
    with D(3) [OF this] show ?thesis by simp
  qed
  then have "\<forall>(r, p) \<in> set evs. ep_channels (poller s) (fd_of s p) = Some p" using assms(5) by blast
  from EPoll_fillActiveChannels_ok [OF this assms(4), of active] obtain s' where
    s': "EPoll_fillActiveChannels evs active s = Some (active @ map snd evs, s')" "poller s' = poller s"
      "\<forall>p. chans s' p = (case map_of (map prod.swap evs) p of
        None \<Rightarrow> chans s p | Some r \<Rightarrow> (chans s p)\<lparr>ch_revents := r\<rparr>)" by blast
  show ?thesis
    using s' assms(2,3,6) by (auto simp: EPoll_poll_def Let_def mult.commute)
qed

theorem epoll_poll_reports_witness:
  "\<exists>s s'. enableReading (EPoll_updateChannel list_ctl) 3
      \<lparr>chans = (\<lambda>p. Channel_ctor (int p)), poller = EPollPoller_ctor Map.empty\<rparr> =
        Some (s :: (unit, (fd \<rightharpoonup> flags \<times> chan_ptr) epoll) reactor) \<and>
    EPoll_poll (\<lambda>n. Some [(POLLIN, 3)]) 77 [] s = Some (77, [3], s') \<and> ch_revents (chans s' 3) = POLLIN"
proof -
  let ?s0 = "\<lparr>chans = (\<lambda>p. Channel_ctor (int p)), poller = EPollPoller_ctor Map.empty\<rparr>
    :: (unit, (fd \<rightharpoonup> flags \<times> chan_ptr) epoll) reactor"
  have "ep_invar (\<lambda>f. True) (\<lambda>k. k) ?s0"
    by (simp add: ep_invar_def EPollPoller_ctor_def Channel_ctor_def kNew_def kDeleted_def)
  moreover have "ep_known ?s0 (fd_of ?s0 3) = None \<and> ch_index (chans ?s0 3) = -1"
    by (simp add: ep_known_def EPollPoller_ctor_def Channel_ctor_def)
  ultimately obtain s where s: "EPoll_updateChannel list_ctl 3 (touch 3 (0 OR kReadEvent) ?s0) = Some s"
    "ep_invar (\<lambda>f. True) (\<lambda>k. k) s" "ep_watch (\<lambda>k. k) s = (ep_watch (\<lambda>k. k) ?s0)(3 \<mapsto> (0 OR kReadEvent, 3))"
    using listk.EPoll_updateChannel_ok [of ?s0 3 "0 OR kReadEvent"] or_event_nonzero [of 0]
    by (auto simp: Channel_ctor_def split: if_splits)
  have sz: "ep_events_size (poller s) = 16"
    using s(1) by (auto simp: EPoll_updateChannel_def EPoll_update_def list_ctl_def EPollPoller_ctor_def
        Channel_ctor_def kNew_def kInitEventListSize_def Let_def map_chan_def touch_def setIndex_def)
  have "ep_kernel (poller s) 3 = Some (0 OR kReadEvent, 3)"
    using fun_cong [OF s(3), of 3] by (auto simp: ep_watch_def split: option.splits if_splits)
  then have "\<forall>(r, p) \<in> set [(POLLIN, 3 :: nat)]. \<exists>f ev. ep_kernel (poller s) f = Some (ev, p)" by auto
  from epoll_poll_reports [of "\<lambda>f. True" "\<lambda>k. k" s "\<lambda>n. Some [(POLLIN, 3)]", OF s(2) refl _ _ this, of 77 "[]"] sz
  obtain s' where "EPoll_poll (\<lambda>n. Some [(POLLIN, 3)]) 77 [] s = Some (77, [3], s')" "ch_revents (chans s' 3) = POLLIN"
    by auto
  then show ?thesis using s(1) by (auto simp: channel_ops_touch Channel_ctor_def)
qed

end
