(* ===== verification/PollPoller.thy ===== *)
theory PollPoller
  imports Poller
begin

text \<open>
  \<open>tmuduo/net/poller/PollPoller.cc\<close>, the poller chosen by \<open>TMUDUO_USE_POLL\<close>
  (\<open>poller/DefaultPoller.cc\<close>). It keeps an array of \<open>pollfd\<close>, a channel's index is its
  place there, and the entry of a channel that asks for nothing carries \<open>-fd-1\<close>, which
  \<open>poll\<close> skips. It satisfies the registry part of the poller interface, and not the exact
  one.
\<close>

record pollfd =
  pfd_fd :: fd
  pfd_events :: "16 word"
  pfd_revents :: "16 word"

record poll_poller =
  pollfds :: "pollfd list"
  pp_channels :: "fd \<rightharpoonup> chan_ptr"

definition PollPoller_ctor :: poll_poller where
  "PollPoller_ctor = \<lparr>pollfds = [], pp_channels = Map.empty\<rparr>"

datatype poller_kind = UsePoll | UseEPoll

definition newDefaultPoller :: "string option \<Rightarrow> poller_kind" where
  "newDefaultPoller getenv_TMUDUO_USE_POLL =
     (case getenv_TMUDUO_USE_POLL of Some _ \<Rightarrow> UsePoll | None \<Rightarrow> UseEPoll)"

definition Poll_updateChannel :: "('cb, poll_poller) poller_op" where
  "Poll_updateChannel p s =
     (let ch = chans s p; f = ch_fd ch; channels = pp_channels (poller s); pfds = pollfds (poller s) in
      if ch_index ch < 0 then do {
        assert_that (channels f = None);
        let pfd = \<lparr>pfd_fd = f, pfd_events = ucast (ch_events ch), pfd_revents = 0\<rparr>;
        let s = s\<lparr>poller := (poller s)\<lparr>pollfds := pfds @ [pfd]\<rparr>\<rparr>;
        let idx = int (length (pfds @ [pfd])) - 1;
        let s = map_chan p (setIndex idx) s;
        Some (s\<lparr>poller := (poller s)\<lparr>pp_channels := channels(f \<mapsto> p)\<rparr>\<rparr>) }
      else do {
        assert_that (channels f \<noteq> None);
        assert_that (channels f = Some p);
        let idx = ch_index ch;
        assert_that (0 \<le> idx \<and> idx < int (length pfds));
        let pfd = pfds ! nat idx;
        assert_that (pfd_fd pfd = f \<or> pfd_fd pfd = - f - 1);
        let pfd = pfd\<lparr>pfd_events := ucast (ch_events ch), pfd_revents := 0\<rparr>;
        let pfd = (if isNoneEvent ch then pfd\<lparr>pfd_fd := - f - 1\<rparr> else pfd);
        Some (s\<lparr>poller := (poller s)\<lparr>pollfds := pfds[nat idx := pfd]\<rparr>\<rparr>) })"

definition Poll_removeChannel :: "('cb, poll_poller) poller_op" where
  "Poll_removeChannel p s =
     (let ch = chans s p; f = ch_fd ch; channels = pp_channels (poller s); pfds = pollfds (poller s) in do {
        assert_that (channels f \<noteq> None);
        assert_that (channels f = Some p);
        assert_that (isNoneEvent ch);
        let idx = ch_index ch;
        assert_that (0 \<le> idx \<and> idx < int (length pfds));
        let pfd = pfds ! nat idx;
        assert_that (pfd_fd pfd = - f - 1 \<and> ch_events ch = scast (pfd_events pfd));
        let channels = channels(f := None);
        if nat idx = length pfds - 1 then
          Some (s\<lparr>poller := (poller s)\<lparr>pp_channels := channels, pollfds := butlast pfds\<rparr>\<rparr>)
        else do {
          let channelAtEnd = pfd_fd (last pfds);
          let pfds = pfds[nat idx := last pfds, length pfds - 1 := pfds ! nat idx];
          let channelAtEnd = (if channelAtEnd < 0 then - channelAtEnd - 1 else channelAtEnd);
          q \<leftarrow> channels channelAtEnd;
          let s = map_chan q (setIndex idx) s;
          Some (s\<lparr>poller := (poller s)\<lparr>pp_channels := channels, pollfds := butlast pfds\<rparr>\<rparr>) } })"

fun Poll_fillActiveChannels :: "nat \<Rightarrow> pollfd list \<Rightarrow> chan_ptr list \<Rightarrow> ('cb, poll_poller) reactor \<Rightarrow>
    (chan_ptr list \<times> ('cb, poll_poller) reactor) option" where
  "Poll_fillActiveChannels n [] active s = Some (active, s)"
| "Poll_fillActiveChannels n (pfd # pfds) active s =
     (if n > 0 then do {
        p \<leftarrow> pp_channels (poller s) (pfd_fd pfd);
        assert_that (ch_fd (chans s p) = pfd_fd pfd);
        Poll_fillActiveChannels (n - 1) pfds (active @ [p]) (map_chan p (setRevents (scast (pfd_revents pfd))) s) }
      else Poll_fillActiveChannels n pfds active s)"

text \<open>
  \<open>poll\<close>: the system call fills in \<open>revents\<close> of every entry and returns how many
  entries have some, or fails.
\<close>

definition Poll_poll ::
  "(pollfd list \<Rightarrow> (nat \<times> 16 word list) option) \<Rightarrow> int \<Rightarrow> chan_ptr list \<Rightarrow> ('cb, poll_poller) reactor \<Rightarrow>
     (int \<times> chan_ptr list \<times> ('cb, poll_poller) reactor) option" where
  "Poll_poll sys_poll now active s =
     (case sys_poll (pollfds (poller s)) of
        None \<Rightarrow> Some (now, active, s)
      | Some (numEvents, revs) \<Rightarrow>
          (let s = s\<lparr>poller := (poller s)\<lparr>pollfds :=
                 map2 (\<lambda>pfd r. pfd\<lparr>pfd_revents := r\<rparr>) (pollfds (poller s)) revs\<rparr>\<rparr> in
           if numEvents > 0 then do {
             (active, s) \<leftarrow> Poll_fillActiveChannels numEvents (pollfds (poller s)) active s;
             Some (now, active, s) }
           else Some (now, active, s)))"

subsection \<open>The invariant\<close>

definition norm_fd :: "fd \<Rightarrow> fd" where
  "norm_fd f = (if f < 0 then - f - 1 else f)"

definition entry_ok :: "'cb channel \<Rightarrow> pollfd \<Rightarrow> bool" where
  "entry_ok ch pfd \<longleftrightarrow> norm_fd (pfd_fd pfd) = ch_fd ch \<and> pfd_events pfd = ucast (ch_events ch) \<and>
     (ch_events ch = 0 \<longrightarrow> pfd_fd pfd = - ch_fd ch - 1)"

definition pp_invar :: "('cb, poll_poller) reactor \<Rightarrow> bool" where
  "pp_invar s \<longleftrightarrow>
     (\<forall>f p. pp_channels (poller s) f = Some p \<longrightarrow> fd_of s p = f \<and> 0 \<le> f \<and>
        0 \<le> ch_index (chans s p) \<and> nat (ch_index (chans s p)) < length (pollfds (poller s)) \<and>
        entry_ok (chans s p) (pollfds (poller s) ! nat (ch_index (chans s p)))) \<and>
     (\<forall>i < length (pollfds (poller s)). \<exists>p. pp_channels (poller s) (norm_fd (pfd_fd (pollfds (poller s) ! i))) = Some p \<and>
        ch_index (chans s p) = int i)"

definition pp_known :: "('cb, poll_poller) reactor \<Rightarrow> fd \<rightharpoonup> chan_ptr" where
  "pp_known s = pp_channels (poller s)"

lemma pp_invarD:
  assumes "pp_invar s"
  shows "pp_channels (poller s) f = Some p \<Longrightarrow> fd_of s p = f \<and> 0 \<le> f \<and>
        0 \<le> ch_index (chans s p) \<and> nat (ch_index (chans s p)) < length (pollfds (poller s)) \<and>
        entry_ok (chans s p) (pollfds (poller s) ! nat (ch_index (chans s p)))"
    "i < length (pollfds (poller s)) \<Longrightarrow> \<exists>p. pp_channels (poller s) (norm_fd (pfd_fd (pollfds (poller s) ! i))) = Some p \<and>
        ch_index (chans s p) = int i"
  using assms unfolding pp_invar_def by blast+

lemma norm_fd_cases: "0 \<le> f \<Longrightarrow> norm_fd g = f \<longleftrightarrow> g = f \<or> g = - f - 1"
  by (auto simp: norm_fd_def)

lemma known_index_inj:
  assumes inv: "pp_invar s" and "pp_channels (poller s) f = Some p" "pp_channels (poller s) g = Some q"
    and "ch_index (chans s p) = ch_index (chans s q)"
  shows "p = q"
proof -
  have "f = g" using pp_invarD(1) [OF inv assms(2)] pp_invarD(1) [OF inv assms(3)] assms(4)
    by (auto simp: entry_ok_def)
  then show ?thesis using assms(2,3) by simp
qed

lemma Poll_add_ok:
  assumes inv: "pp_invar s" and f: "0 \<le> fd_of s p" "pp_channels (poller s) (fd_of s p) = None"
    and i: "ch_index (chans s p) = -1" and ev: "ev \<noteq> 0"
  shows "\<exists>s'. Poll_updateChannel p (touch p ev s) = Some s' \<and> pp_invar s' \<and>
    pp_known s' = (pp_known s)(fd_of s p \<mapsto> p) \<and> same_but_index (touch p ev s) s'"
proof -
  let ?pfds = "pollfds (poller s)" and ?f = "fd_of s p" and ?chs = "pp_channels (poller s)"
  let ?pfd = "\<lparr>pfd_fd = ?f, pfd_events = ucast ev, pfd_revents = 0\<rparr>"
  let ?ch = "(chans (touch p ev s) p)\<lparr>ch_index := int (length ?pfds)\<rparr>"
  define s' where "s' = (touch p ev s)\<lparr>chans := (chans s)(p := ?ch),
    poller := \<lparr>pollfds = ?pfds @ [?pfd], pp_channels = ?chs(?f \<mapsto> p)\<rparr>\<rparr>"
  have u: "Poll_updateChannel p (touch p ev s) = Some s'"
    using i f by (simp add: Poll_updateChannel_def Let_def s'_def touch_def map_chan_def setIndex_def)
  have c: "chans s' = (chans s)(p := ?ch)" "pollfds (poller s') = ?pfds @ [?pfd]"
    "pp_channels (poller s') = ?chs(?f \<mapsto> p)" by (simp_all add: s'_def)
  have ch: "ch_fd ?ch = ?f" "ch_events ?ch = ev" by simp_all
  have ne: "q \<noteq> p" if "?chs g = Some q" for g q using pp_invarD(1) [OF inv that] that f(2) by auto
  have known: "fd_of s' q = g \<and> 0 \<le> g \<and> 0 \<le> ch_index (chans s' q) \<and> nat (ch_index (chans s' q)) < length (pollfds (poller s')) \<and>
      entry_ok (chans s' q) (pollfds (poller s') ! nat (ch_index (chans s' q)))"
    if "pp_channels (poller s') g = Some q" for g q
  proof (cases "g = ?f")
    case True
    then have "q = p" using that c(3) by simp
    then show ?thesis using True f(1) ev ch by (simp add: c entry_ok_def norm_fd_def)
  next
    case False
    then have q: "?chs g = Some q" using that c(3) by simp
    then show ?thesis using pp_invarD(1) [OF inv q] ne [OF q] by (simp add: c nth_append)
  qed
  have cov: "\<exists>q. pp_channels (poller s') (norm_fd (pfd_fd (pollfds (poller s') ! j))) = Some q \<and>
      ch_index (chans s' q) = int j" if j: "j < length (pollfds (poller s'))" for j
  proof (cases "j < length ?pfds")
    case True
    then obtain q where q: "?chs (norm_fd (pfd_fd (?pfds ! j))) = Some q" "ch_index (chans s q) = int j"
      using pp_invarD(2) [OF inv] by blast
    moreover have "norm_fd (pfd_fd (?pfds ! j)) \<noteq> ?f" using q(1) f(2) by auto
    ultimately show ?thesis using True ne [OF q(1)] by (auto simp: c nth_append)
  next
    case False
    then have "j = length ?pfds" using j c(2) by simp
    then show ?thesis using f(1) by (auto simp: c norm_fd_def)
  qed
  have "pp_invar s'" unfolding pp_invar_def using known cov by blast
  moreover have "same_but_index (touch p ev s) s'" by (simp add: same_but_index_def c touch_def map_chan_def)
  ultimately show ?thesis using u by (auto simp: pp_known_def c)
qed

lemma Poll_change_ok:
  assumes inv: "pp_invar s" and k: "pp_channels (poller s) (fd_of s p) = Some p"
  shows "\<exists>s'. Poll_updateChannel p (touch p ev s) = Some s' \<and> pp_invar s' \<and>
    pp_known s' = (pp_known s)(fd_of s p \<mapsto> p) \<and> same_but_index (touch p ev s) s' \<and>
    (let old = pollfds (poller s) ! nat (ch_index (chans s p)) in
     pollfds (poller s') ! nat (ch_index (chans s' p)) = old\<lparr>pfd_events := ucast ev, pfd_revents := 0,
       pfd_fd := (if ev = 0 then - fd_of s p - 1 else pfd_fd old)\<rparr>)"
proof -
  note P = pp_invarD(1) [OF inv k]
  let ?pfds = "pollfds (poller s)" and ?f = "fd_of s p" and ?i = "nat (ch_index (chans s p))"
  let ?pfd = "(?pfds ! ?i)\<lparr>pfd_events := ucast ev, pfd_revents := 0,
       pfd_fd := (if ev = 0 then - ?f - 1 else pfd_fd (?pfds ! ?i))\<rparr>"
  define s' where "s' = (touch p ev s)\<lparr>poller := (poller s)\<lparr>pollfds := ?pfds[?i := ?pfd]\<rparr>\<rparr>"
  have fd: "pfd_fd (?pfds ! ?i) = ?f \<or> pfd_fd (?pfds ! ?i) = - ?f - 1"
    using P norm_fd_cases [of ?f] by (auto simp: entry_ok_def)
  have lt: "ch_index (chans s p) < int (length ?pfds)" using P by linarith
  have u: "Poll_updateChannel p (touch p ev s) = Some s'"
    using P k fd lt by (simp add: Poll_updateChannel_def Let_def s'_def isNoneEvent_def kNoneEvent_def)
  have c: "pp_channels (poller s') = pp_channels (poller s)" "pollfds (poller s') = ?pfds[?i := ?pfd]"
    "chans s' = chans (touch p ev s)" by (simp_all add: s'_def)
  have nf: "norm_fd (pfd_fd ?pfd) = norm_fd (pfd_fd (?pfds ! ?i))" using P fd by (auto simp: norm_fd_def)
  have known: "fd_of s' q = g \<and> 0 \<le> g \<and> 0 \<le> ch_index (chans s' q) \<and> nat (ch_index (chans s' q)) < length (pollfds (poller s')) \<and>
      entry_ok (chans s' q) (pollfds (poller s') ! nat (ch_index (chans s' q)))"
    if q: "pp_channels (poller s') g = Some q" for g q
  proof (cases "q = p")
    case True
    then show ?thesis using P q nf k pp_invarD(1) [OF inv, of g q] by (auto simp: c entry_ok_def norm_fd_def)
  next
    case False
    note Q = pp_invarD(1) [OF inv q [unfolded c(1)]]
    have "nat (ch_index (chans s q)) \<noteq> ?i"
      using known_index_inj [OF inv k q [unfolded c(1)]] False P Q by (auto simp: eq_nat_nat_iff)
    then show ?thesis using Q False by (simp add: c entry_ok_def)
  qed
  have cov: "\<exists>q. pp_channels (poller s') (norm_fd (pfd_fd (pollfds (poller s') ! j))) = Some q \<and>
      ch_index (chans s' q) = int j" if "j < length (pollfds (poller s'))" for j
    using pp_invarD(2) [OF inv, of j] that nf by (cases "j = ?i") (simp_all add: c)
  have "pp_invar s'" unfolding pp_invar_def using known cov by blast
  moreover have "same_but_index (touch p ev s) s'" by (simp add: same_but_index_def c)
  moreover have "pollfds (poller s') ! nat (ch_index (chans s' p)) = ?pfd" using P by (simp add: c)
  ultimately show ?thesis
    using u k by (intro exI [of _ s']) (simp add: pp_known_def c Let_def fun_upd_idem)
qed

text \<open>
  The state after a removal: the entry of the channel is replaced by the last one, which belongs to the channel
  \<open>q\<close>, and the vector is shortened.
\<close>

definition drop_pfd :: "chan_ptr \<Rightarrow> chan_ptr \<Rightarrow> ('cb, poll_poller) reactor \<Rightarrow> ('cb, poll_poller) reactor" where
  "drop_pfd p q s = (let pfds = pollfds (poller s); i = nat (ch_index (chans s p)); s0 = untouch p s in
     s0\<lparr>chans := (chans s0)(q := (chans s0 q)\<lparr>ch_index := int i\<rparr>),
        poller := \<lparr>pollfds = butlast (pfds[i := pfds ! (length pfds - 1)]), pp_channels = (pp_channels (poller s))(fd_of s p := None)\<rparr>\<rparr>)"

definition last_entry :: "chan_ptr \<Rightarrow> chan_ptr \<Rightarrow> ('cb, poll_poller) reactor \<Rightarrow> bool" where
  "last_entry p q s \<longleftrightarrow> (let pfds = pollfds (poller s); n = length pfds - 1; i = nat (ch_index (chans s p)) in
     i \<le> n \<and> n < length pfds \<and> pp_channels (poller s) (norm_fd (pfd_fd (pfds ! n))) = Some q \<and> ch_index (chans s q) = int n \<and>
     (q = p \<longleftrightarrow> i = n) \<and> (i \<noteq> n \<longrightarrow> norm_fd (pfd_fd (pfds ! n)) \<noteq> fd_of s p))"

lemma last_entry_exists:
  assumes inv: "pp_invar s" and k: "pp_channels (poller s) (fd_of s p) = Some p"
  shows "\<exists>q. last_entry p q s"
proof -
  note P = pp_invarD(1) [OF inv k]
  let ?n = "length (pollfds (poller s)) - 1"
  have last: "?n < length (pollfds (poller s))" using P by linarith
  obtain q where q: "pp_channels (poller s) (norm_fd (pfd_fd (pollfds (poller s) ! ?n))) = Some q" "ch_index (chans s q) = int ?n"
    using pp_invarD(2) [OF inv last] by blast
  have qp: "q = p \<longleftrightarrow> nat (ch_index (chans s p)) = ?n" using q known_index_inj [OF inv k q(1)] P by auto
  moreover have "norm_fd (pfd_fd (pollfds (poller s) ! ?n)) \<noteq> fd_of s p" if "nat (ch_index (chans s p)) \<noteq> ?n"
    using q(1) qp that k by auto
  moreover have "nat (ch_index (chans s p)) \<le> ?n" using P by linarith
  ultimately show ?thesis using q last unfolding last_entry_def Let_def by blast
qed

lemma Poll_remove_runs:
  assumes inv: "pp_invar s" and k: "pp_channels (poller s) (fd_of s p) = Some p" and ev: "ch_events (chans s p) = 0" and q: "last_entry p q s"
  shows "Poll_removeChannel p (untouch p s) = Some (drop_pfd p q s)"
proof -
  note P = pp_invarD(1) [OF inv k] and q = q [unfolded last_entry_def Let_def]
  let ?pfds = "pollfds (poller s)" and ?f = "fd_of s p" and ?i = "nat (ch_index (chans s p))"
  let ?n = "length ?pfds - 1"
  have lt: "ch_index (chans s p) < int (length ?pfds)" and ii: "int ?i = ch_index (chans s p)" using P by linarith+
  have last: "last ?pfds = ?pfds ! ?n" using q by (intro last_conv_nth) auto
  have pf: "pfd_fd (?pfds ! ?i) = - ?f - 1" "pfd_events (?pfds ! ?i) = 0" using P ev by (auto simp: entry_ok_def)
  have bl: "butlast ((?pfds[?i := x])[?n := y]) = butlast (?pfds[?i := x])" for x y
    using q by (simp add: butlast_conv_take take_update_cancel)
  show ?thesis
  proof (cases "?i = ?n")
    case True
    then have "q = p" using q by simp
    then show ?thesis using True P k ev pf lt ii
      by (simp add: Poll_removeChannel_def Let_def isNoneEvent_def kNoneEvent_def drop_pfd_def untouch_def map_chan_def)
  next
    case False
    have "((pp_channels (poller s))(?f := None)) (norm_fd (pfd_fd (?pfds ! ?n))) = Some q" using q False by simp
    then show ?thesis using False P k ev pf lt ii last bl
      by (simp add: Poll_removeChannel_def Let_def isNoneEvent_def kNoneEvent_def norm_fd_def drop_pfd_def map_chan_def setIndex_def
          split: if_splits)
  qed
qed

lemma drop_pfd_simps:
  assumes "last_entry p q s"
  shows "pp_channels (poller (drop_pfd p q s)) = (pp_channels (poller s))(fd_of s p := None)"
    "length (pollfds (poller (drop_pfd p q s))) = length (pollfds (poller s)) - 1"
    "ch_fd (chans (drop_pfd p q s) r) = ch_fd (chans s r)" "ch_events (chans (drop_pfd p q s) r) = ch_events (chans s r)"
    "ch_index (chans (drop_pfd p q s) r) = (if r = q then int (nat (ch_index (chans s p))) else ch_index (chans s r))"
    "j < length (pollfds (poller s)) - 1 \<Longrightarrow> pollfds (poller (drop_pfd p q s)) ! j =
       (if j = nat (ch_index (chans s p)) then pollfds (poller s) ! (length (pollfds (poller s)) - 1) else pollfds (poller s) ! j)"
  using assms by (simp_all add: drop_pfd_def Let_def last_entry_def nth_butlast nth_list_update)

lemma drop_pfd_known:
  assumes inv: "pp_invar s" and k: "pp_channels (poller s) (fd_of s p) = Some p" and q: "last_entry p q s"
    and r: "pp_channels (poller (drop_pfd p q s)) g = Some r"
  shows "fd_of (drop_pfd p q s) r = g \<and> 0 \<le> g \<and> 0 \<le> ch_index (chans (drop_pfd p q s) r) \<and>
    nat (ch_index (chans (drop_pfd p q s) r)) < length (pollfds (poller (drop_pfd p q s))) \<and>
    entry_ok (chans (drop_pfd p q s) r) (pollfds (poller (drop_pfd p q s)) ! nat (ch_index (chans (drop_pfd p q s) r)))"
proof -
  note P = pp_invarD(1) [OF inv k] and c = drop_pfd_simps [OF q] and q = q [unfolded last_entry_def Let_def]
  let ?pfds = "pollfds (poller s)" and ?i = "nat (ch_index (chans s p))"
  let ?n = "length ?pfds - 1"
  have rk: "pp_channels (poller s) g = Some r" "g \<noteq> fd_of s p" using r by (auto simp: c split: if_splits)
  note R = pp_invarD(1) [OF inv rk(1)]
  have rp: "r \<noteq> p" using R rk(2) by auto
  show ?thesis
  proof (cases "r = q")
    case True
    then have "?i < ?n" using rp q P by linarith
    moreover have "nat (ch_index (chans s q)) = ?n" using q by simp
    then have "entry_ok (chans s q) (?pfds ! ?n)" "fd_of s q = g" "0 \<le> g" using R True by simp_all
    ultimately show ?thesis using P True c(6) [of ?i] by (simp add: c(2-5) entry_ok_def)
  next
    case False
    have "ch_index (chans s r) \<noteq> ch_index (chans s p)" "ch_index (chans s r) \<noteq> int ?n"
      using known_index_inj [OF inv k rk(1)] known_index_inj [OF inv _ rk(1)] rp False q by metis+
    then have "nat (ch_index (chans s r)) \<noteq> ?i" "nat (ch_index (chans s r)) \<noteq> ?n" using P R by linarith+
    moreover from this have "nat (ch_index (chans s r)) < ?n" using R by linarith
    ultimately show ?thesis using R False c(6) by (simp add: c(2-5) entry_ok_def)
  qed
qed

lemma drop_pfd_covered:
  assumes inv: "pp_invar s" and k: "pp_channels (poller s) (fd_of s p) = Some p" and q: "last_entry p q s"
    and j: "j < length (pollfds (poller (drop_pfd p q s)))"
  shows "\<exists>r. pp_channels (poller (drop_pfd p q s)) (norm_fd (pfd_fd (pollfds (poller (drop_pfd p q s)) ! j))) = Some r \<and>
    ch_index (chans (drop_pfd p q s) r) = int j"
proof -
  note P = pp_invarD(1) [OF inv k] and c = drop_pfd_simps [OF q] and q = q [unfolded last_entry_def Let_def]
  let ?pfds = "pollfds (poller s)" and ?i = "nat (ch_index (chans s p))"
  have j': "j < length ?pfds - 1" using j c(2) by simp
  show ?thesis
  proof (cases "j = ?i")
    case True
    then show ?thesis using j' c(6) [OF j'] q by (auto simp: c(1,5))
  next
    case False
    from j' have "j < length ?pfds" by simp
    then obtain r where r: "pp_channels (poller s) (norm_fd (pfd_fd (?pfds ! j))) = Some r" "ch_index (chans s r) = int j"
      using pp_invarD(2) [OF inv] by blast
    have "r \<noteq> q" using r(2) q j' by auto
    moreover have "norm_fd (pfd_fd (?pfds ! j)) \<noteq> fd_of s p" using r k False P by auto
    ultimately show ?thesis using r c(6) [OF j'] False by (auto simp: c(1,5))
  qed
qed

lemma Poll_remove_ok:
  assumes inv: "pp_invar s" and k: "pp_channels (poller s) (fd_of s p) = Some p" and ev: "ch_events (chans s p) = 0"
  shows "\<exists>s'. Poll_removeChannel p (untouch p s) = Some s' \<and> pp_invar s' \<and>
    pp_known s' = (pp_known s)(fd_of s p := None) \<and> same_but_index (untouch p s) s'"
proof -
  obtain q where q: "last_entry p q s" using last_entry_exists [OF inv k] by blast
  have "pp_invar (drop_pfd p q s)"
    unfolding pp_invar_def using drop_pfd_known [OF inv k q] drop_pfd_covered [OF inv k q] by blast
  moreover have "same_but_index (untouch p s) (drop_pfd p q s)" by (simp add: same_but_index_def drop_pfd_def Let_def)
  moreover have "pp_known (drop_pfd p q s) = (pp_known s)(fd_of s p := None)" by (simp add: pp_known_def drop_pfd_simps(1) [OF q])
  ultimately show ?thesis using Poll_remove_runs [OF inv k ev q] by blast
qed

interpretation pp: poller_registry "\<lambda>f. 0 \<le> f" pp_invar pp_known Poll_updateChannel Poll_removeChannel
proof (unfold_locales, goal_cases)
  case (1 s p ev)
  then show ?case
    using Poll_add_ok [OF 1(1,2), of ev] Poll_change_ok [OF 1(1), of p ev] by (auto simp: pp_known_def)
next
  case (2 s p)
  then show ?case using Poll_remove_ok [OF 2(1)] by (auto simp: pp_known_def)
next
  case (3 s f p)
  then show ?case using pp_invarD(1) [OF 3(1), of f p] by (auto simp: pp_known_def)
qed

subsection \<open>Properties\<close>

text \<open>
  In the poll poller too, a channel can be registered, parked and removed without an
  assertion failing, whatever other channels are registered; the removal keeps the array of
  \<open>pollfd\<close>, the indices of the other channels and the map of channels consistent.
\<close>

theorem poll_channel_life:
  assumes "pp_invar s" and "0 \<le> fd_of s p" and "pp_channels (poller s) (fd_of s p) = None"
    and "ch_index (chans s p) = -1" and "ev \<noteq> 0"
  shows "\<exists>s1 s2 s3. Poll_updateChannel p (touch p ev s) = Some s1 \<and> disableAll Poll_updateChannel p s1 = Some s2 \<and>
    Channel_remove Poll_removeChannel p s2 = Some s3 \<and> pp_invar s3 \<and>
    pp_channels (poller s3) = pp_channels (poller s)"
  using pp.register_park_remove [of s p ev] assms by (simp add: pp_known_def)

definition poll_start :: "(unit, poll_poller) reactor" where
  "poll_start = \<lparr>chans = (\<lambda>p. Channel_ctor (int p)), poller = PollPoller_ctor\<rparr>"

lemma poll_start_invar: "pp_invar poll_start"
  by (simp add: pp_invar_def poll_start_def PollPoller_ctor_def)

theorem poll_channel_life_witness:
  "\<exists>s1 s2 s3. Poll_updateChannel 3 (touch 3 POLLIN poll_start) = Some s1 \<and> disableAll Poll_updateChannel 3 s1 = Some s2 \<and>
    Channel_remove Poll_removeChannel 3 s2 = Some s3 \<and> pp_invar s3 \<and>
    pp_channels (poller s3) = pp_channels (poller poll_start)"
  by (rule poll_channel_life [OF poll_start_invar])
    (simp_all add: poll_start_def PollPoller_ctor_def Channel_ctor_def POLLIN_def)

text \<open>The state of a well-formed reactor on this poller: besides the invariant, descriptors and indices are in range.\<close>

definition pp_state :: "('cb, poll_poller) reactor \<Rightarrow> bool" where
  "pp_state s \<longleftrightarrow> pp_invar s \<and> (\<forall>p. 0 \<le> fd_of s p \<and> -1 \<le> ch_index (chans s p))"

text \<open>The first operation on a channel is one that enables something.\<close>

fun enables_first :: "chan_op \<Rightarrow> ('cb, poll_poller) reactor \<Rightarrow> bool" where
  "enables_first (EnableReading p) s \<longleftrightarrow> True"
| "enables_first (EnableWriting p) s \<longleftrightarrow> True"
| "enables_first (DisableReading p) s \<longleftrightarrow> 0 \<le> ch_index (chans s p)"
| "enables_first (DisableWriting p) s \<longleftrightarrow> 0 \<le> ch_index (chans s p)"
| "enables_first (DisableAll p) s \<longleftrightarrow> 0 \<le> ch_index (chans s p)"
| "enables_first (RemoveChan p) s \<longleftrightarrow> True"

primrec enables_first_all :: "chan_op list \<Rightarrow> ('cb, poll_poller) reactor \<Rightarrow> bool" where
  "enables_first_all [] s \<longleftrightarrow> True"
| "enables_first_all (op # ops) s \<longleftrightarrow> enables_first op s \<and>
     (case exec_chan_op Poll_updateChannel Poll_removeChannel op s of None \<Rightarrow> True | Some s' \<Rightarrow> enables_first_all ops s')"

lemma Poll_update_state:
  assumes "pp_state s" "ev \<noteq> 0 \<or> 0 \<le> ch_index (chans s p)" "Poll_updateChannel p (touch p ev s) = Some s'"
  shows "pp_state s'"
proof -
  have inv: "pp_invar s" and fd: "0 \<le> fd_of s p" and ix: "-1 \<le> ch_index (chans s p)" using assms(1) by (auto simp: pp_state_def)
  have "pp_known s (fd_of s p) = Some p \<or> pp_known s (fd_of s p) = None \<and> ch_index (chans s p) = -1 \<and> ev \<noteq> 0"
    using assms(2,3) ix by (auto simp: Poll_updateChannel_def Let_def pp_known_def split: if_splits)
  from pp.update_ok [OF inv fd this] assms(3) have s': "pp_invar s'" "same_but_index (touch p ev s) s'" by auto
  have "-1 \<le> ch_index (chans s' q)" for q
    using assms(1,3) by (auto simp: Poll_updateChannel_def Let_def pp_state_def map_chan_def setIndex_def split: if_splits)
  moreover have "0 \<le> fd_of s' q" for q using same_but_indexD(1) [OF s'(2), of q] assms(1) by (simp add: pp_state_def)
  ultimately show ?thesis using s'(1) by (simp add: pp_state_def)
qed

lemma Poll_remove_state:
  assumes "pp_state s" "ch_events (chans s p) = 0" "Poll_removeChannel p (untouch p s) = Some s'"
  shows "pp_state s'"
proof -
  have inv: "pp_invar s" using assms(1) by (simp add: pp_state_def)
  have "pp_known s (fd_of s p) = Some p" using assms(3) by (auto simp: Poll_removeChannel_def Let_def pp_known_def split: if_splits)
  from pp.remove_ok [OF inv this assms(2)] assms(3) have s': "pp_invar s'" "same_but_index (untouch p s) s'" by auto
  have "-1 \<le> ch_index (chans s' q)" for q
    using assms(1,3)
    by (auto simp: Poll_removeChannel_def Let_def pp_state_def map_chan_def setIndex_def bind_eq_Some_conv split: if_splits)
  moreover have "0 \<le> fd_of s' q" for q using same_but_indexD(1) [OF s'(2), of q] assms(1) by (simp add: pp_state_def)
  ultimately show ?thesis using s'(1) by (simp add: pp_state_def)
qed

lemma exec_chan_op_state:
  assumes "pp_state s" "enables_first op s" "exec_chan_op Poll_updateChannel Poll_removeChannel op s = Some s'"
  shows "pp_state s'"
  using assms(2,3) Poll_update_state [OF assms(1) disjI1 [OF or_event_nonzero(1)]]
    Poll_update_state [OF assms(1) disjI1 [OF or_event_nonzero(2)]]
    Poll_update_state [OF assms(1) disjI2] Poll_remove_state [OF assms(1)]
  by (cases op) (auto simp: channel_ops_touch Channel_remove_untouch split: if_splits)

lemma exec_chan_ops_state:
  "pp_state s \<Longrightarrow> enables_first_all ops s \<Longrightarrow> exec_chan_ops Poll_updateChannel Poll_removeChannel ops s = Some s' \<Longrightarrow> pp_state s'"
  by (induction ops arbitrary: s) (auto simp: bind_eq_Some_conv dest: exec_chan_op_state)

definition poll_boot :: "(chan_ptr \<Rightarrow> fd) \<Rightarrow> ('cb, poll_poller) reactor" where
  "poll_boot fdof = \<lparr>chans = (\<lambda>p. Channel_ctor (fdof p)), poller = PollPoller_ctor\<rparr>"

text \<open>
  C28: The poll poller stays well-formed. Whatever operations are called on channels, in whatever order, as long as the
  first one on a channel enables something and none stops the process: every registered channel has its own
  entry in the array of \<open>pollfd\<close>, at its index and with its events; every entry belongs to a registered
  channel; and no two registered channels share an index.
\<close>
theorem poll_wellformed:
  assumes "\<forall>p. 0 \<le> fdof p"
    and "enables_first_all ops (poll_boot fdof :: ('cb, poll_poller) reactor)"
    and "exec_chan_ops Poll_updateChannel Poll_removeChannel ops (poll_boot fdof) = Some (s :: ('cb, poll_poller) reactor)"
  shows "(\<forall>f p. pp_channels (poller s) f = Some p \<longrightarrow> fd_of s p = f \<and> 0 \<le> ch_index (chans s p) \<and>
       nat (ch_index (chans s p)) < length (pollfds (poller s)) \<and>
       entry_ok (chans s p) (pollfds (poller s) ! nat (ch_index (chans s p)))) \<and>
    (\<forall>i < length (pollfds (poller s)). \<exists>p. pp_channels (poller s) (norm_fd (pfd_fd (pollfds (poller s) ! i))) = Some p \<and>
       ch_index (chans s p) = int i) \<and>
    (\<forall>f g p q. pp_channels (poller s) f = Some p \<longrightarrow> pp_channels (poller s) g = Some q \<longrightarrow>
       ch_index (chans s p) = ch_index (chans s q) \<longrightarrow> p = q)"
proof -
  have "pp_state (poll_boot fdof :: ('cb, poll_poller) reactor)"
    using assms(1) by (simp add: poll_boot_def pp_state_def pp_invar_def PollPoller_ctor_def Channel_ctor_def)
  then have inv: "pp_invar s" using exec_chan_ops_state [OF _ assms(2,3)] by (simp add: pp_state_def)
  show ?thesis using pp_invarD [OF inv] known_index_inj [OF inv] by blast
qed

definition demo_poll_ops :: "chan_op list" where
  "demo_poll_ops = [EnableReading 4, EnableWriting 5, EnableReading 5, DisableAll 4, RemoveChan 4, DisableWriting 5]"

definition demo_reactor :: "(unit, poll_poller) reactor" where
  "demo_reactor = poll_boot int"

lemma demo_poll_run:
  "\<exists>s. exec_chan_ops Poll_updateChannel Poll_removeChannel demo_poll_ops demo_reactor = Some s \<and>
     enables_first_all demo_poll_ops demo_reactor \<and> length (pollfds (poller s)) = 1 \<and> pp_channels (poller s) 5 = Some 5"
  by (simp add: demo_poll_ops_def demo_reactor_def poll_boot_def channel_ops_touch Channel_remove_untouch Poll_updateChannel_def
      Poll_removeChannel_def Channel_ctor_def PollPoller_ctor_def touch_def untouch_def map_chan_def setIndex_def isNoneEvent_def
      kNoneEvent_def kReadEvent_def kWriteEvent_def poll_flags Let_def)

theorem poll_wellformed_witness:
  "\<exists>s. exec_chan_ops Poll_updateChannel Poll_removeChannel demo_poll_ops demo_reactor = Some s \<and>
     nat (ch_index (chans s 5)) = 0 \<and> entry_ok (chans s 5) (pollfds (poller s) ! 0)"
proof -
  obtain s where s: "exec_chan_ops Poll_updateChannel Poll_removeChannel demo_poll_ops demo_reactor = Some s"
      "enables_first_all demo_poll_ops demo_reactor" "length (pollfds (poller s)) = 1" "pp_channels (poller s) 5 = Some 5"
    using demo_poll_run by blast
  have "nat (ch_index (chans s 5)) < length (pollfds (poller s)) \<and>
      entry_ok (chans s 5) (pollfds (poller s) ! nat (ch_index (chans s 5)))"
    using poll_wellformed [of int demo_poll_ops s] s(1,2,4) unfolding demo_reactor_def by (metis of_nat_0_le_iff)
  then show ?thesis using s(1,3) by (metis less_one)
qed

text \<open>
  C29: once a channel has been parked in the poll poller, enabling it again has no effect on
  what is polled: \<open>updateChannel\<close> writes the new events into the entry, whose descriptor stays
  negative, so \<open>poll\<close> keeps skipping it while the channel asks for events.
\<close>

theorem poll_reenable_ignored:
  assumes "pp_invar s" and "pp_channels (poller s) (fd_of s p) = Some p" and "ch_events (chans s p) = 0"
  shows "\<exists>s'. enableReading Poll_updateChannel p s = Some s' \<and> isReading (chans s' p) \<and>
    (\<forall>pfd \<in> set (pollfds (poller s')). pfd_fd pfd \<noteq> fd_of s' p)"
proof -
  let ?ev = "ch_events (chans s p) OR kReadEvent"
  note P = pp_invarD(1) [OF assms(1,2)]
  obtain s' where s': "Poll_updateChannel p (touch p ?ev s) = Some s'" "pp_invar s'"
    "pp_known s' = (pp_known s)(fd_of s p \<mapsto> p)" "same_but_index (touch p ?ev s) s'"
    "pfd_fd (pollfds (poller s') ! nat (ch_index (chans s' p))) = pfd_fd (pollfds (poller s) ! nat (ch_index (chans s p)))"
    using Poll_change_ok [OF assms(1,2), of ?ev] or_event_nonzero(1) [of "ch_events (chans s p)"]
    by (auto simp: Let_def)
  have neg: "pfd_fd (pollfds (poller s') ! nat (ch_index (chans s' p))) = - fd_of s p - 1"
    using P assms(3) s'(5) by (simp add: entry_ok_def)
  have fd: "fd_of s' p = fd_of s p" "ch_events (chans s' p) = ?ev" using same_but_indexD [OF s'(4), of p] by simp_all
  have "pfd_fd pfd \<noteq> fd_of s' p" if pfd: "pfd \<in> set (pollfds (poller s'))" for pfd
  proof
    assume eq: "pfd_fd pfd = fd_of s' p"
    obtain j where j: "j < length (pollfds (poller s'))" "pollfds (poller s') ! j = pfd"
      using pfd by (auto simp: in_set_conv_nth)
    obtain q where q: "pp_channels (poller s') (norm_fd (pfd_fd pfd)) = Some q" "ch_index (chans s' q) = int j"
      using pp_invarD(2) [OF s'(2) j(1)] j(2) by blast
    have "norm_fd (pfd_fd pfd) = fd_of s p" using eq fd P by (simp add: norm_fd_def)
    then have "q = p" using q(1) s'(3) by (simp add: pp_known_def)
    then show False using q(2) j(2) neg eq fd(1) P by simp
  qed
  moreover have "isReading (chans s' p)"
    using assms(3) by (simp add: isReading_def fd(2) kReadEvent_def poll_flags)
  ultimately show ?thesis using s'(1) by (auto simp: channel_ops_touch)
qed

theorem poll_reenable_ignored_witness:
  "\<exists>s s'. enableReading Poll_updateChannel 3 poll_start \<bind> disableAll Poll_updateChannel 3 = Some s \<and>
    enableReading Poll_updateChannel 3 s = Some s' \<and> isReading (chans s' 3) \<and>
    (\<forall>pfd \<in> set (pollfds (poller s')). pfd_fd pfd \<noteq> fd_of s' 3)"
proof -
  have i: "pp_channels (poller poll_start) (fd_of poll_start 3) = None" "0 \<le> fd_of poll_start 3"
    "ch_index (chans poll_start 3) = -1" "ch_events (chans poll_start 3) = 0" "fd_of poll_start 3 = 3"
    by (simp_all add: poll_start_def PollPoller_ctor_def Channel_ctor_def)
  obtain s1 where s1: "enableReading Poll_updateChannel 3 poll_start = Some s1" "pp_invar s1"
    "pp_channels (poller s1) 3 = Some 3" "fd_of s1 3 = 3"
    using Poll_add_ok [OF poll_start_invar i(2,1,3) or_event_nonzero(1), of 0] i(4,5)
    by (auto simp: channel_ops_touch pp_known_def dest: same_but_indexD(1) [of _ _ 3])
  obtain s2 where s2: "disableAll Poll_updateChannel 3 s1 = Some s2" "pp_invar s2"
    "pp_channels (poller s2) 3 = Some 3" "same_but_index (touch 3 0 s1) s2"
    using Poll_change_ok [OF s1(2), of 3 0] s1(3,4)
    by (auto simp: channel_ops_touch pp_known_def kNoneEvent_def)
  have "fd_of s2 3 = 3" "ch_events (chans s2 3) = 0" using same_but_indexD [OF s2(4), of 3] s1(4) by simp_all
  with poll_reenable_ignored [OF s2(2), of 3] s2 s1(1) show ?thesis by auto
qed

end
