(* ===== verification/EventLoop.thy ===== *)
theory EventLoop
  imports Poller
begin

text \<open>
  \<open>tmuduo/net/EventLoop.h\<close> and \<open>EventLoop.cc\<close>: the loop object, its queue of
  functors and the eventfd that wakes it up. A functor is a value of type \<open>'f\<close> and
  \<open>run\<close> says what calling it does to the state; the state is the record \<open>event_loop\<close>,
  extended by whatever the functors work on. The thread that calls an operation is an argument.
  The second part takes the operations apart into their atomic steps and studies every
  interleaving of the loop thread with other threads.
\<close>

record 'f event_loop =
  looping :: bool
  quit :: bool
  loopEventHandling :: bool
  callingPendingFunctors :: bool
  threadId :: tid
  pollReturnTime :: int
  wakeupCount :: nat
  activeChannels :: "chan_ptr list"
  currentActiveChannel :: "chan_ptr option"
  pendingFunctors :: "'f list"

definition kPollTimeMs :: int where
  "kPollTimeMs = 10 * 1000"

text \<open>\<open>t_loopInThisThread\<close> tells whether the thread already has a loop, which is fatal.\<close>

definition EventLoop_ctor :: "bool \<Rightarrow> tid \<Rightarrow> 'f event_loop option" where
  "EventLoop_ctor loopInThisThread t =
     (if loopInThisThread then None
      else Some \<lparr>looping = False, quit = False, loopEventHandling = False, callingPendingFunctors = False,
             threadId = t, pollReturnTime = 0, wakeupCount = 0, activeChannels = [],
             currentActiveChannel = None, pendingFunctors = []\<rparr>)"

definition isInLoopThread :: "tid \<Rightarrow> ('f, 'z) event_loop_scheme \<Rightarrow> bool" where
  "isInLoopThread caller l \<longleftrightarrow> threadId l = caller"

definition assertInLoopThread :: "tid \<Rightarrow> ('f, 'z) event_loop_scheme \<Rightarrow> unit option" where
  "assertInLoopThread caller l = (if \<not> isInLoopThread caller l then None else Some ())"

text \<open>
  \<open>wakeup\<close> adds one to the eventfd's counter, whose maximum is \<open>2 ^ 64 - 2\<close>: beyond it
  the non-blocking write fails, which is logged. \<open>handleRead\<close> resets the counter.
\<close>

definition wakeup :: "('f, 'z) event_loop_scheme \<Rightarrow> ('f, 'z) event_loop_scheme" where
  "wakeup l = (if wakeupCount l < 2 ^ 64 - 2 then l\<lparr>wakeupCount := wakeupCount l + 1\<rparr> else l)"

definition loop_handleRead :: "('f, 'z) event_loop_scheme \<Rightarrow> ('f, 'z) event_loop_scheme" where
  "loop_handleRead l = l\<lparr>wakeupCount := 0\<rparr>"

text \<open>\<open>quit\<close> and \<open>queueInLoop\<close> are each two actions, between which other threads may run.\<close>

definition set_quit :: "('f, 'z) event_loop_scheme \<Rightarrow> ('f, 'z) event_loop_scheme" where
  "set_quit l = l\<lparr>quit := True\<rparr>"

definition wake_after_quit :: "tid \<Rightarrow> ('f, 'z) event_loop_scheme \<Rightarrow> ('f, 'z) event_loop_scheme" where
  "wake_after_quit caller l = (if \<not> isInLoopThread caller l then wakeup l else l)"

definition EventLoop_quit :: "tid \<Rightarrow> ('f, 'z) event_loop_scheme \<Rightarrow> ('f, 'z) event_loop_scheme" where
  "EventLoop_quit caller l = wake_after_quit caller (set_quit l)"

definition push_functor :: "'f \<Rightarrow> ('f, 'z) event_loop_scheme \<Rightarrow> ('f, 'z) event_loop_scheme" where
  "push_functor cb l = l\<lparr>pendingFunctors := pendingFunctors l @ [cb]\<rparr>"

definition wake_after_push :: "tid \<Rightarrow> ('f, 'z) event_loop_scheme \<Rightarrow> ('f, 'z) event_loop_scheme" where
  "wake_after_push caller l = (if \<not> isInLoopThread caller l \<or> callingPendingFunctors l then wakeup l else l)"

definition queueInLoop :: "tid \<Rightarrow> 'f \<Rightarrow> ('f, 'z) event_loop_scheme \<Rightarrow> ('f, 'z) event_loop_scheme" where
  "queueInLoop caller cb l = wake_after_push caller (push_functor cb l)"

definition runInLoop ::
  "('f \<Rightarrow> ('f, 'z) event_loop_scheme \<Rightarrow> ('f, 'z) event_loop_scheme option) \<Rightarrow> tid \<Rightarrow> 'f \<Rightarrow>
     ('f, 'z) event_loop_scheme \<Rightarrow> ('f, 'z) event_loop_scheme option" where
  "runInLoop run caller cb l =
     (if isInLoopThread caller l then run cb l else Some (queueInLoop caller cb l))"

text \<open>The part of \<open>doPendingFunctors\<close> under the lock: the queue is swapped with an empty vector.\<close>

definition swap_functors :: "('f, 'z) event_loop_scheme \<Rightarrow> 'f list \<times> ('f, 'z) event_loop_scheme" where
  "swap_functors l = (pendingFunctors l, l\<lparr>pendingFunctors := []\<rparr>)"

definition doPendingFunctors ::
  "('f \<Rightarrow> ('f, 'z) event_loop_scheme \<Rightarrow> ('f, 'z) event_loop_scheme option) \<Rightarrow>
     ('f, 'z) event_loop_scheme \<Rightarrow> ('f, 'z) event_loop_scheme option" where
  "doPendingFunctors run l = do {
     let l = l\<lparr>callingPendingFunctors := True\<rparr>;
     let (functors, l) = swap_functors l;
     l \<leftarrow> run_all run functors l;
     Some (l\<lparr>callingPendingFunctors := False\<rparr>) }"

text \<open>
  \<open>loop\<close>: each element of the list is what one call of the poller returns, the time and the
  active channels; the list ending means that the loop is waiting in \<open>poll\<close>. \<open>handle\<close>
  is \<open>Channel::handleEvent\<close> of the given channel.
\<close>

fun handle_active ::
  "(chan_ptr \<Rightarrow> int \<Rightarrow> ('f, 'z) event_loop_scheme \<Rightarrow> ('f, 'z) event_loop_scheme option) \<Rightarrow> chan_ptr list \<Rightarrow>
     ('f, 'z) event_loop_scheme \<Rightarrow> ('f, 'z) event_loop_scheme option" where
  "handle_active handle [] l = Some l"
| "handle_active handle (p # ps) l = do {
     l \<leftarrow> handle p (pollReturnTime l) (l\<lparr>currentActiveChannel := Some p\<rparr>);
     handle_active handle ps l }"

definition loop_body ::
  "(chan_ptr \<Rightarrow> int \<Rightarrow> ('f, 'z) event_loop_scheme \<Rightarrow> ('f, 'z) event_loop_scheme option) \<Rightarrow>
   ('f \<Rightarrow> ('f, 'z) event_loop_scheme \<Rightarrow> ('f, 'z) event_loop_scheme option) \<Rightarrow>
   int \<times> chan_ptr list \<Rightarrow> ('f, 'z) event_loop_scheme \<Rightarrow> ('f, 'z) event_loop_scheme option" where
  "loop_body handle run polled l = do {
     let l = l\<lparr>pollReturnTime := fst polled, activeChannels := snd polled\<rparr>;
     let l = l\<lparr>loopEventHandling := True\<rparr>;
     l \<leftarrow> handle_active handle (activeChannels l) l;
     let l = l\<lparr>currentActiveChannel := None, loopEventHandling := False\<rparr>;
     doPendingFunctors run l }"

fun loop_while ::
  "(chan_ptr \<Rightarrow> int \<Rightarrow> ('f, 'z) event_loop_scheme \<Rightarrow> ('f, 'z) event_loop_scheme option) \<Rightarrow>
   ('f \<Rightarrow> ('f, 'z) event_loop_scheme \<Rightarrow> ('f, 'z) event_loop_scheme option) \<Rightarrow>
   (int \<times> chan_ptr list) list \<Rightarrow> ('f, 'z) event_loop_scheme \<Rightarrow> ('f, 'z) event_loop_scheme option" where
  "loop_while handle run polls l =
     (if quit l then Some (l\<lparr>looping := False\<rparr>)
      else (case polls of
              [] \<Rightarrow> Some l
            | polled # polls \<Rightarrow> loop_body handle run polled l \<bind> loop_while handle run polls))"

definition EventLoop_loop ::
  "(chan_ptr \<Rightarrow> int \<Rightarrow> ('f, 'z) event_loop_scheme \<Rightarrow> ('f, 'z) event_loop_scheme option) \<Rightarrow>
   ('f \<Rightarrow> ('f, 'z) event_loop_scheme \<Rightarrow> ('f, 'z) event_loop_scheme option) \<Rightarrow> tid \<Rightarrow>
   (int \<times> chan_ptr list) list \<Rightarrow> ('f, 'z) event_loop_scheme \<Rightarrow> ('f, 'z) event_loop_scheme option" where
  "EventLoop_loop handle run caller polls l = do {
     assert_that (\<not> looping l);
     assertInLoopThread caller l;
     loop_while handle run polls (l\<lparr>looping := True\<rparr>) }"

text \<open>The calls a channel makes through its loop; \<open>owner\<close> is the thread of the channel's loop.\<close>

definition loop_updateChannel ::
  "('cb, 'p) poller_op \<Rightarrow> tid \<Rightarrow> ('f, 'z) event_loop_scheme \<Rightarrow> ('cb, 'p) poller_op" where
  "loop_updateChannel upd caller l p s = do {
     assertInLoopThread caller l;
     upd p s }"

definition loop_removeChannel ::
  "('cb, 'p) poller_op \<Rightarrow> tid \<Rightarrow> ('f, 'z) event_loop_scheme \<Rightarrow> ('cb, 'p) poller_op" where
  "loop_removeChannel rem caller l p s = do {
     assertInLoopThread caller l;
     assert_that (loopEventHandling l \<longrightarrow>
       currentActiveChannel l = Some p \<or> p \<notin> set (activeChannels l));
     rem p s }"

text \<open>
  The part of the constructor and the destructor that concerns the channel \<open>p\<close> of the eventfd: it is registered
  for the life of the loop.
\<close>

definition EventLoop_ctor_channel :: "('cb, 'p) poller_op \<Rightarrow> 'cb \<Rightarrow> ('cb, 'p) poller_op" where
  "EventLoop_ctor_channel upd handleRead p s = enableReading upd p (map_chan p (setReadCallback handleRead) s)"

definition EventLoop_dtor :: "('cb, 'p) poller_op \<Rightarrow> ('cb, 'p) poller_op \<Rightarrow> ('cb, 'p) poller_op" where
  "EventLoop_dtor upd rem p s = do {
     s \<leftarrow> disableAll upd p s;
     Channel_remove rem p s }"

text \<open>On any poller, a loop leaves the registry as it found it.\<close>

context poller_registry
begin

lemma loop_life:
  assumes "invar (map_chan p (setReadCallback cb) s)" "usable (fd_of s p)" "ch_index (chans s p) = -1"
    and "known (map_chan p (setReadCallback cb) s) (fd_of s p) = None"
  shows "\<exists>s1 s2. EventLoop_ctor_channel update cb p s = Some s1 \<and> EventLoop_dtor update remove p s1 = Some s2 \<and>
     invar s2 \<and> known s2 = known (map_chan p (setReadCallback cb) s)"
proof -
  let ?s = "map_chan p (setReadCallback cb) s"
  have s: "fd_of ?s p = fd_of s p" "ch_index (chans ?s p) = -1" using assms(3) by (simp_all add: map_chan_def setReadCallback_def)
  have "\<exists>s1 s2 s3. update p (touch p (ch_events (chans ?s p) OR kReadEvent) ?s) = Some s1 \<and> disableAll update p s1 = Some s2 \<and>
      Channel_remove remove p s2 = Some s3 \<and> invar s3 \<and> known s3 = known ?s"
    using assms s by (intro register_park_remove) (auto simp: or_event_nonzero)
  then show ?thesis by (auto simp: EventLoop_ctor_channel_def EventLoop_dtor_def channel_ops_touch(1))
qed

end

subsection \<open>The operations\<close>

lemma wakeup_simps [simp]:
  "pendingFunctors (wakeup l) = pendingFunctors l" "threadId (wakeup l) = threadId l"
  "callingPendingFunctors (wakeup l) = callingPendingFunctors l" "quit (wakeup l) = quit l" "wakeupCount (wakeup l) > 0" "wakeupCount (wakeup l) \<noteq> 0"
  by (simp_all add: wakeup_def)

lemma push_functor_simps [simp]:
  "threadId (push_functor f l) = threadId l" "wakeupCount (push_functor f l) = wakeupCount l"
  "callingPendingFunctors (push_functor f l) = callingPendingFunctors l" "quit (push_functor f l) = quit l"
  "pendingFunctors (push_functor f l) = pendingFunctors l @ [f]"
  by (simp_all add: push_functor_def)

lemma wake_after_push_simps [simp]:
  "pendingFunctors (wake_after_push t l) = pendingFunctors l" "threadId (wake_after_push t l) = threadId l"
  "callingPendingFunctors (wake_after_push t l) = callingPendingFunctors l" "quit (wake_after_push t l) = quit l"
  "wakeupCount l > 0 \<Longrightarrow> wakeupCount (wake_after_push t l) > 0"
  "threadId l \<noteq> t \<or> callingPendingFunctors l \<Longrightarrow> wakeupCount (wake_after_push t l) > 0"
  by (simp_all add: wake_after_push_def isInLoopThread_def)

lemma wake_after_quit_simps [simp]:
  "pendingFunctors (wake_after_quit t l) = pendingFunctors l" "threadId (wake_after_quit t l) = threadId l"
  "callingPendingFunctors (wake_after_quit t l) = callingPendingFunctors l" "quit (wake_after_quit t l) = quit l"
  "wakeupCount l > 0 \<Longrightarrow> wakeupCount (wake_after_quit t l) > 0" "threadId l \<noteq> t \<Longrightarrow> wakeupCount (wake_after_quit t l) > 0"
  by (simp_all add: wake_after_quit_def isInLoopThread_def)

lemma set_quit_simps [simp]:
  "pendingFunctors (set_quit l) = pendingFunctors l" "threadId (set_quit l) = threadId l" "quit (set_quit l)"
  "callingPendingFunctors (set_quit l) = callingPendingFunctors l" "wakeupCount (set_quit l) = wakeupCount l"
  by (simp_all add: set_quit_def)

subsection \<open>The loop among other threads\<close>

text \<open>
  Where the loop thread stands: before the test of \<open>quit_\<close>, in \<open>poll\<close>, handling events (the eventfd's
  channel still among the active ones or not), before the swap of the queue, running the functors swapped out, or between the two
  actions of a call it makes itself. \<open>inflight\<close> are the calls of other threads that are between their two actions.
  \<open>history\<close> and \<open>executed\<close> are the functors that were queued and that were called so far.
\<close>

datatype half_call = Pushed tid | Quitting tid

datatype 'f loop_pc = AtTest | AtPoll | Handling bool | Swapping | Running "'f list" | Calling half_call "'f loop_pc" | Stopped

record 'f loop_system = "'f event_loop" +
  pc :: "'f loop_pc"
  inflight :: "half_call list"
  history :: "'f list"
  executed :: "'f list"

primrec finish_call :: "half_call \<Rightarrow> 'f loop_system \<Rightarrow> 'f loop_system" where
  "finish_call (Pushed t) s = wake_after_push t s"
| "finish_call (Quitting t) s = wake_after_quit t s"

text \<open>A functor that is called, and that itself queues functors from the loop's thread.\<close>

definition enqueue :: "'f \<Rightarrow> 'f loop_system \<Rightarrow> 'f loop_system" where
  "enqueue g s = (queueInLoop (threadId s) g s)\<lparr>history := history s @ [g]\<rparr>"

definition run_traced :: "('f \<Rightarrow> 'f list) \<Rightarrow> 'f \<Rightarrow> 'f loop_system \<Rightarrow> 'f loop_system option" where
  "run_traced spawns f s = Some (fold enqueue (spawns f) (s\<lparr>executed := executed s @ [f]\<rparr>))"

text \<open>
  The places from which code in the loop's thread calls \<open>queueInLoop\<close> and \<open>quit\<close>: handlers of events and functors.
\<close>

fun user_code_at :: "'f loop_pc \<Rightarrow> bool" where
  "user_code_at (Handling b) \<longleftrightarrow> True"
| "user_code_at (Running fs) \<longleftrightarrow> True"
| "user_code_at _ \<longleftrightarrow> False"

text \<open>
  The steps, each made of the operations above. \<open>poll\<close> returns when the eventfd is readable (\<open>poll_wakeup\<close>), and also for
  another descriptor or after ten seconds (\<open>poll_other\<close>). The calls of \<open>queueInLoop\<close>, \<open>quit\<close> and
  \<open>doPendingFunctors\<close> occur whole and, where other threads can come between, in their parts.
\<close>

datatype loop_label = LoopThread | OtherEvent | NewCall | EndOfCall

inductive loop_step :: "loop_label \<Rightarrow> 'f loop_system \<Rightarrow> 'f loop_system \<Rightarrow> bool" where
  test_stop: "pc s = AtTest \<Longrightarrow> quit s \<Longrightarrow> loop_step LoopThread s (s\<lparr>pc := Stopped, looping := False\<rparr>)"
| test_poll: "pc s = AtTest \<Longrightarrow> \<not> quit s \<Longrightarrow> loop_step LoopThread s (s\<lparr>pc := AtPoll\<rparr>)"
| poll_wakeup: "pc s = AtPoll \<Longrightarrow> wakeupCount s > 0 \<Longrightarrow> loop_step LoopThread s (s\<lparr>pc := Handling True\<rparr>)"
| poll_other: "pc s = AtPoll \<Longrightarrow> loop_step OtherEvent s (s\<lparr>pc := Handling (wakeupCount s > 0)\<rparr>)"
| handle_read: "pc s = Handling True \<Longrightarrow> loop_step LoopThread s ((loop_handleRead s)\<lparr>pc := Handling False\<rparr>)"
| round: "pc s = Handling False \<Longrightarrow> doPendingFunctors (run_traced spawns) s = Some s' \<Longrightarrow>
    loop_step LoopThread s (s'\<lparr>pc := AtTest\<rparr>)"
| round_begin: "pc s = Handling False \<Longrightarrow> loop_step LoopThread s (s\<lparr>pc := Swapping, callingPendingFunctors := True\<rparr>)"
| round_swap: "pc s = Swapping \<Longrightarrow> swap_functors s = (fs, s') \<Longrightarrow> loop_step LoopThread s (s'\<lparr>pc := Running fs\<rparr>)"
| round_call: "pc s = Running (f # fs) \<Longrightarrow> loop_step LoopThread s (s\<lparr>pc := Running fs, executed := executed s @ [f]\<rparr>)"
| round_end: "pc s = Running [] \<Longrightarrow> loop_step LoopThread s (s\<lparr>pc := AtTest, callingPendingFunctors := False\<rparr>)"
| own_queue: "user_code_at (pc s) \<Longrightarrow> loop_step NewCall s (enqueue f s)"
| own_push: "user_code_at (pc s) \<Longrightarrow>
    loop_step NewCall s ((push_functor f s)\<lparr>pc := Calling (Pushed (threadId s)) (pc s), history := history s @ [f]\<rparr>)"
| own_quit: "user_code_at (pc s) \<Longrightarrow> loop_step NewCall s (EventLoop_quit (threadId s) s)"
| own_set_quit: "user_code_at (pc s) \<Longrightarrow> loop_step NewCall s ((set_quit s)\<lparr>pc := Calling (Quitting (threadId s)) (pc s)\<rparr>)"
| own_finish: "pc s = Calling c p \<Longrightarrow> loop_step LoopThread s ((finish_call c s)\<lparr>pc := p\<rparr>)"
| other_queue: "t \<noteq> threadId s \<Longrightarrow> loop_step NewCall s ((queueInLoop t f s)\<lparr>history := history s @ [f]\<rparr>)"
| other_push: "t \<noteq> threadId s \<Longrightarrow>
    loop_step NewCall s ((push_functor f s)\<lparr>inflight := Pushed t # inflight s, history := history s @ [f]\<rparr>)"
| other_quit: "t \<noteq> threadId s \<Longrightarrow> loop_step NewCall s (EventLoop_quit t s)"
| other_set_quit: "t \<noteq> threadId s \<Longrightarrow> loop_step NewCall s ((set_quit s)\<lparr>inflight := Quitting t # inflight s\<rparr>)"
| other_finish: "c \<in> set (inflight s) \<Longrightarrow> loop_step EndOfCall s ((finish_call c s)\<lparr>inflight := remove1 c (inflight s)\<rparr>)"

inductive_cases loop_step_cases: "loop_step a s s'"

definition loop_init :: "tid \<Rightarrow> 'f loop_system option" where
  "loop_init t = do {
     l \<leftarrow> EventLoop_ctor False t;
     Some (event_loop.extend (l\<lparr>looping := True\<rparr>) \<lparr>pc = AtTest, inflight = [], history = [], executed = []\<rparr>) }"

inductive loop_reachable :: "tid \<Rightarrow> 'f loop_system \<Rightarrow> bool" for t where
  start: "loop_init t = Some s \<Longrightarrow> loop_reachable t s"
| step: "loop_reachable t s \<Longrightarrow> loop_step a s s' \<Longrightarrow> loop_reachable t s'"

subsection \<open>What one round of pending functors does\<close>

lemma system_simps [simp]:
  "executed (wakeup s) = executed s" "history (wakeup s) = history s" "inflight (wakeup s) = inflight s" "pc (wakeup s) = pc s"
  "executed (push_functor f s) = executed s" "history (push_functor f s) = history s" "inflight (push_functor f s) = inflight s" "pc (push_functor f s) = pc s"
  "executed (set_quit s) = executed s" "history (set_quit s) = history s" "inflight (set_quit s) = inflight s" "pc (set_quit s) = pc s"
  by (simp_all add: wakeup_def push_functor_def set_quit_def)

lemma wake_system_simps [simp]:
  "executed (wake_after_push t s) = executed s" "history (wake_after_push t s) = history s" "inflight (wake_after_push t s) = inflight s"
  "pc (wake_after_push t s) = pc s"
  "executed (wake_after_quit t s) = executed s" "history (wake_after_quit t s) = history s" "inflight (wake_after_quit t s) = inflight s"
  "pc (wake_after_quit t s) = pc s"
  by (simp_all add: wake_after_push_def wake_after_quit_def)

lemma enqueue_simps [simp]:
  "pendingFunctors (enqueue g s) = pendingFunctors s @ [g]" "history (enqueue g s) = history s @ [g]" "executed (enqueue g s) = executed s"
  "threadId (enqueue g s) = threadId s" "callingPendingFunctors (enqueue g s) = callingPendingFunctors s" "quit (enqueue g s) = quit s"
  "inflight (enqueue g s) = inflight s" "pc (enqueue g s) = pc s"
  "wakeupCount s > 0 \<or> callingPendingFunctors s \<Longrightarrow> wakeupCount (enqueue g s) > 0"
  by (auto simp: enqueue_def queueInLoop_def)

lemma fold_enqueue:
  "callingPendingFunctors s \<Longrightarrow>
     (let s' = fold enqueue gs s in
      executed s' = executed s \<and> history s' = history s @ gs \<and> pendingFunctors s' = pendingFunctors s @ gs \<and> callingPendingFunctors s' \<and>
      threadId s' = threadId s \<and> quit s' = quit s \<and> inflight s' = inflight s \<and>
      (wakeupCount s > 0 \<or> gs \<noteq> [] \<longrightarrow> wakeupCount s' > 0))"
proof (induction gs arbitrary: s)
  case (Cons g gs)
  from Cons.IH [of "enqueue g s"] Cons.prems show ?case by (simp add: Let_def)
qed (simp add: Let_def)

lemma run_all_traced:
  assumes "callingPendingFunctors s" and "pendingFunctors s \<noteq> [] \<longrightarrow> wakeupCount s > 0"
  shows "\<exists>s'. run_all (run_traced spawns) fs s = Some s' \<and> executed s' = executed s @ fs \<and> history s' = history s @ concat (map spawns fs) \<and>
    pendingFunctors s' = pendingFunctors s @ concat (map spawns fs) \<and> threadId s' = threadId s \<and> quit s' = quit s \<and>
    inflight s' = inflight s \<and> (pendingFunctors s' \<noteq> [] \<longrightarrow> wakeupCount s' > 0)"
  using assms
proof (induction fs arbitrary: s)
  case (Cons f fs)
  let ?s = "fold enqueue (spawns f) (s\<lparr>executed := executed s @ [f]\<rparr>)"
  have s: "executed ?s = executed s @ [f]" "history ?s = history s @ spawns f" "pendingFunctors ?s = pendingFunctors s @ spawns f"
    "callingPendingFunctors ?s" "threadId ?s = threadId s" "quit ?s = quit s" "inflight ?s = inflight s"
    "wakeupCount s > 0 \<or> spawns f \<noteq> [] \<longrightarrow> wakeupCount ?s > 0"
    using fold_enqueue [of "s\<lparr>executed := executed s @ [f]\<rparr>" "spawns f"] Cons.prems(1) by (simp_all add: Let_def)
  have "pendingFunctors ?s \<noteq> [] \<longrightarrow> wakeupCount ?s > 0" using s(3,8) Cons.prems(2) by auto
  from Cons.IH [OF s(4) this] s show ?case by (auto simp: run_traced_def)
qed simp

text \<open>
  One call of \<open>doPendingFunctors\<close> runs exactly the functors queued before it, in order.
  Functors that these queue stay in the queue for the next round, and then the loop has been woken
  up, so the next \<open>poll\<close> does not block.
\<close>

lemma doPendingFunctors_round:
  "\<exists>s'. doPendingFunctors (run_traced spawns) s = Some s' \<and> executed s' = executed s @ pendingFunctors s \<and>
     pendingFunctors s' = concat (map spawns (pendingFunctors s)) \<and> history s' = history s @ pendingFunctors s' \<and>
     \<not> callingPendingFunctors s' \<and> threadId s' = threadId s \<and> quit s' = quit s \<and> inflight s' = inflight s \<and>
     (pendingFunctors s' \<noteq> [] \<longrightarrow> wakeupCount s' > 0)"
  using run_all_traced [of "s\<lparr>callingPendingFunctors := True, pendingFunctors := []\<rparr>" spawns "pendingFunctors s"]
  by (auto simp: doPendingFunctors_def swap_functors_def)

subsection \<open>The invariant\<close>

fun todo :: "'f loop_pc \<Rightarrow> 'f list" where
  "todo (Running fs) = fs"
| "todo (Calling c p) = todo p"
| "todo _ = []"

text \<open>Places where the thread will come to \<open>poll\<close> before it swaps the queue, so that a functor in the queue needs a wakeup.\<close>

fun quiet :: "'f loop_pc \<Rightarrow> bool" where
  "quiet AtTest \<longleftrightarrow> True"
| "quiet AtPoll \<longleftrightarrow> True"
| "quiet (Running fs) \<longleftrightarrow> True"
| "quiet _ \<longleftrightarrow> False"

fun calling :: "'f loop_pc \<Rightarrow> bool" where
  "calling Swapping \<longleftrightarrow> True"
| "calling (Running fs) \<longleftrightarrow> True"
| "calling (Calling c p) \<longleftrightarrow> calling p"
| "calling _ \<longleftrightarrow> False"

primrec caller :: "half_call \<Rightarrow> tid" where
  "caller (Pushed t) = t"
| "caller (Quitting t) = t"

definition fifo_inv :: "'f loop_system \<Rightarrow> bool" where
  "fifo_inv s \<longleftrightarrow> executed s @ todo (pc s) @ pendingFunctors s = history s"

definition wake_inv :: "'f loop_system \<Rightarrow> bool" where
  "wake_inv s \<longleftrightarrow>
     (quiet (pc s) \<and> pendingFunctors s \<noteq> [] \<or> pc s = AtPoll \<and> quit s \<longrightarrow> wakeupCount s > 0 \<or> inflight s \<noteq> []) \<and>
     callingPendingFunctors s = calling (pc s) \<and> (\<forall>c \<in> set (inflight s). caller c \<noteq> threadId s) \<and>
     (\<forall>c p. pc s = Calling c p \<longrightarrow> user_code_at p \<and>
       (c = Quitting (threadId s) \<and> (quiet p \<and> pendingFunctors s \<noteq> [] \<longrightarrow> wakeupCount s > 0 \<or> inflight s \<noteq> []) \<or> c = Pushed (threadId s)))"

lemma finish_call_simps [simp]:
  "pendingFunctors (finish_call c s) = pendingFunctors s" "threadId (finish_call c s) = threadId s" "quit (finish_call c s) = quit s"
  "callingPendingFunctors (finish_call c s) = callingPendingFunctors s" "executed (finish_call c s) = executed s"
  "history (finish_call c s) = history s" "inflight (finish_call c s) = inflight s" "pc (finish_call c s) = pc s"
  "caller c \<noteq> threadId s \<Longrightarrow> wakeupCount (finish_call c s) > 0" "wakeupCount s > 0 \<Longrightarrow> wakeupCount (finish_call c s) > 0"
  by (cases c; auto)+

lemma fifo_step: "loop_step a s s' \<Longrightarrow> fifo_inv s \<Longrightarrow> fifo_inv s'"
proof (erule loop_step_cases, goal_cases)
  case (6 spawns s1)
  then show ?case using doPendingFunctors_round [of spawns s] by (auto simp: fifo_inv_def)
qed (auto simp: fifo_inv_def loop_handleRead_def EventLoop_quit_def queueInLoop_def swap_functors_def)

lemma wake_step: "loop_step a s s' \<Longrightarrow> wake_inv s \<Longrightarrow> wake_inv s'"
proof (erule loop_step_cases, goal_cases)
  case (6 spawns s1)
  then show ?case using doPendingFunctors_round [of spawns s] by (auto simp: wake_inv_def)
next
  case (15 c p)
  then show ?case by (cases p) (auto simp: wake_inv_def wake_after_push_def wake_after_quit_def isInLoopThread_def)
next
  case (20 c)
  then show ?case by (auto simp: wake_inv_def dest: notin_set_remove1 set_remove1_subset [THEN subsetD])
next
  case (11 f)
  then show ?case by (cases "pc s") (auto simp: wake_inv_def)
next
  case (12 f)
  then show ?case by (cases "pc s") (auto simp: wake_inv_def)
next
  case 13
  then show ?case by (cases "pc s") (auto simp: wake_inv_def EventLoop_quit_def wake_after_quit_def isInLoopThread_def)
next
  case 14
  then show ?case by (cases "pc s") (auto simp: wake_inv_def)
qed (auto simp: wake_inv_def loop_handleRead_def EventLoop_quit_def queueInLoop_def swap_functors_def)

lemma reachable_inv: "loop_reachable t s \<Longrightarrow> fifo_inv s \<and> wake_inv s"
proof (induction rule: loop_reachable.induct)
  case (start s)
  then show ?case by (auto simp: loop_init_def EventLoop_ctor_def event_loop.defs fifo_inv_def wake_inv_def)
next
  case (step s a s')
  then show ?case using fifo_step wake_step by blast
qed

subsection \<open>The queue is drained\<close>





subsection \<open>Properties\<close>


text \<open>Two threads have queued a functor each while the loop is in \<open>poll\<close>; neither has written to the eventfd yet.\<close>

definition demo_system :: "nat loop_system" where
  "demo_system = \<lparr>looping = True, quit = False, loopEventHandling = False, callingPendingFunctors = False,
     threadId = 1, pollReturnTime = 0, wakeupCount = 0, activeChannels = [], currentActiveChannel = None, pendingFunctors = [42, 43],
     pc = AtPoll, inflight = [Pushed 3, Pushed 2], history = [42, 43], executed = []\<rparr>"

lemma demo_reachable: "loop_reachable 1 demo_system"
proof -
  let ?s = "demo_system\<lparr>pc := AtTest, inflight := [], history := [], pendingFunctors := []\<rparr>"
  have "loop_reachable 1 ?s" by (rule loop_reachable.start) (simp add: loop_init_def EventLoop_ctor_def event_loop.defs demo_system_def)
  from loop_reachable.step [OF this test_poll] have "loop_reachable 1 (?s\<lparr>pc := AtPoll\<rparr>)" by (simp add: demo_system_def)
  from loop_reachable.step [OF this other_push [of 2 _ 42]]
  have "loop_reachable 1 (demo_system\<lparr>inflight := [Pushed 2], history := [42], pendingFunctors := [42]\<rparr>)"
    by (simp add: demo_system_def push_functor_def)
  from loop_reachable.step [OF this other_push [of 3 _ 43]] show ?thesis by (simp add: demo_system_def push_functor_def)
qed


text \<open>
  C14: functors run exactly once, in the order in which they were queued, whichever threads
  queued them: in every reachable state the history of queued functors is the executed ones,
  then the ones of the current round, then the queue. A call of \<open>doPendingFunctors\<close> in that state, with functors that queue
  others, executes exactly the queue, in its order; what these functors queued is then in the queue for the next round, and the
  eventfd is readable if there is any.
\<close>

theorem loop_functors_fifo:
  assumes "loop_reachable t s"
  shows "executed s @ todo (pc s) @ pendingFunctors s = history s \<and>
    (\<exists>s'. doPendingFunctors (run_traced spawns) s = Some s' \<and> executed s' = executed s @ pendingFunctors s \<and>
      pendingFunctors s' = concat (map spawns (pendingFunctors s)) \<and> (pendingFunctors s' \<noteq> [] \<longrightarrow> wakeupCount s' > 0))"
  using reachable_inv [OF assms] doPendingFunctors_round [of spawns s] by (auto simp: fifo_inv_def)

theorem loop_functors_fifo_witness:
  "executed demo_system @ todo (pc demo_system) @ pendingFunctors demo_system = [42, 43] \<and>
   (\<exists>s'. doPendingFunctors (run_traced (\<lambda>n. if n = 42 then [50, 51] else [])) demo_system = Some s' \<and> executed s' = [42, 43] \<and>
      pendingFunctors s' = [50, 51] \<and> wakeupCount s' > 0)"
  using loop_functors_fifo [OF demo_reachable, of "\<lambda>n. if n = 42 then [50, 51] else []"] by (auto simp: demo_system_def)

end
