(* ===== verification/Timestamp.thy ===== *)
theory Timestamp
  imports Printf
begin

text \<open>
  \<open>tmuduo/base/Timestamp.h\<close> and \<open>Timestamp.cc\<close>: microseconds since the epoch as an
  \<open>int64_t\<close>, here an \<open>int\<close>. A \<open>double\<close> is a pair \<open>(m, k)\<close> standing for
  \<open>m / 2 ^ k\<close>; multiplication rounds to 53 significant bits, to nearest with ties to even, as
  IEEE arithmetic does (for values in the normal range). The broken-down time that
  \<open>gmtime_r\<close> returns is a parameter.
\<close>

type_synonym timestamp = int

type_synonym dbl = "int \<times> nat"

definition kMicroSecondsPerSecond :: int where
  "kMicroSecondsPerSecond = 1000 * 1000"

definition Timestamp_ctor :: timestamp where
  "Timestamp_ctor = 0"

definition Timestamp_invalid :: timestamp where
  "Timestamp_invalid = Timestamp_ctor"

definition Timestamp_valid :: "timestamp \<Rightarrow> bool" where
  "Timestamp_valid t \<longleftrightarrow> t > 0"

text \<open>C++ division and remainder round towards zero.\<close>

definition cdiv :: "int \<Rightarrow> int \<Rightarrow> int" where
  "cdiv a b = sgn a * sgn b * (\<bar>a\<bar> div \<bar>b\<bar>)"

definition cmod :: "int \<Rightarrow> int \<Rightarrow> int" where
  "cmod a b = a - cdiv a b * b"

definition secondsSinceEpoch :: "timestamp \<Rightarrow> int" where
  "secondsSinceEpoch t = cdiv t kMicroSecondsPerSecond"

definition fromUnixTime :: "int \<Rightarrow> int \<Rightarrow> timestamp" where
  "fromUnixTime t microseconds = t * kMicroSecondsPerSecond + microseconds"

text \<open>\<open>now()\<close> from the \<open>timeval\<close> that \<open>gettimeofday\<close> fills in.\<close>

definition Timestamp_now :: "int \<times> int \<Rightarrow> timestamp" where
  "Timestamp_now tv = (let seconds = fst tv in seconds * kMicroSecondsPerSecond + snd tv)"

subsection \<open>Doubles\<close>

fun bit_length :: "nat \<Rightarrow> nat" where
  "bit_length n = (if n = 0 then 0 else Suc (bit_length (n div 2)))"

declare bit_length.simps [simp del]

definition round53 :: "nat \<Rightarrow> nat" where
  "round53 p =
     (let s = bit_length p - 53; q = p div 2 ^ s; r = p mod 2 ^ s in
      if 2 * r < 2 ^ s \<or> (2 * r = 2 ^ s \<and> even q) then q * 2 ^ s else (q + 1) * 2 ^ s)"

definition dbl_mul_int :: "dbl \<Rightarrow> int \<Rightarrow> dbl" where
  "dbl_mul_int x n = (let p = fst x * n in (sgn p * int (round53 (nat \<bar>p\<bar>)), snd x))"

definition dbl_to_int64 :: "dbl \<Rightarrow> int" where
  "dbl_to_int64 x = sgn (fst x) * (\<bar>fst x\<bar> div 2 ^ snd x)"

definition dbl_pos :: "dbl \<Rightarrow> bool" where
  "dbl_pos x \<longleftrightarrow> fst x > 0"

definition addTime :: "timestamp \<Rightarrow> dbl \<Rightarrow> timestamp" where
  "addTime timestamp seconds =
     (let delta = dbl_to_int64 (dbl_mul_int seconds kMicroSecondsPerSecond) in timestamp + delta)"

subsection \<open>Printing\<close>

definition pad0 :: "nat \<Rightarrow> int \<Rightarrow> string" where
  "pad0 w i = (let s = dec_int i in
     if i < 0 then CHR ''-'' # replicate (w - length s) (CHR ''0'') @ tl s
     else replicate (w - length s) (CHR ''0'') @ s)"

definition Timestamp_toString :: "timestamp \<Rightarrow> string" where
  "Timestamp_toString t =
     (let seconds = cdiv t kMicroSecondsPerSecond + 8 * 60 * 60;
          microseconds = cmod t kMicroSecondsPerSecond
      in snprintf 31 (dec_int seconds @ ''.'' @ pad0 6 microseconds))"

record tm =
  tm_year :: int
  tm_mon :: int
  tm_mday :: int
  tm_hour :: int
  tm_min :: int
  tm_sec :: int

definition pad_blank :: "nat \<Rightarrow> int \<Rightarrow> string" where
  "pad_blank w i = (let s = dec_int i in replicate (w - length s) (CHR '' '') @ s)"

definition toFormattedString :: "(int \<Rightarrow> tm) \<Rightarrow> bool \<Rightarrow> timestamp \<Rightarrow> string" where
  "toFormattedString gmtime_r showMicroseconds t =
     (let tm_time = gmtime_r (cdiv t kMicroSecondsPerSecond);
          date = pad_blank 4 (tm_year tm_time + 1900) @ pad0 2 (tm_mon tm_time + 1) @ pad0 2 (tm_mday tm_time) @
            '' '' @ pad0 2 (tm_hour tm_time + 8) @ '':'' @ pad0 2 (tm_min tm_time) @ '':'' @ pad0 2 (tm_sec tm_time)
      in if showMicroseconds then snprintf 64 (date @ ''.'' @ pad0 6 (cmod t kMicroSecondsPerSecond))
         else snprintf 64 date)"

subsection \<open>Accuracy of addTime\<close>

lemma bit_length_bounds: "n < 2 ^ bit_length n"
proof (induction n rule: bit_length.induct)
  case (1 n)
  show ?case
  proof (cases "n = 0")
    case False
    then have "n div 2 < 2 ^ bit_length (n div 2)" using "1.IH" by simp
    then show ?thesis using False by (simp add: bit_length.simps [of n])
  qed simp
qed

lemma bit_length_le: "n < 2 ^ k \<Longrightarrow> bit_length n \<le> k"
proof (induction n arbitrary: k rule: bit_length.induct)
  case (1 n)
  show ?case
  proof (cases "n = 0")
    case False
    then obtain j where k: "k = Suc j" using "1.prems" by (cases k) auto
    then have "n div 2 < 2 ^ j" using "1.prems" by simp
    with "1.IH" [OF False] k False show ?thesis by (simp add: bit_length.simps [of n])
  qed (simp add: bit_length.simps)
qed

lemma round53_error:
  fixes p :: nat
  defines "s \<equiv> bit_length p - 53"
  shows "2 * \<bar>int (round53 p) - int p\<bar> \<le> 2 ^ s"
proof -
  let ?q = "p div 2 ^ s" and ?r = "p mod 2 ^ s"
  have p: "int p = int ?q * 2 ^ s + int ?r"
    by (metis (mono_tags) div_mult_mod_eq of_nat_add of_nat_mult of_nat_numeral of_nat_power)
  have r: "int ?r < 2 ^ s" by (metis mod_less_divisor of_nat_less_iff of_nat_numeral of_nat_power zero_less_numeral zero_less_power)
  show ?thesis
  proof (cases "2 * ?r < 2 ^ s \<or> (2 * ?r = 2 ^ s \<and> even ?q)")
    case True
    then have "int (round53 p) = int ?q * 2 ^ s" by (simp add: round53_def Let_def s_def)
    moreover have "2 * int ?r \<le> 2 ^ s" using True by (metis (mono_tags) le_less of_nat_le_iff of_nat_mult of_nat_numeral of_nat_power)
    ultimately show ?thesis using p by simp
  next
    case False
    then have "int (round53 p) = (int ?q + 1) * 2 ^ s" by (simp add: round53_def Let_def s_def algebra_simps)
    moreover have "2 ^ s \<le> 2 * int ?r" using False by (metis (mono_tags) leI of_nat_le_iff of_nat_mult of_nat_numeral of_nat_power)
    ultimately show ?thesis using p r by (simp add: algebra_simps)
  qed
qed

lemma sgn_trunc:
  fixes p :: int and R :: nat
  shows "sgn (sgn p * int R) * (\<bar>sgn p * int R\<bar> div 2 ^ k) = sgn p * int (R div 2 ^ k)"
  by (cases "R = 0") (auto simp: sgn_mult sgn_if abs_mult zdiv_int)

lemma addTime_delta:
  "addTime t (m, k) - t = sgn (m * kMicroSecondsPerSecond) * int (round53 (nat \<bar>m * kMicroSecondsPerSecond\<bar>) div 2 ^ k)"
  using sgn_trunc [of "m * kMicroSecondsPerSecond"]
  by (simp add: addTime_def dbl_mul_int_def dbl_to_int64_def Let_def)

lemma error_sum: "2 * \<bar>R - P\<bar> \<le> K \<Longrightarrow> 0 \<le> r \<Longrightarrow> r < K \<Longrightarrow> R = D + r \<Longrightarrow> 2 * \<bar>D - P\<bar> < 3 * K"
  for R P K r D :: int
  by (simp add: abs_if split: if_splits)

lemma sgn_scale: "sgn p * D * K - p = sgn p * (D * K - \<bar>p\<bar>)" for p D K :: int
  by (cases "p = 0") (auto simp: sgn_if algebra_simps)

text \<open>
  C36: \<open>addTime\<close> is accurate. For an offset of \<open>m / 2 ^ k\<close> seconds that is below
  \<open>2 ^ 53\<close> microseconds, which is 285 years, the rounding of the product and the truncation
  to an integer together lose less than one and a half microseconds.
\<close>

theorem addTime_accuracy:
  assumes "\<bar>m * kMicroSecondsPerSecond\<bar> < 2 ^ (53 + k)"
  shows "2 * \<bar>(addTime t (m, k) - t) * 2 ^ k - m * kMicroSecondsPerSecond\<bar> < 3 * 2 ^ k"
proof -
  let ?p = "m * kMicroSecondsPerSecond"
  let ?n = "nat \<bar>?p\<bar>"
  let ?R = "round53 ?n"
  have "int ?n < int (2 ^ (53 + k))" using assms by simp
  then have "?n < 2 ^ (53 + k)" by (simp only: of_nat_less_iff)
  then have s: "bit_length ?n - 53 \<le> k" using bit_length_le [of ?n "53 + k"] by simp
  have "2 * \<bar>int ?R - int ?n\<bar> \<le> 2 ^ (bit_length ?n - 53)" by (rule round53_error)
  also have "\<dots> \<le> 2 ^ k" using s by (intro power_increasing) simp_all
  finally have e: "2 * \<bar>int ?R - \<bar>?p\<bar>\<bar> \<le> 2 ^ k" by simp
  have R: "int ?R = int (?R div 2 ^ k) * 2 ^ k + int (?R mod 2 ^ k)"
    by (metis (mono_tags) div_mult_mod_eq of_nat_add of_nat_mult of_nat_numeral of_nat_power)
  have r: "0 \<le> int (?R mod 2 ^ k)" "int (?R mod 2 ^ k) < 2 ^ k"
    by (simp, metis mod_less_divisor of_nat_less_iff of_nat_numeral of_nat_power zero_less_numeral zero_less_power)
  have b: "2 * \<bar>int (?R div 2 ^ k) * 2 ^ k - \<bar>?p\<bar>\<bar> < 3 * 2 ^ k"
    using error_sum [OF e r R] .
  have "(addTime t (m, k) - t) * 2 ^ k - ?p = sgn ?p * (int (?R div 2 ^ k) * 2 ^ k - \<bar>?p\<bar>)"
    unfolding addTime_delta by (rule sgn_scale)
  moreover have "\<bar>sgn ?p * x\<bar> \<le> \<bar>x\<bar>" for x :: int by (simp add: abs_mult sgn_if)
  ultimately show ?thesis using b by (metis (no_types) le_less_trans mult_le_cancel_left_pos zero_less_numeral)
qed

theorem addTime_accuracy_witness:
  "2 * \<bar>(addTime 1000 (3, 1) - 1000) * 2 ^ 1 - 3 * kMicroSecondsPerSecond\<bar> < 3 * 2 ^ 1"
  by (rule addTime_accuracy) (simp add: kMicroSecondsPerSecond_def)

end
