(* ===== verification/TimerQueue.thy ===== *)
theory TimerQueue
  imports Timestamp StdMap "HOL-Library.Product_Lexorder"
begin

text \<open>
  \<open>tmuduo/net/Timer.h\<close>, \<open>Timer.cc\<close>, \<open>TimerId.h\<close> and \<open>TimerQueue.cc\<close>. The
  map \<open>timers_\<close>, here an ordered map, owns the timers by id; the ordered set \<open>timerEntries_\<close> of pairs
  (expiration, id) is a sorted list. A timer callback is a value of type \<open>'f\<close>; what it
  does to the queue is the list of calls \<open>acts\<close> gives for it. The n-th reading of the clock
  is \<open>clock n\<close>. \<open>None\<close> stands for a failed assertion and for undefined behaviour.
\<close>

type_synonym timer_id = int

record 'f timer =
  tm_callback :: 'f
  expiration :: timestamp
  interval :: dbl
  repeats :: bool
  sequence :: timer_id

record 'f timer_queue =
  timers :: "(timer_id, 'f timer) std_map"
  timerEntries :: "(timestamp \<times> timer_id) list"
  armed :: "(int \<times> int) option"
  numCreated :: int
  clockReads :: nat
  fired :: "'f list"

definition INT64_MAX :: int where
  "INT64_MAX = 2 ^ 63 - 1"

definition Timer_ctor :: "'f \<Rightarrow> timestamp \<Rightarrow> dbl \<Rightarrow> 'f timer_queue \<Rightarrow> 'f timer \<times> 'f timer_queue" where
  "Timer_ctor cb when ival q =
     (\<lparr>tm_callback = cb, expiration = when, interval = ival, repeats = dbl_pos ival, sequence = numCreated q + 1\<rparr>,
      q\<lparr>numCreated := numCreated q + 1\<rparr>)"

definition Timer_restart :: "timestamp \<Rightarrow> 'f timer \<Rightarrow> 'f timer" where
  "Timer_restart now t =
     (if repeats t then t\<lparr>expiration := addTime now (interval t)\<rparr> else t\<lparr>expiration := Timestamp_invalid\<rparr>)"

definition TimerQueue_ctor :: "'f timer_queue" where
  "TimerQueue_ctor = \<lparr>timers = [], timerEntries = [], armed = None, numCreated = 0, clockReads = 0, fired = []\<rparr>"

definition read_clock :: "(nat \<Rightarrow> timestamp) \<Rightarrow> 'f timer_queue \<Rightarrow> timestamp \<times> 'f timer_queue" where
  "read_clock clock q = (clock (clockReads q), q\<lparr>clockReads := clockReads q + 1\<rparr>)"

definition howMuchTimeFromNow :: "timestamp \<Rightarrow> timestamp \<Rightarrow> int \<times> int" where
  "howMuchTimeFromNow now when =
     (let microseconds = when - now;
          microseconds = (if microseconds < 100 then 100 else microseconds)
      in (cdiv microseconds kMicroSecondsPerSecond, cmod microseconds kMicroSecondsPerSecond * 1000))"

definition resetTimerfd :: "(nat \<Rightarrow> timestamp) \<Rightarrow> timestamp \<Rightarrow> 'f timer_queue \<Rightarrow> 'f timer_queue" where
  "resetTimerfd clock when q =
     (let (now, q) = read_clock clock q in q\<lparr>armed := Some (howMuchTimeFromNow now when)\<rparr>)"

text \<open>
  \<open>addTimerInLoop\<close>: the test \<open>timers_.empty()\<close> guards \<open>timerEntries_.cbegin()->first\<close>,
  which is undefined on an empty set.
\<close>

definition addTimerInLoop :: "(nat \<Rightarrow> timestamp) \<Rightarrow> 'f timer \<Rightarrow> 'f timer_queue \<Rightarrow> 'f timer_queue option" where
  "addTimerInLoop clock t q = do {
     let when = expiration t;
     earliestChanged \<leftarrow> (if timers q = [] then Some True
       else (case timerEntries q of [] \<Rightarrow> None | e # _ \<Rightarrow> Some (when < fst e)));
     let q = (if earliestChanged then resetTimerfd clock when q else q);
     let timerId = sequence t;
     let q = q\<lparr>timerEntries := insort (expiration t, timerId) (timerEntries q)\<rparr>;
     Some (q\<lparr>timers := map_assign timerId t (timers q)\<rparr>) }"

text \<open>
  \<open>addTimer\<close>: in the loop's thread the timer is inserted at once, otherwise the call is queued
  in the loop; the third component is the timer then waiting.
\<close>

definition addTimer :: "(nat \<Rightarrow> timestamp) \<Rightarrow> bool \<Rightarrow> 'f \<Rightarrow> timestamp \<Rightarrow> dbl \<Rightarrow> 'f timer_queue \<Rightarrow>
    (timer_id \<times> 'f timer_queue \<times> 'f timer option) option" where
  "addTimer clock inLoop cb when ival q =
     (let (t, q) = Timer_ctor cb when ival q; timerId = sequence t in
      if inLoop then do { q \<leftarrow> addTimerInLoop clock t q; Some (timerId, q, None) }
      else Some (timerId, q, Some t))"

text \<open>\<open>cancel\<close> does not go through \<open>runInLoop\<close>: it may only be called in the loop's thread.\<close>

definition cancelInLoop :: "bool \<Rightarrow> timer_id \<Rightarrow> 'f timer_queue \<Rightarrow> 'f timer_queue option" where
  "cancelInLoop inLoop timerId q = do {
     assert_that inLoop;
     assert_that (map_find timerId (timers q) \<noteq> None);
     case map_find timerId (timers q) of
       Some t \<Rightarrow> Some (q\<lparr>timerEntries := remove1 (expiration t, timerId) (timerEntries q),
                        timers := map_erase timerId (timers q)\<rparr>)
     | None \<Rightarrow> Some q }"

definition TimerQueue_cancel :: "bool \<Rightarrow> timer_id \<Rightarrow> 'f timer_queue \<Rightarrow> 'f timer_queue option" where
  "TimerQueue_cancel inLoop timerId q = cancelInLoop inLoop timerId q"

text \<open>\<open>lower_bound\<close> of the sentry splits the set.\<close>

definition getExpired :: "timestamp \<Rightarrow> 'f timer_queue \<Rightarrow> ((timestamp \<times> timer_id) list \<times> 'f timer_queue) option" where
  "getExpired now q = do {
     let sentry = (now, INT64_MAX);
     let expired = takeWhile (\<lambda>e. e < sentry) (timerEntries q);
     let rest = dropWhile (\<lambda>e. e < sentry) (timerEntries q);
     assert_that (case rest of [] \<Rightarrow> True | e # _ \<Rightarrow> now < fst e);
     Some (expired, q\<lparr>timerEntries := rest\<rparr>) }"

text \<open>The calls a callback makes on the queue, in the loop's thread.\<close>

datatype 'f timer_call = CallAdd 'f timestamp dbl | CallCancel timer_id

fun exec_calls :: "(nat \<Rightarrow> timestamp) \<Rightarrow> 'f timer_call list \<Rightarrow> 'f timer_queue \<Rightarrow> 'f timer_queue option" where
  "exec_calls clock [] q = Some q"
| "exec_calls clock (CallAdd cb when ival # cs) q = do {
     (_, q, _) \<leftarrow> addTimer clock True cb when ival q;
     exec_calls clock cs q }"
| "exec_calls clock (CallCancel i # cs) q = do {
     q \<leftarrow> TimerQueue_cancel True i q;
     exec_calls clock cs q }"

text \<open>
  The loop of \<open>handleRead\<close>. It keeps a reference to the map's entry across the callback; when
  the callback has removed the entry, the reference dangles.
\<close>

fun run_expired :: "(nat \<Rightarrow> timestamp) \<Rightarrow> ('f \<Rightarrow> 'f timer_call list) \<Rightarrow> (timestamp \<times> timer_id) list \<Rightarrow>
    'f timer_queue \<Rightarrow> 'f timer_queue option" where
  "run_expired clock acts [] q = Some q"
| "run_expired clock acts ((w, timerId) # es) q = do {
     assert_that (map_find timerId (timers q) \<noteq> None);
     t \<leftarrow> map_find timerId (timers q);
     q \<leftarrow> exec_calls clock (acts (tm_callback t)) (q\<lparr>fired := fired q @ [tm_callback t]\<rparr>);
     t \<leftarrow> map_find timerId (timers q);
     q \<leftarrow> (if repeats t then
            (let (now, q) = read_clock clock q; t = Timer_restart now t in
             Some (q\<lparr>timers := map_assign timerId t (timers q),
                    timerEntries := insort (expiration t, sequence t) (timerEntries q)\<rparr>))
          else Some (q\<lparr>timers := map_erase timerId (timers q)\<rparr>));
     run_expired clock acts es q }"

definition timer_handleRead :: "(nat \<Rightarrow> timestamp) \<Rightarrow> ('f \<Rightarrow> 'f timer_call list) \<Rightarrow> 'f timer_queue \<Rightarrow>
    'f timer_queue option" where
  "timer_handleRead clock acts q = do {
     let (now, q) = read_clock clock q;
     (expired, q) \<leftarrow> getExpired now q;
     q \<leftarrow> run_expired clock acts expired q;
     let nextExpireTime = (case timerEntries q of [] \<Rightarrow> Timestamp_ctor | e # _ \<Rightarrow> fst e);
     Some (if Timestamp_valid nextExpireTime then resetTimerfd clock nextExpireTime q else q) }"

definition runAt :: "(nat \<Rightarrow> timestamp) \<Rightarrow> bool \<Rightarrow> timestamp \<Rightarrow> 'f \<Rightarrow> 'f timer_queue \<Rightarrow>
    (timer_id \<times> 'f timer_queue \<times> 'f timer option) option" where
  "runAt clock inLoop time cb q = addTimer clock inLoop cb time (0, 0) q"

definition runAfter :: "(nat \<Rightarrow> timestamp) \<Rightarrow> bool \<Rightarrow> dbl \<Rightarrow> 'f \<Rightarrow> 'f timer_queue \<Rightarrow>
    (timer_id \<times> 'f timer_queue \<times> 'f timer option) option" where
  "runAfter clock inLoop delay cb q =
     (let (now, q) = read_clock clock q in runAt clock inLoop (addTime now delay) cb q)"

definition runEvery :: "(nat \<Rightarrow> timestamp) \<Rightarrow> bool \<Rightarrow> dbl \<Rightarrow> 'f \<Rightarrow> 'f timer_queue \<Rightarrow>
    (timer_id \<times> 'f timer_queue \<times> 'f timer option) option" where
  "runEvery clock inLoop ival cb q =
     (let (now, q) = read_clock clock q in addTimer clock inLoop cb (addTime now ival) ival q)"

definition EventLoop_cancel :: "bool \<Rightarrow> timer_id \<Rightarrow> 'f timer_queue \<Rightarrow> 'f timer_queue option" where
  "EventLoop_cancel inLoop timerId q = TimerQueue_cancel inLoop timerId q"

subsection \<open>The invariant\<close>

text \<open>
  The set of entries is the set of the timers' expirations and ids, up to the entries \<open>ps\<close>
  that \<open>handleRead\<close> has taken out and not yet processed.
\<close>

definition tq_inv :: "(timestamp \<times> timer_id) list \<Rightarrow> 'f timer_queue \<Rightarrow> bool" where
  "tq_inv ps q \<longleftrightarrow>
     map_ok (timers q) \<and> sorted (timerEntries q) \<and> distinct (ps @ timerEntries q) \<and>
     (\<forall>w i. (w, i) \<in> set (ps @ timerEntries q) \<longleftrightarrow> (\<exists>t. map_find i (timers q) = Some t \<and> expiration t = w)) \<and>
     (\<forall>i t. map_find i (timers q) = Some t \<longrightarrow> sequence t = i \<and> 0 < i \<and> i \<le> numCreated q)"

lemma tq_invD:
  assumes "tq_inv ps q"
  shows "map_ok (timers q)" "sorted (timerEntries q)" "distinct (ps @ timerEntries q)"
    "(w, i) \<in> set (ps @ timerEntries q) \<longleftrightarrow> (\<exists>t. map_find i (timers q) = Some t \<and> expiration t = w)"
    "map_find i (timers q) = Some t \<Longrightarrow> sequence t = i \<and> 0 < i \<and> i \<le> numCreated q"
  using assms unfolding tq_inv_def by blast+

lemma tq_inv_ctor: "tq_inv [] TimerQueue_ctor"
  by (simp add: tq_inv_def TimerQueue_ctor_def)

lemma tq_empty: "tq_inv ps q \<Longrightarrow> timers q = [] \<longleftrightarrow> ps @ timerEntries q = []"
proof
  assume inv: "tq_inv ps q" and "timers q = []"
  then have "\<forall>w i. (w, i) \<notin> set (ps @ timerEntries q)" using tq_invD(4) [OF inv] by auto
  then show "ps @ timerEntries q = []" by (cases "ps @ timerEntries q") auto
next
  assume inv: "tq_inv ps q" and e: "ps @ timerEntries q = []"
  show "timers q = []"
  proof (cases "timers q")
    case (Cons x xs)
    then have "map_find (fst x) (timers q) = Some (snd x)" by (cases x) simp
    then show ?thesis using tq_invD(4) [OF inv, of "expiration (snd x)" "fst x"] e by auto
  qed
qed

text \<open>A timer whose id is new can be inserted; a known one can be erased or replaced.\<close>

lemma tq_inv_insert:
  assumes inv: "tq_inv ps q" and i: "sequence t = i" "0 < i" "i \<le> numCreated q'" "map_find i (timers q) = None"
    and q': "timers q' = map_assign i t (timers q)" "timerEntries q' = insort (expiration t, i) (timerEntries q)"
      "numCreated q \<le> numCreated q'"
  shows "tq_inv ps q'"
proof -
  note D = tq_invD [OF inv]
  have new: "(w, i) \<notin> set (ps @ timerEntries q)" for w using D(4) [of w i] i(4) by simp
  have "map_ok (timers q')" using D(1) q'(1) by (simp add: map_assign_ok)
  moreover have "sorted (timerEntries q')" using D(2) q'(2) by (simp add: sorted_insort)
  moreover have "distinct (ps @ timerEntries q')" using D(3) q'(2) new by (auto simp: distinct_insort set_insort_key)
  moreover have "(w, j) \<in> set (ps @ timerEntries q') \<longleftrightarrow> (\<exists>t. map_find j (timers q') = Some t \<and> expiration t = w)" for w j
    using D(4) [of w j] i(4) new by (cases "j = i") (auto simp: q' set_insort_key map_find_assign)
  moreover have "map_find j (timers q') = Some u \<Longrightarrow> sequence u = j \<and> 0 < j \<and> j \<le> numCreated q'" for j u
    using D(5) [of j u] i q'(3) by (cases "j = i") (auto simp: q'(1) map_find_assign)
  ultimately show ?thesis unfolding tq_inv_def by blast
qed

lemma tq_inv_erase:
  assumes inv: "tq_inv ps q" and t: "map_find i (timers q) = Some t"
    and q': "timers q' = map_erase i (timers q)" "numCreated q' = numCreated q"
      "sorted (timerEntries q')" "distinct (ps' @ timerEntries q')"
      "set (ps' @ timerEntries q') = set (ps @ timerEntries q) - {(expiration t, i)}"
  shows "tq_inv ps' q'"
proof -
  note D = tq_invD [OF inv]
  have "map_ok (timers q')" using D(1) q'(1) by (simp add: map_erase_ok)
  moreover have "(w, j) \<in> set (ps' @ timerEntries q') \<longleftrightarrow> (\<exists>t. map_find j (timers q') = Some t \<and> expiration t = w)" for w j
    unfolding q'(5) using D(4) [of w j] t by (cases "j = i") (auto simp: q'(1) map_find_erase [OF D(1)])
  moreover have "map_find j (timers q') = Some u \<Longrightarrow> sequence u = j \<and> 0 < j \<and> j \<le> numCreated q'" for j u
    using D(5) [of j u] by (cases "j = i") (auto simp: q'(1,2) map_find_erase [OF D(1)])
  ultimately show ?thesis unfolding tq_inv_def using q'(3,4) by blast
qed

lemma tq_inv_cong:
  "tq_inv ps q \<Longrightarrow> timers q' = timers q \<Longrightarrow> timerEntries q' = timerEntries q \<Longrightarrow> numCreated q' = numCreated q \<Longrightarrow>
   tq_inv ps q'"
  by (simp add: tq_inv_def)

lemma resetTimerfd_simps [simp]:
  "timers (resetTimerfd clock w q) = timers q" "timerEntries (resetTimerfd clock w q) = timerEntries q"
  "numCreated (resetTimerfd clock w q) = numCreated q" "fired (resetTimerfd clock w q) = fired q"
  by (simp_all add: resetTimerfd_def read_clock_def)

lemma read_clock_simps [simp]:
  "timers (snd (read_clock clock q)) = timers q" "timerEntries (snd (read_clock clock q)) = timerEntries q"
  "numCreated (snd (read_clock clock q)) = numCreated q" "fired (snd (read_clock clock q)) = fired q"
  by (simp_all add: read_clock_def)

lemma addTimer_ok:
  assumes inv: "tq_inv [] q" and n: "0 \<le> numCreated q"
  shows "\<exists>q'. addTimer clock True cb when ival q = Some (numCreated q + 1, q', None) \<and> tq_inv [] q' \<and>
    timers q' = map_assign (numCreated q + 1) \<lparr>tm_callback = cb, expiration = when, interval = ival,
      repeats = dbl_pos ival, sequence = numCreated q + 1\<rparr> (timers q) \<and>
    numCreated q' = numCreated q + 1 \<and> fired q' = fired q \<and>
    timerEntries q' = insort (when, numCreated q + 1) (timerEntries q)"
proof -
  let ?t = "\<lparr>tm_callback = cb, expiration = when, interval = ival, repeats = dbl_pos ival, sequence = numCreated q + 1\<rparr>"
  let ?q1 = "q\<lparr>numCreated := numCreated q + 1\<rparr>"
  have new: "map_find (numCreated q + 1) (timers q) = None"
    using tq_invD(5) [OF inv, of "numCreated q + 1"] by (cases "map_find (numCreated q + 1) (timers q)") auto
  have ne: "timers q \<noteq> [] \<longrightarrow> timerEntries q \<noteq> []" using tq_empty [OF inv] by auto
  define q2 where "q2 = (if timers q = [] \<or> when < fst (hd (timerEntries q)) then resetTimerfd clock when ?q1 else ?q1)"
  let ?q' = "q2\<lparr>timerEntries := insort (when, numCreated q + 1) (timerEntries q),
    timers := map_assign (numCreated q + 1) ?t (timers q)\<rparr>"
  have q2: "timers q2 = timers q" "timerEntries q2 = timerEntries q" "numCreated q2 = numCreated q + 1" "fired q2 = fired q"
    by (simp_all add: q2_def)
  have "addTimerInLoop clock ?t ?q1 = Some ?q'"
    using ne by (cases "timers q = []"; cases "timerEntries q") (simp_all add: addTimerInLoop_def q2_def Let_def)
  then have "addTimer clock True cb when ival q = Some (numCreated q + 1, ?q', None)"
    by (simp add: addTimer_def Timer_ctor_def)
  moreover have "tq_inv [] ?q'"
    by (rule tq_inv_insert [OF inv, of ?t "numCreated q + 1"]) (use n new q2 in simp_all)
  ultimately show ?thesis using q2 by simp
qed

lemma cancel_ok:
  assumes inv: "tq_inv [] q" and t: "map_find i (timers q) = Some t"
  shows "\<exists>q'. TimerQueue_cancel True i q = Some q' \<and> tq_inv [] q' \<and> timers q' = map_erase i (timers q) \<and>
    numCreated q' = numCreated q \<and> fired q' = fired q"
proof -
  let ?q' = "q\<lparr>timerEntries := remove1 (expiration t, i) (timerEntries q), timers := map_erase i (timers q)\<rparr>"
  have "TimerQueue_cancel True i q = Some ?q'" using t by (simp add: TimerQueue_cancel_def cancelInLoop_def)
  moreover have "tq_inv [] ?q'"
    by (rule tq_inv_erase [OF inv t]) (use tq_invD [OF inv] in \<open>auto simp: sorted_remove1\<close>)
  ultimately show ?thesis by simp
qed

lemma tq_inv_replace:
  assumes inv: "tq_inv ((w, i) # ps) q" and t: "map_find i (timers q) = Some t" and s: "sequence t' = i"
    and q': "timers q' = map_assign i t' (timers q)" "timerEntries q' = insort (expiration t', i) (timerEntries q)"
      "numCreated q' = numCreated q"
  shows "tq_inv ps q'"
proof -
  note D = tq_invD [OF inv]
  have w: "expiration t = w" using D(4) [of w i] t by auto
  have only: "(v, i) \<notin> set (ps @ timerEntries q)" for v
    using D(3) D(4) [of v i] t w by auto
  have "map_ok (timers q')" using D(1) q'(1) by (simp add: map_assign_ok)
  moreover have "sorted (timerEntries q')" using D(2) q'(2) by (simp add: sorted_insort)
  moreover have "distinct (ps @ timerEntries q')" using D(3) q'(2) only by (auto simp: distinct_insort set_insort_key)
  moreover have "(v, j) \<in> set (ps @ timerEntries q') \<longleftrightarrow> (\<exists>t. map_find j (timers q') = Some t \<and> expiration t = v)" for v j
    using D(4) [of v j] only by (cases "j = i") (auto simp: q' set_insort_key map_find_assign)
  moreover have "map_find j (timers q') = Some u \<Longrightarrow> sequence u = j \<and> 0 < j \<and> j \<le> numCreated q'" for j u
    using D(5) [of j u] D(5) [OF t] s by (cases "j = i") (auto simp: q'(1,3) map_find_assign)
  ultimately show ?thesis unfolding tq_inv_def by blast
qed

lemma sorted_split:
  fixes a :: "'a::linorder"
  assumes "sorted xs"
  shows "takeWhile (\<lambda>e. e < a) xs = filter (\<lambda>e. e < a) xs" "dropWhile (\<lambda>e. e < a) xs = filter (\<lambda>e. \<not> e < a) xs"
  using assms
proof (induction xs)
  case (Cons x xs)
  {
    case 1
    have "filter (\<lambda>e. e < a) xs = []" if "\<not> x < a" using that 1 by (auto simp: filter_empty_conv)
    then show ?case using Cons 1 by auto
  next
    case 2
    have "filter (\<lambda>e. \<not> e < a) xs = xs" if "\<not> x < a" using that 2 by (auto simp: filter_id_conv)
    then show ?case using Cons 2 by auto
  }
qed simp_all

lemma getExpired_ok:
  assumes inv: "tq_inv [] q" and n: "numCreated q < INT64_MAX"
  shows "\<exists>q'. getExpired now q = Some (filter (\<lambda>e. fst e \<le> now) (timerEntries q), q') \<and>
    q' = q\<lparr>timerEntries := filter (\<lambda>e. now < fst e) (timerEntries q)\<rparr> \<and>
    tq_inv (filter (\<lambda>e. fst e \<le> now) (timerEntries q)) q'"
proof -
  note D = tq_invD [OF inv]
  have due: "e < (now, INT64_MAX) \<longleftrightarrow> fst e \<le> now" if e: "e \<in> set (timerEntries q)" for e
  proof -
    obtain w i where wi: "e = (w, i)" by (cases e)
    then obtain t where "map_find i (timers q) = Some t" using D(4) [of w i] e by auto
    then have "i < INT64_MAX" using D(5) n by fastforce
    then show ?thesis using wi by (auto simp: less_prod_def)
  qed
  let ?x = "filter (\<lambda>e. fst e \<le> now) (timerEntries q)" and ?r = "filter (\<lambda>e. now < fst e) (timerEntries q)"
  have f: "takeWhile (\<lambda>e. e < (now, INT64_MAX)) (timerEntries q) = ?x"
    "dropWhile (\<lambda>e. e < (now, INT64_MAX)) (timerEntries q) = ?r"
    using sorted_split [OF D(2), of "(now, INT64_MAX)"] due by (auto cong: filter_cong simp: not_le)
  have "case ?r of [] \<Rightarrow> True | e # _ \<Rightarrow> now < fst e"
    by (metis (mono_tags, lifting) filter_eq_Cons_iff list.case_eq_if list.collapse)
  then have "getExpired now q = Some (?x, q\<lparr>timerEntries := ?r\<rparr>)"
    unfolding getExpired_def Let_def f by simp
  moreover have "tq_inv ?x (q\<lparr>timerEntries := ?r\<rparr>)"
  proof -
    have "set (?x @ ?r) = set ([] @ timerEntries q)" by auto
    moreover have "distinct (?x @ ?r)" using D(3) by auto
    moreover have "sorted ?r" using sorted_filter [of "\<lambda>x. x"] D(2) by simp
    ultimately show ?thesis using D(1,4,5) unfolding tq_inv_def by simp
  qed
  ultimately show ?thesis by blast
qed

text \<open>What firing makes of a timer.\<close>

definition after_fire :: "nat \<Rightarrow> (nat \<Rightarrow> timestamp) \<Rightarrow> 'f timer \<Rightarrow> 'f timer option \<Rightarrow> bool" where
  "after_fire m clock t r \<longleftrightarrow>
     (if repeats t then \<exists>n \<ge> m. r = Some (t\<lparr>expiration := addTime (clock n) (interval t)\<rparr>) else r = None)"

text \<open>One expired timer is called, and started again or erased.\<close>

definition fire :: "(nat \<Rightarrow> timestamp) \<Rightarrow> timer_id \<Rightarrow> 'f timer \<Rightarrow> 'f timer_queue \<Rightarrow> 'f timer_queue" where
  "fire clock i t q = (let q1 = q\<lparr>fired := fired q @ [tm_callback t]\<rparr>; t' = Timer_restart (clock (clockReads q)) t in
     if repeats t then (snd (read_clock clock q1))\<lparr>timers := map_assign i t' (timers q),
        timerEntries := insort (expiration t', i) (timerEntries q)\<rparr>
     else q1\<lparr>timers := map_erase i (timers q)\<rparr>)"

lemma fire_simps:
  "timerEntries (fire clock i t q) = (if repeats t then insort (expiration (Timer_restart (clock (clockReads q)) t), i) (timerEntries q) else timerEntries q)"
  "timers (fire clock i t q) = (if repeats t then map_assign i (Timer_restart (clock (clockReads q)) t) (timers q) else map_erase i (timers q))"
  "fired (fire clock i t q) = fired q @ [tm_callback t]" "numCreated (fire clock i t q) = numCreated q"
  "clockReads (fire clock i t q) = (if repeats t then clockReads q + 1 else clockReads q)"
  by (simp_all add: fire_def Let_def read_clock_def)

lemma fire_one:
  assumes inv: "tq_inv ((w, i) # ps) q" and t: "map_find i (timers q) = Some t" "expiration t = w"
  shows "acts (tm_callback t) = [] \<Longrightarrow> run_expired clock acts ((w, i) # ps) q = run_expired clock acts ps (fire clock i t q)"
    "tq_inv ps (fire clock i t q)" "j \<noteq> i \<Longrightarrow> map_find j (timers (fire clock i t q)) = map_find j (timers q)"
    "m \<le> clockReads q \<Longrightarrow> after_fire m clock t (map_find i (timers (fire clock i t q)))" "i \<notin> snd ` set ps"
proof -
  note D = tq_invD [OF inv]
  have s: "sequence t = i" using D(5) [OF t(1)] by simp
  show "run_expired clock acts ((w, i) # ps) q = run_expired clock acts ps (fire clock i t q)" if "acts (tm_callback t) = []"
    using that t s by (simp add: fire_def Let_def read_clock_def Timer_restart_def)
  show "tq_inv ps (fire clock i t q)"
  proof (cases "repeats t")
    case True
    then show ?thesis
      by (intro tq_inv_replace [OF inv t(1), of "Timer_restart (clock (clockReads q)) t"])
        (simp_all add: fire_simps s Timer_restart_def)
  next
    case False
    show ?thesis by (rule tq_inv_erase [OF inv t(1)]) (use False D(2,3) t(2) in \<open>auto simp: fire_simps\<close>)
  qed
  show "j \<noteq> i \<Longrightarrow> map_find j (timers (fire clock i t q)) = map_find j (timers q)"
    by (simp add: fire_simps map_find_assign map_find_erase [OF D(1)])
  show "m \<le> clockReads q \<Longrightarrow> after_fire m clock t (map_find i (timers (fire clock i t q)))"
    by (auto simp: after_fire_def fire_simps map_find_assign map_find_erase [OF D(1)] Timer_restart_def)
  show "i \<notin> snd ` set ps"
  proof
    assume "i \<in> snd ` set ps"
    then obtain v where "(v, i) \<in> set ps" by auto
    then show False using D(3) D(4) [of v i] t by auto
  qed
qed

lemma run_expired_quiet:
  assumes "tq_inv ps q" "m \<le> clockReads q"
  shows "\<exists>q'. run_expired clock (\<lambda>_. []) ps q = Some q' \<and> tq_inv [] q' \<and> numCreated q' = numCreated q \<and> m \<le> clockReads q' \<and>
    fired q' = fired q @ map (\<lambda>e. tm_callback (the (map_find (snd e) (timers q)))) ps \<and>
    (\<forall>i. i \<notin> snd ` set ps \<longrightarrow> map_find i (timers q') = map_find i (timers q)) \<and>
    (\<forall>i \<in> snd ` set ps. \<forall>t. map_find i (timers q) = Some t \<longrightarrow> after_fire m clock t (map_find i (timers q')))"
  using assms
proof (induction ps arbitrary: q)
  case (Cons e ps)
  obtain w i where e: "e = (w, i)" by (cases e)
  note inv = Cons.prems(1) [unfolded e] and m = Cons.prems(2)
  obtain t where t: "map_find i (timers q) = Some t" "expiration t = w" using tq_invD(4) [OF inv, of w i] by auto
  note one = fire_one(1) [where clock = clock and acts = "\<lambda>_. []", OF inv t refl] fire_one(2,3) [where clock = clock, OF inv t]
    fire_one(4) [where clock = clock, OF inv t m] fire_one(5) [OF inv t]
  let ?q2 = "fire clock i t q"
  have cbs: "map (\<lambda>e. tm_callback (the (map_find (snd e) (timers ?q2)))) ps =
      map (\<lambda>e. tm_callback (the (map_find (snd e) (timers q)))) ps"
    using one(3,5) by (intro map_cong refl) (metis image_eqI)
  have "m \<le> clockReads ?q2" using m by (simp add: fire_simps(5))
  from Cons.IH [OF one(2) this] obtain q' where q': "run_expired clock (\<lambda>_. []) ps ?q2 = Some q'" "tq_inv [] q' \<and> m \<le> clockReads q'"
    "numCreated q' = numCreated ?q2" "fired q' = fired ?q2 @ map (\<lambda>e. tm_callback (the (map_find (snd e) (timers ?q2)))) ps"
    "\<forall>i. i \<notin> snd ` set ps \<longrightarrow> map_find i (timers q') = map_find i (timers ?q2)"
    "\<forall>i \<in> snd ` set ps. \<forall>t. map_find i (timers ?q2) = Some t \<longrightarrow> after_fire m clock t (map_find i (timers q'))" by blast
  have "\<forall>j. j \<notin> snd ` set (e # ps) \<longrightarrow> map_find j (timers q') = map_find j (timers q)"
    using q'(5) one(3) e by simp
  moreover have "\<forall>j \<in> snd ` set (e # ps). \<forall>u. map_find j (timers q) = Some u \<longrightarrow> after_fire m clock u (map_find j (timers q'))"
    using q'(5,6) one(3,4,5) t(1) e by (metis (no_types, lifting) image_insert insertE list.simps(15) option.inject snd_conv)
  ultimately show ?case
    using one(1) q'(1-4) cbs t(1) e by (simp add: fire_simps(3,4))
qed simp

subsection \<open>What a round does\<close>

lemma handleRead_quiet:
  fixes clock :: "nat \<Rightarrow> timestamp"
  assumes "tq_inv [] q" "numCreated q < INT64_MAX"
  defines "due \<equiv> filter (\<lambda>e. fst e \<le> clock (clockReads q)) (timerEntries q)"
  shows "\<exists>q'. timer_handleRead clock (\<lambda>_. []) q = Some q' \<and> tq_inv [] q' \<and>
    fired q' = fired q @ map (\<lambda>e. tm_callback (the (map_find (snd e) (timers q)))) due \<and>
    (\<forall>i. i \<notin> snd ` set due \<longrightarrow> map_find i (timers q') = map_find i (timers q)) \<and>
    (\<forall>i \<in> snd ` set due. \<forall>t. map_find i (timers q) = Some t \<longrightarrow> after_fire (clockReads q + 1) clock t (map_find i (timers q'))) \<and>
    (timerEntries q' \<noteq> [] \<and> Timestamp_valid (fst (hd (timerEntries q'))) \<longrightarrow>
      (\<exists>n > clockReads q. armed q' = Some (howMuchTimeFromNow (clock n) (fst (hd (timerEntries q'))))))"
proof -
  let ?q0 = "q\<lparr>clockReads := clockReads q + 1\<rparr>" and ?now = "clock (clockReads q)"
  have rc: "read_clock clock q = (?now, ?q0)" by (simp add: read_clock_def)
  have inv0: "tq_inv [] ?q0" by (rule tq_inv_cong [OF assms(1)]) simp_all
  from getExpired_ok [OF inv0, of ?now] assms(2) obtain q1 where
    q1: "getExpired ?now ?q0 = Some (due, q1)" "q1 = ?q0\<lparr>timerEntries := filter (\<lambda>e. ?now < fst e) (timerEntries q)\<rparr>"
    "tq_inv due q1" by (auto simp: due_def)
  have "clockReads q + 1 \<le> clockReads q1" by (simp add: q1(2))
  from run_expired_quiet [OF q1(3) this, of clock] obtain q2 where
    q2: "run_expired clock (\<lambda>_. []) due q1 = Some q2" "tq_inv [] q2"
      "fired q2 = fired q @ map (\<lambda>e. tm_callback (the (map_find (snd e) (timers q)))) due"
      "\<forall>i. i \<notin> snd ` set due \<longrightarrow> map_find i (timers q2) = map_find i (timers q)"
      "\<forall>i \<in> snd ` set due. \<forall>t. map_find i (timers q) = Some t \<longrightarrow> after_fire (clockReads q + 1) clock t (map_find i (timers q2))"
      "clockReads q < clockReads q2"
    by (auto simp: q1(2))
  define nxt where "nxt = (case timerEntries q2 of [] \<Rightarrow> Timestamp_ctor | e # _ \<Rightarrow> fst e)"
  let ?q' = "if Timestamp_valid nxt then resetTimerfd clock nxt q2 else q2"
  have "timer_handleRead clock (\<lambda>_. []) q = Some ?q'"
    using q1(1) q2(1) by (simp add: timer_handleRead_def rc nxt_def)
  moreover have "tq_inv [] ?q'" by (rule tq_inv_cong [OF q2(2)]) simp_all
  moreover have e: "timerEntries ?q' = timerEntries q2" by simp
  have "armed ?q' = Some (howMuchTimeFromNow (clock (clockReads q2)) (fst (hd (timerEntries ?q'))))"
    if "timerEntries ?q' \<noteq> [] \<and> Timestamp_valid (fst (hd (timerEntries ?q')))"
    using that unfolding e by (cases "timerEntries q2") (auto simp: nxt_def resetTimerfd_def read_clock_def)
  ultimately show ?thesis using q2(3-6) by (intro exI [of _ ?q']) auto
qed

subsection \<open>Callbacks that call the queue\<close>

definition callback_of :: "'f timer_queue \<Rightarrow> timer_id \<Rightarrow> 'f" where
  "callback_of q i = tm_callback (the (map_find i (timers q)))"

text \<open>Entries whose callbacks make no calls, before others.\<close>

lemma run_expired_prefix:
  assumes "tq_inv (pre @ es) q" "\<forall>e \<in> set pre. acts (callback_of q (snd e)) = []"
  shows "\<exists>q'. run_expired clock acts (pre @ es) q = run_expired clock acts es q' \<and> tq_inv es q' \<and>
    (\<forall>i. i \<notin> snd ` set pre \<longrightarrow> map_find i (timers q') = map_find i (timers q)) \<and>
    ((\<forall>e \<in> set pre. \<not> repeats (the (map_find (snd e) (timers q)))) \<longrightarrow> timerEntries q' = timerEntries q)"
  using assms
proof (induction pre arbitrary: q)
  case Nil
  then show ?case by (intro exI [of _ q]) simp
next
  case (Cons e pre)
  obtain w i where e: "e = (w, i)" by (cases e)
  note inv = Cons.prems(1) [unfolded e append_Cons]
  obtain t where t: "map_find i (timers q) = Some t" "expiration t = w" using tq_invD(4) [OF inv, of w i] by auto
  have "acts (tm_callback t) = []" using Cons.prems(2) t(1) e by (simp add: callback_of_def)
  note one = fire_one(1) [where clock = clock and acts = acts, OF inv t this] fire_one(2,3) [where clock = clock, OF inv t] fire_one(5) [OF inv t]
  let ?q = "fire clock i t q"
  have same: "map_find (snd e') (timers ?q) = map_find (snd e') (timers q)" if "e' \<in> set pre" for e'
    using one(3) [of "snd e'"] one(4) that by (metis image_eqI in_set_conv_decomp set_append UnI1)
  have "\<forall>e' \<in> set pre. acts (callback_of ?q (snd e')) = []" using Cons.prems(2) same by (simp add: callback_of_def)
  from Cons.IH [OF one(2) this] obtain q' where q': "run_expired clock acts (pre @ es) ?q = run_expired clock acts es q'" "tq_inv es q'"
    "\<forall>i. i \<notin> snd ` set pre \<longrightarrow> map_find i (timers q') = map_find i (timers ?q)"
    "(\<forall>e \<in> set pre. \<not> repeats (the (map_find (snd e) (timers ?q)))) \<longrightarrow> timerEntries q' = timerEntries ?q" by blast
  have "timerEntries q' = timerEntries q" if r: "\<forall>e' \<in> set (e # pre). \<not> repeats (the (map_find (snd e') (timers q)))"
    using q'(4) r same t(1) e by (simp add: fire_simps)
  then show ?case using q'(1-3) one(1,3) e by (intro exI [of _ q']) auto
qed

text \<open>A timer that has been removed does not come back: ids are not used again.\<close>

definition gone :: "timer_id \<Rightarrow> 'f timer_queue \<Rightarrow> bool" where
  "gone j q \<longleftrightarrow> map_ok (timers q) \<and> map_find j (timers q) = None \<and> j \<le> numCreated q"

lemma addTimer_gone:
  assumes "addTimer clock True cb when ival q = Some (i, q', r)" "gone j q"
  shows "gone j q'"
proof -
  let ?t = "\<lparr>tm_callback = cb, expiration = when, interval = ival, repeats = dbl_pos ival, sequence = numCreated q + 1\<rparr>"
  have "timers q' = map_assign (numCreated q + 1) ?t (timers q) \<and> numCreated q' = numCreated q + 1"
    using assms(1) by (auto simp: addTimer_def Timer_ctor_def addTimerInLoop_def Let_def bind_eq_Some_conv split: if_splits)
  then show ?thesis using assms(2) by (simp add: gone_def map_assign_ok map_find_assign)
qed

lemma cancel_gone:
  assumes "TimerQueue_cancel l i q = Some q'" "map_ok (timers q)" "j \<le> numCreated q" "j = i \<or> map_find j (timers q) = None"
  shows "gone j q'"
  using assms by (auto simp: TimerQueue_cancel_def cancelInLoop_def gone_def map_erase_ok map_find_erase bind_eq_Some_conv split: option.splits)

lemma exec_calls_gone: "exec_calls clock cs q = Some q' \<Longrightarrow> gone j q \<Longrightarrow> gone j q'"
proof (induction clock cs q rule: exec_calls.induct)
  case (2 clock cb w ival cs q)
  then obtain i q1 r where q1: "addTimer clock True cb w ival q = Some (i, q1, r)" "exec_calls clock cs q1 = Some q'"
    by (auto simp: bind_eq_Some_conv)
  from 2(1) [OF q1(1) refl refl q1(2) addTimer_gone [OF q1(1) 2(3)]] show ?case .
next
  case (3 clock i cs q)
  then obtain q1 where "TimerQueue_cancel True i q = Some q1" "exec_calls clock cs q1 = Some q'" by (auto simp: bind_eq_Some_conv)
  then show ?case using 3 cancel_gone [of True i q q1 j] by (auto simp: gone_def)
qed simp

text \<open>What the loop does with a timer after its callback.\<close>

definition settle :: "(nat \<Rightarrow> timestamp) \<Rightarrow> timer_id \<Rightarrow> 'f timer \<Rightarrow> 'f timer_queue \<Rightarrow> 'f timer_queue" where
  "settle clock i u q = (let t = Timer_restart (clock (clockReads q)) u in
     if repeats u then (snd (read_clock clock q))\<lparr>timers := map_assign i t (timers q), timerEntries := insort (expiration t, sequence t) (timerEntries q)\<rparr>
     else q\<lparr>timers := map_erase i (timers q)\<rparr>)"

lemma settle_gone: "gone j q \<Longrightarrow> j \<noteq> i \<Longrightarrow> gone j (settle clock i u q)"
  by (simp add: settle_def gone_def Let_def map_assign_ok map_erase_ok map_find_assign map_find_erase)

lemma run_expired_Cons:
  assumes "run_expired clock acts ((w, i) # es) q = Some q'"
  shows "\<exists>t q1 u. map_find i (timers q) = Some t \<and>
    exec_calls clock (acts (tm_callback t)) (q\<lparr>fired := fired q @ [tm_callback t]\<rparr>) = Some q1 \<and> map_find i (timers q1) = Some u \<and>
    run_expired clock acts es (settle clock i u q1) = Some q'"
proof -
  obtain t where t: "map_find i (timers q) = Some t" using assms by (auto simp: bind_eq_Some_conv)
  then obtain q1 where q1: "exec_calls clock (acts (tm_callback t)) (q\<lparr>fired := fired q @ [tm_callback t]\<rparr>) = Some q1"
    using assms by (auto simp: bind_eq_Some_conv)
  then obtain u where u: "map_find i (timers q1) = Some u" using assms t by (auto simp: bind_eq_Some_conv)
  then have "run_expired clock acts es (settle clock i u q1) = Some q'"
    using assms t q1 by (cases "repeats u") (simp_all add: settle_def Let_def read_clock_def)
  then show ?thesis using t q1 u by blast
qed

lemma run_expired_gone: "j \<in> snd ` set es \<Longrightarrow> gone j q \<Longrightarrow> run_expired clock acts es q = None"
proof (induction es arbitrary: q)
  case (Cons e es)
  obtain w i where e: "e = (w, i)" by (cases e)
  show ?case
  proof (rule ccontr)
    assume "run_expired clock acts (e # es) q \<noteq> None"
    then obtain t q1 u where r: "map_find i (timers q) = Some t"
        "exec_calls clock (acts (tm_callback t)) (q\<lparr>fired := fired q @ [tm_callback t]\<rparr>) = Some q1"
        "run_expired clock acts es (settle clock i u q1) \<noteq> None"
      unfolding e using run_expired_Cons [of clock acts w i es q] by blast
    have "j \<noteq> i" using r(1) Cons.prems(2) by (auto simp: gone_def)
    moreover have "gone j (q\<lparr>fired := fired q @ [tm_callback t]\<rparr>)" using Cons.prems(2) by (simp add: gone_def)
    then have "gone j q1" by (rule exec_calls_gone [OF r(2)])
    ultimately have "gone j (settle clock i u q1)" by (simp add: settle_gone)
    moreover have "j \<in> snd ` set es" using Cons.prems(1) e \<open>j \<noteq> i\<close> by auto
    ultimately have "run_expired clock acts es (settle clock i u q1) = None" by (intro Cons.IH)
    then show False using r(3) by contradiction
  qed
qed simp

subsection \<open>Properties\<close>

text \<open>
  C33: when the timer descriptor becomes readable, exactly the timers that are due at the clock
  reading fire, each once, in the order of their expiration times (and of their ids for equal times);
  afterwards one-shot timers are gone, repeating ones expire one interval after a later clock
  reading, all others are unchanged, the map and the set of entries agree, and the descriptor is
  armed for the first remaining timer. (The callbacks themselves make no calls on the queue.)
\<close>

theorem timers_fire_in_order:
  fixes clock :: "nat \<Rightarrow> timestamp"
  assumes "tq_inv [] q" "numCreated q < INT64_MAX"
  defines "due \<equiv> filter (\<lambda>e. fst e \<le> clock (clockReads q)) (timerEntries q)"
  shows "\<exists>q'. timer_handleRead clock (\<lambda>_. []) q = Some q' \<and> tq_inv [] q' \<and>
    fired q' = fired q @ map (\<lambda>e. tm_callback (the (map_find (snd e) (timers q)))) due \<and>
    (\<forall>i. i \<notin> snd ` set due \<longrightarrow> map_find i (timers q') = map_find i (timers q)) \<and>
    (\<forall>i \<in> snd ` set due. \<forall>t. map_find i (timers q) = Some t \<longrightarrow> after_fire (clockReads q + 1) clock t (map_find i (timers q'))) \<and>
    (timerEntries q' \<noteq> [] \<and> Timestamp_valid (fst (hd (timerEntries q'))) \<longrightarrow>
      (\<exists>n > clockReads q. armed q' = Some (howMuchTimeFromNow (clock n) (fst (hd (timerEntries q'))))))"
  unfolding due_def by (rule handleRead_quiet [OF assms(1,2)])

text \<open>
  C34: \<open>addTimer\<close>, called in the loop's thread, registers the timer under a new id in both containers and keeps them
  consistent. The id can be cancelled in the loop's thread, which removes the timer from both, while \<open>cancel\<close> in another thread, and
  cancelling the id again, fails an assertion. In the same way a one-shot timer can no longer be cancelled once it has
  fired: when the descriptor becomes readable at a time at which it is due, and callbacks make no calls on the queue, its callback is called and
  cancelling its id fails the assertion from then on.
\<close>

theorem timer_add_cancel:
  fixes clock :: "nat \<Rightarrow> timestamp"
  assumes "tq_inv [] q" "0 \<le> numCreated q" "numCreated q + 1 < INT64_MAX"
  shows "\<exists>q1. addTimer clock True cb when ival q = Some (numCreated q + 1, q1, None) \<and> tq_inv [] q1 \<and>
    (when, numCreated q + 1) \<in> set (timerEntries q1) \<and> TimerQueue_cancel False (numCreated q + 1) q1 = None \<and>
    (\<exists>q2. TimerQueue_cancel True (numCreated q + 1) q1 = Some q2 \<and> tq_inv [] q2 \<and>
      (\<forall>i. map_find i (timers q2) = map_find i (timers q)) \<and> TimerQueue_cancel True (numCreated q + 1) q2 = None) \<and>
    (\<not> dbl_pos ival \<and> when \<le> clock (clockReads q1) \<longrightarrow>
      (\<exists>q3. timer_handleRead clock (\<lambda>_. []) q1 = Some q3 \<and> cb \<in> set (fired q3) \<and>
        TimerQueue_cancel True (numCreated q + 1) q3 = None))"
proof -
  let ?i = "numCreated q + 1"
  obtain q1 where q1: "addTimer clock True cb when ival q = Some (?i, q1, None)" "tq_inv [] q1"
    "timers q1 = map_assign ?i \<lparr>tm_callback = cb, expiration = when, interval = ival,
      repeats = dbl_pos ival, sequence = ?i\<rparr> (timers q)"
    "timerEntries q1 = insort (when, ?i) (timerEntries q)" "numCreated q1 = ?i"
    using addTimer_ok [OF assms(1,2)] by blast
  obtain q2 where q2: "TimerQueue_cancel True ?i q1 = Some q2" "tq_inv [] q2" "timers q2 = map_erase ?i (timers q1)"
    using cancel_ok [OF q1(2), of ?i] q1(3) by (auto simp: map_find_assign)
  have new: "map_find ?i (timers q) = None"
    using tq_invD(5) [OF assms(1), of ?i] by (cases "map_find ?i (timers q)") auto
  have l: "map_find j (timers q2) = map_find j (timers q)" for j
    using new by (simp add: q2(3) q1(3) map_find_erase [OF tq_invD(1) [OF q1(2), unfolded q1(3)]] map_find_assign)
  have "TimerQueue_cancel True ?i q2 = None"
    using l [of ?i] new by (simp add: TimerQueue_cancel_def cancelInLoop_def)
  moreover have "\<exists>q3. timer_handleRead clock (\<lambda>_. []) q1 = Some q3 \<and> cb \<in> set (fired q3) \<and> TimerQueue_cancel True ?i q3 = None"
    if due: "\<not> dbl_pos ival" "when \<le> clock (clockReads q1)"
  proof -
    let ?due = "filter (\<lambda>e. fst e \<le> clock (clockReads q1)) (timerEntries q1)"
    have e: "(when, ?i) \<in> set ?due" using due(2) q1(4) by (simp add: set_insort_key)
    then have i: "?i \<in> snd ` set ?due" by (metis image_eqI snd_conv)
    obtain q3 where q3: "timer_handleRead clock (\<lambda>_. []) q1 = Some q3"
      "fired q3 = fired q1 @ map (\<lambda>e. tm_callback (the (map_find (snd e) (timers q1)))) ?due"
      "\<forall>i \<in> snd ` set ?due. \<forall>t. map_find i (timers q1) = Some t \<longrightarrow> after_fire (clockReads q1 + 1) clock t (map_find i (timers q3))"
      using handleRead_quiet [OF q1(2), of clock] assms(3) q1(5) by auto
    have "cb \<in> set (fired q3)" unfolding q3(2) using image_eqI [OF _ e, of cb "\<lambda>e. tm_callback (the (map_find (snd e) (timers q1)))"] q1(3)
      by (simp add: map_find_assign)
    moreover have "map_find ?i (timers q3) = None" using bspec [OF q3(3) i] q1(3) due(1) by (simp add: map_find_assign after_fire_def)
    ultimately show ?thesis using q3(1) by (simp add: TimerQueue_cancel_def cancelInLoop_def)
  qed
  moreover have "TimerQueue_cancel False ?i q1 = None" by (simp add: TimerQueue_cancel_def cancelInLoop_def)
  ultimately show ?thesis using q1(1,2,4) q2(1,2) l by (intro exI [of _ q1]) (auto simp: set_insort_key)
qed

theorem timer_add_cancel_witness:
  "\<exists>q1 q3. addTimer (\<lambda>n. 600) True ''cb'' 500 (0, 0) TimerQueue_ctor = Some (1, q1, None) \<and> (500, 1) \<in> set (timerEntries q1) \<and>
    timer_handleRead (\<lambda>n. 600) (\<lambda>_. []) q1 = Some q3 \<and> ''cb'' \<in> set (fired q3) \<and> TimerQueue_cancel True 1 q3 = None"
  using timer_add_cancel [OF tq_inv_ctor, of "\<lambda>n. 600" "''cb''" 500 "(0, 0)"]
  by (auto simp: TimerQueue_ctor_def INT64_MAX_def dbl_pos_def)

definition demo_queue :: "string timer_queue" where
  "demo_queue = TimerQueue_ctor\<lparr>timers := [(1, \<lparr>tm_callback = ''late'', expiration = 900, interval = (0, 0), repeats = False,
     sequence = 1\<rparr>), (2, \<lparr>tm_callback = ''early'', expiration = 400, interval = (1, 0), repeats = True, sequence = 2\<rparr>)],
     timerEntries := [(400, 2), (900, 1)], numCreated := 2\<rparr>"

lemma demo_queue_inv: "tq_inv [] demo_queue"
  by (auto simp: tq_inv_def demo_queue_def TimerQueue_ctor_def map_ok_def split: if_splits)

theorem timers_fire_in_order_witness:
  "\<exists>q'. timer_handleRead (\<lambda>n. 1000) (\<lambda>_. []) demo_queue = Some q' \<and> fired q' = [''early'', ''late''] \<and>
     map_find 1 (timers q') = None"
proof -
  have n: "numCreated demo_queue < INT64_MAX" by (simp add: demo_queue_def INT64_MAX_def)
  from timers_fire_in_order [OF demo_queue_inv n, of "\<lambda>n. 1000"] show ?thesis
    by (auto simp: demo_queue_def TimerQueue_ctor_def after_fire_def)
qed

text \<open>
  C35: what a timer callback must not do. A round of \<open>handleRead\<close> comes to a timer after others whose callbacks made no calls. If
  its callback begins by cancelling its own timer, or the timer of any entry that is due in the same round and comes later, then
  \<open>handleRead\<close> fails, whatever the callback and later ones do after that: it uses a dangling reference or fails an assertion.
  It also fails, dereferencing \<open>timerEntries_.cbegin()\<close> of an empty set, if the callback begins by adding a
  timer while every timer is due in this round and none of those that fired before repeats.
\<close>

theorem timer_callback_hazards:
  fixes clock :: "nat \<Rightarrow> timestamp"
  assumes "tq_inv [] q" "numCreated q < INT64_MAX"
    and "filter (\<lambda>e. fst e \<le> clock (clockReads q)) (timerEntries q) = pre @ (w, i) # ps"
    and "\<forall>e \<in> set pre. acts (callback_of q (snd e)) = []"
    and "acts (callback_of q i) = CallCancel j # calls \<and> (j = i \<or> j \<in> snd ` set ps) \<or>
      acts (callback_of q i) = CallAdd cb when ival # calls \<and> (\<forall>e \<in> set (timerEntries q). fst e \<le> clock (clockReads q)) \<and>
        (\<forall>e \<in> set pre. \<not> repeats (the (map_find (snd e) (timers q))))"
  shows "timer_handleRead clock acts q = None"
proof -
  let ?q = "q\<lparr>clockReads := clockReads q + 1\<rparr>" and ?now = "clock (clockReads q)" and ?due = "pre @ (w, i) # ps"
  have inv: "tq_inv [] ?q" by (rule tq_inv_cong [OF assms(1)]) simp_all
  from getExpired_ok [OF inv, of ?now] assms(2,3) obtain q1 where q1: "getExpired ?now ?q = Some (?due, q1)"
    "q1 = ?q\<lparr>timerEntries := filter (\<lambda>e. ?now < fst e) (timerEntries q)\<rparr>" "tq_inv ?due q1" by auto
  have "\<forall>e \<in> set pre. acts (callback_of q1 (snd e)) = []" using assms(4) q1(2) by (simp add: callback_of_def)
  from run_expired_prefix [OF q1(3) this] obtain q2 where
    q2: "run_expired clock acts ?due q1 = run_expired clock acts ((w, i) # ps) q2" "tq_inv ((w, i) # ps) q2"
    "\<forall>i. i \<notin> snd ` set pre \<longrightarrow> map_find i (timers q2) = map_find i (timers q1)"
    "(\<forall>e \<in> set pre. \<not> repeats (the (map_find (snd e) (timers q1)))) \<longrightarrow> timerEntries q2 = timerEntries q1" by blast
  note D = tq_invD [OF q1(3)] and D2 = tq_invD [OF q2(2)]
  obtain t where t: "map_find i (timers q1) = Some t" "expiration t = w" using D(4) [of w i] by auto
  have "i \<notin> snd ` set pre"
  proof
    assume "i \<in> snd ` set pre"
    then obtain v where v: "(v, i) \<in> set pre" by auto
    then have "v = w" using D(4) [of v i] t by auto
    then show False using v D(3) by auto
  qed
  then have t2: "map_find i (timers q2) = Some t" using q2(3) t by simp
  have cb: "tm_callback t = callback_of q i" using t(1) q1(2) by (simp add: callback_of_def)
  let ?qf = "q2\<lparr>fired := fired q2 @ [tm_callback t]\<rparr>"
  have "run_expired clock acts ((w, i) # ps) q2 = None"
  proof (cases "acts (callback_of q i) = CallCancel j # calls \<and> (j = i \<or> j \<in> snd ` set ps)")
    case True
    then have acts: "acts (callback_of q i) = CallCancel j # calls" and j: "j = i \<or> j \<in> snd ` set ps" by simp_all
    show ?thesis
    proof (rule ccontr)
      assume "run_expired clock acts ((w, i) # ps) q2 \<noteq> None"
      then obtain q4 u where r: "exec_calls clock (CallCancel j # calls) ?qf = Some q4" "map_find i (timers q4) = Some u"
          "run_expired clock acts ps (settle clock i u q4) \<noteq> None"
        using run_expired_Cons [of clock acts w i ps q2] t2 acts cb by auto
      then obtain q3 where q3: "TimerQueue_cancel True j ?qf = Some q3" "exec_calls clock calls q3 = Some q4" by (auto simp: bind_eq_Some_conv)
      have "\<exists>v. (v, j) \<in> set (((w, i) # ps) @ timerEntries q2)" using j by auto
      then obtain v where "(v, j) \<in> set (((w, i) # ps) @ timerEntries q2)" ..
      then have "j \<le> numCreated q2" using D2(4) [of v j] D2(5) by blast
      then have g: "gone j q4" using cancel_gone [OF q3(1), of j] exec_calls_gone [OF q3(2)] D2(1) by simp
      then have ij: "j \<noteq> i" using r(2) by (auto simp: gone_def)
      then have "j \<in> snd ` set ps" using j by simp
      then have "run_expired clock acts ps (settle clock i u q4) = None" using settle_gone [OF g ij] by (rule run_expired_gone)
      then show False using r(3) by contradiction
    qed
  next
    case False
    then have acts: "acts (callback_of q i) = CallAdd cb when ival # calls" and "\<forall>e \<in> set (timerEntries q). fst e \<le> ?now"
      "\<forall>e \<in> set pre. \<not> repeats (the (map_find (snd e) (timers q)))" using assms(5) by blast+
    then have "timerEntries q2 = []" using q2(4) q1(2) by (auto simp: filter_empty_conv)
    moreover have "timers q2 \<noteq> []" using t2 by auto
    ultimately show ?thesis using t2 acts cb by (simp add: addTimer_def Timer_ctor_def addTimerInLoop_def)
  qed
  with q2(1) have "run_expired clock acts ?due q1 = None" by (rule trans)
  then show ?thesis using q1(1) by (simp add: timer_handleRead_def read_clock_def)
qed

theorem timer_callback_hazards_witness:
  "timer_handleRead (\<lambda>n. 1000) (\<lambda>f. if f = ''early'' then [CallCancel 1] else []) demo_queue = None"
proof (rule timer_callback_hazards [OF demo_queue_inv, of _ "[]" 400 2 "[(900, 1)]" _ 1 "[]"])
  show "filter (\<lambda>e. fst e \<le> 1000) (timerEntries demo_queue) = [] @ (400, 2) # [(900, 1)]" by (simp add: demo_queue_def)
qed (simp_all add: demo_queue_def INT64_MAX_def callback_of_def)

end
