(* ===== verification/TcpServer.thy ===== *)
theory TcpServer
  imports Printf StdMap
begin

text \<open>
  \<open>tmuduo/net/EventLoopThreadPool.cc\<close>, \<open>Acceptor.cc\<close> and \<open>TcpServer.cc\<close>. Loops are
  numbered. A connection object is an address (\<open>conn_ptr\<close>) with the name, descriptor and
  loop it was made with; the work handed to a loop, \<open>connectionEstablished\<close> or
  \<open>connectionDestroyed\<close>, is recorded in \<open>tasks\<close>. Results of system calls are arguments.
\<close>

subsection \<open>EventLoopThreadPool\<close>

type_synonym loop_id = nat

record thread_pool =
  baseLoop :: loop_id
  pool_started :: bool
  numThreads :: int
  next_loop :: nat
  loops :: "loop_id list"

definition EventLoopThreadPool_ctor :: "loop_id \<Rightarrow> thread_pool" where
  "EventLoopThreadPool_ctor base = \<lparr>baseLoop = base, pool_started = False, numThreads = 0, next_loop = 0, loops = []\<rparr>"

definition pool_setThreadNum :: "int \<Rightarrow> thread_pool \<Rightarrow> thread_pool" where
  "pool_setThreadNum n p = p\<lparr>numThreads := n\<rparr>"

text \<open>
  \<open>start\<close>: \<open>startLoop i\<close> is the loop that the i-th new thread runs; a thread runs the
  initialisation callback on its loop. The result names the loops the callback was called on.
\<close>

definition pool_start :: "bool \<Rightarrow> (nat \<Rightarrow> loop_id) \<Rightarrow> bool \<Rightarrow> thread_pool \<Rightarrow> (thread_pool \<times> loop_id list) option" where
  "pool_start inLoop startLoop hasCallback p = do {
     assert_that (\<not> pool_started p);
     assert_that inLoop;
     let ls = map startLoop [0..<nat (numThreads p)];
     let p = p\<lparr>pool_started := True, loops := loops p @ ls\<rparr>;
     Some (p, if hasCallback then (if numThreads p = 0 then [baseLoop p] else ls) else []) }"

definition getNextLoop :: "bool \<Rightarrow> thread_pool \<Rightarrow> (loop_id \<times> thread_pool) option" where
  "getNextLoop inLoop p = do {
     assert_that inLoop;
     if loops p \<noteq> [] then do {
       assert_that (next_loop p < length (loops p));
       let loop = loops p ! next_loop p;
       let p = p\<lparr>next_loop := next_loop p + 1\<rparr>;
       Some (loop, if next_loop p \<ge> length (loops p) then p\<lparr>next_loop := 0\<rparr> else p) }
     else Some (baseLoop p, p) }"

fun take_loops :: "nat \<Rightarrow> thread_pool \<Rightarrow> (loop_id list \<times> thread_pool) option" where
  "take_loops 0 p = Some ([], p)"
| "take_loops (Suc k) p = do {
     (l, p) \<leftarrow> getNextLoop True p;
     (ls, p) \<leftarrow> take_loops k p;
     Some (l # ls, p) }"

subsection \<open>Acceptor\<close>

record acceptor =
  accept_fd :: fd
  listenning :: bool
  idleFd :: fd
  accept_reading :: bool

definition EAGAIN :: int where "EAGAIN = 11"
definition ECONNABORTED :: int where "ECONNABORTED = 103"
definition EINTR :: int where "EINTR = 4"
definition EPROTO :: int where "EPROTO = 71"
definition EPERM :: int where "EPERM = 1"
definition EMFILE :: int where "EMFILE = 24"

lemmas errnos = EAGAIN_def ECONNABORTED_def EINTR_def EPROTO_def EPERM_def EMFILE_def

text \<open>\<open>sockets::accept\<close>: expected errors are returned, all others are fatal.\<close>

definition sockets_accept :: "int + fd \<Rightarrow> (int + fd) option" where
  "sockets_accept accept4 =
     (case accept4 of
        Inr connfd \<Rightarrow> Some (Inr connfd)
      | Inl savedErrno \<Rightarrow>
          if savedErrno \<in> {EAGAIN, ECONNABORTED, EINTR, EPROTO, EPERM, EMFILE} then Some (Inl savedErrno)
          else None)"

definition Acceptor_ctor :: "fd \<Rightarrow> fd \<Rightarrow> acceptor option" where
  "Acceptor_ctor sockfd opened = do {
     assert_that (opened \<ge> 0);
     Some \<lparr>accept_fd = sockfd, listenning = False, idleFd = opened, accept_reading = False\<rparr> }"

definition Acceptor_listen :: "bool \<Rightarrow> acceptor \<Rightarrow> acceptor option" where
  "Acceptor_listen inLoop a = do {
     assert_that inLoop;
     Some (a\<lparr>listenning := True, accept_reading := True\<rparr>) }"

datatype accept_effect = NewConnection fd | CloseFd fd | AcceptIdle fd | OpenNull fd

text \<open>
  \<open>handleRead\<close>: \<open>accept2\<close> and \<open>open\<close> are the results of the second \<open>accept\<close> and of
  reopening \<open>/dev/null\<close> when the process has run out of descriptors.
\<close>

definition Acceptor_handleRead ::
  "bool \<Rightarrow> int + fd \<Rightarrow> fd \<Rightarrow> fd \<Rightarrow> bool \<Rightarrow> acceptor \<Rightarrow> (accept_effect list \<times> acceptor) option" where
  "Acceptor_handleRead inLoop accept4 accept2 open_null hasCallback a = do {
     assert_that inLoop;
     r \<leftarrow> sockets_accept accept4;
     case r of
       Inr connfd \<Rightarrow> Some (if hasCallback then [NewConnection connfd] else [CloseFd connfd], a)
     | Inl errno \<Rightarrow>
         if errno = EMFILE then
           Some ([CloseFd (idleFd a), AcceptIdle accept2, CloseFd accept2, OpenNull open_null],
                 a\<lparr>idleFd := open_null\<rparr>)
         else Some ([], a) }"

subsection \<open>TcpServer\<close>

type_synonym conn_ptr = nat

record server_conn =
  sc_name :: string
  sc_fd :: fd
  sc_loop :: loop_id

datatype server_task = RunEstablished conn_ptr loop_id | QueueDestroyed conn_ptr loop_id | RunDestroyed conn_ptr loop_id

text \<open>
  The server holds a shared pointer to each connection in its map. \<open>srv_released\<close> collects the connections whose pointer in the map
  was overwritten, or erased on behalf of another connection: each of them is destroyed there unless somebody else keeps a pointer.
\<close>

record tcp_server =
  srv_hostport :: string
  srv_name :: string
  srv_pool :: thread_pool
  srv_started :: bool
  nextConnId :: int
  connections :: "(string, conn_ptr) std_map"
  srv_released :: "conn_ptr list"
  conn_heap :: "server_conn list"
  tasks :: "server_task list"

definition TcpServer_ctor :: "string \<Rightarrow> string \<Rightarrow> loop_id \<Rightarrow> tcp_server" where
  "TcpServer_ctor hostport name loop = \<lparr>srv_hostport = hostport, srv_name = name,
     srv_pool = EventLoopThreadPool_ctor loop, srv_started = False, nextConnId = 1, connections = [], srv_released = [],
     conn_heap = [], tasks = []\<rparr>"

definition server_setThreadNum :: "int \<Rightarrow> tcp_server \<Rightarrow> tcp_server option" where
  "server_setThreadNum n s = do {
     assert_that (n \<ge> 0);
     Some (s\<lparr>srv_pool := pool_setThreadNum n (srv_pool s)\<rparr>) }"

text \<open>\<open>start\<close>: the second result tells whether \<open>Acceptor::listen\<close> is run in the loop.\<close>

definition server_start :: "bool \<Rightarrow> (nat \<Rightarrow> loop_id) \<Rightarrow> bool \<Rightarrow> bool \<Rightarrow> tcp_server \<Rightarrow> (tcp_server \<times> bool) option" where
  "server_start inLoop startLoop hasCallback already_listening s = do {
     s \<leftarrow> (if \<not> srv_started s then do {
            (p, _) \<leftarrow> pool_start inLoop startLoop hasCallback (srv_pool s);
            Some (s\<lparr>srv_started := True, srv_pool := p\<rparr>) }
          else Some s);
     Some (s, \<not> already_listening) }"

definition connSuffix :: "string \<Rightarrow> int \<Rightarrow> string" where
  "connSuffix hostport connId = snprintf 32 ('':'' @ hostport @ ''#'' @ dec_int connId)"

definition the_list :: "'a option \<Rightarrow> 'a list" where
  "the_list x = (case x of None \<Rightarrow> [] | Some a \<Rightarrow> [a])"

definition newConnection :: "bool \<Rightarrow> fd \<Rightarrow> tcp_server \<Rightarrow> (conn_ptr \<times> tcp_server) option" where
  "newConnection inLoop sockfd s = do {
     assert_that inLoop;
     (ioLoop, p) \<leftarrow> getNextLoop inLoop (srv_pool s);
     let buf = connSuffix (srv_hostport s) (nextConnId s);
     let connName = srv_name s @ buf;
     let conn = length (conn_heap s);
     Some (conn, s\<lparr>srv_pool := p, nextConnId := nextConnId s + 1,
       conn_heap := conn_heap s @ [\<lparr>sc_name = connName, sc_fd = sockfd, sc_loop = ioLoop\<rparr>],
       connections := map_assign connName conn (connections s),
       srv_released := srv_released s @ the_list (map_find connName (connections s)),
       tasks := tasks s @ [RunEstablished conn ioLoop]\<rparr>) }"

text \<open>The functor that is queued keeps a pointer to \<open>conn\<close>, but not to another connection whose entry was erased.\<close>

definition removeConnectionInLoop :: "bool \<Rightarrow> conn_ptr \<Rightarrow> tcp_server \<Rightarrow> tcp_server option" where
  "removeConnectionInLoop inLoop conn s = do {
     assert_that inLoop;
     let name = sc_name (conn_heap s ! conn);
     assert_that (map_find name (connections s) \<noteq> None);
     Some (s\<lparr>connections := map_erase name (connections s),
            srv_released := srv_released s @ filter (\<lambda>old. old \<noteq> conn) (the_list (map_find name (connections s))),
            tasks := tasks s @ [QueueDestroyed conn (sc_loop (conn_heap s ! conn))]\<rparr>) }"

definition TcpServer_dtor :: "bool \<Rightarrow> tcp_server \<Rightarrow> tcp_server option" where
  "TcpServer_dtor inLoop s = do {
     assert_that inLoop;
     Some (s\<lparr>tasks := tasks s @ map (\<lambda>(_, conn). RunDestroyed conn (sc_loop (conn_heap s ! conn))) (connections s)\<rparr>) }"

subsection \<open>Round robin\<close>

definition pool_ok :: "thread_pool \<Rightarrow> bool" where
  "pool_ok p \<longleftrightarrow> loops p = [] \<or> next_loop p < length (loops p)"

lemma getNextLoop_ok:
  assumes "pool_ok p"
  shows "\<exists>p'. getNextLoop True p = Some (if loops p = [] then baseLoop p else loops p ! next_loop p, p') \<and>
    pool_ok p' \<and> loops p' = loops p \<and> baseLoop p' = baseLoop p \<and>
    (loops p \<noteq> [] \<longrightarrow> next_loop p' = (next_loop p + 1) mod length (loops p))"
proof (cases "loops p = []")
  case False
  then have lt: "next_loop p < length (loops p)" using assms by (simp add: pool_ok_def)
  show ?thesis
  proof (cases "next_loop p + 1 = length (loops p)")
    case True
    then show ?thesis using False lt by (auto simp: getNextLoop_def pool_ok_def)
  next
    case False
    then have "next_loop p + 1 < length (loops p)" using lt by simp
    then show ?thesis by (auto simp: getNextLoop_def pool_ok_def)
  qed
qed (simp add: getNextLoop_def pool_ok_def)

lemma take_loops_ok:
  assumes "loops p \<noteq> []" "next_loop p < length (loops p)"
  shows "\<exists>p'. take_loops k p = Some (map (\<lambda>i. loops p ! ((next_loop p + i) mod length (loops p))) [0..<k], p') \<and>
    loops p' = loops p \<and> next_loop p' = (next_loop p + k) mod length (loops p)"
  using assms
proof (induction k arbitrary: p)
  case (Suc k)
  have "pool_ok p" using Suc.prems by (simp add: pool_ok_def)
  from getNextLoop_ok [OF this] Suc.prems obtain p1 where p1: "getNextLoop True p = Some (loops p ! next_loop p, p1)"
    "loops p1 = loops p" "next_loop p1 = (next_loop p + 1) mod length (loops p)" by auto
  have "next_loop p1 < length (loops p1)" "loops p1 \<noteq> []" using p1 Suc.prems by simp_all
  from Suc.IH [OF this(2,1)] p1 obtain p' where p': "take_loops k p1 = Some (map (\<lambda>i. loops p ! ((next_loop p1 + i) mod length (loops p))) [0..<k], p')"
    "loops p' = loops p" "next_loop p' = (next_loop p1 + k) mod length (loops p)" by auto
  have "map (\<lambda>i. loops p ! ((next_loop p + i) mod length (loops p))) [0..<Suc k] =
      loops p ! next_loop p # map (\<lambda>i. loops p ! ((next_loop p1 + i) mod length (loops p))) [0..<k]"
    using Suc.prems p1(3)
    by (simp only: upt_conv_Cons map_Suc_upt [symmetric] list.map map_map zero_less_Suc o_def)
      (simp add: mod_add_left_eq)
  with p1 p' show ?case by (simp add: mod_add_left_eq)
qed simp

subsection \<open>Connection names\<close>

lemma connSuffix_fits:
  assumes "0 \<le> n" "n < 10 ^ 8" "length h \<le> 21"
  shows "connSuffix h n = '':'' @ h @ ''#'' @ dec_nat (nat n)"
proof -
  have "nat n < 10 ^ 8" using assms(2) by (simp add: nat_less_iff)
  then have "length (dec_nat (nat n)) \<le> 8" by (intro dec_nat_length) simp_all
  then show ?thesis using assms by (simp add: connSuffix_def dec_int_def snprintf_fits)
qed

lemma connSuffix_inject:
  assumes "0 \<le> m" "m < 10 ^ 8" "0 \<le> n" "n < 10 ^ 8" "length h \<le> 21"
  shows "connSuffix h m = connSuffix h n \<longleftrightarrow> m = n"
  using assms by (simp add: connSuffix_fits dec_nat_inject eq_nat_nat_iff)

lemma connSuffix_truncated:
  assumes "30 \<le> length h"
  shows "connSuffix h n = take 31 ('':'' @ h)"
  using assms by (simp add: connSuffix_def snprintf_def)

datatype server_event = Accept fd | Close conn_ptr

fun exec_server :: "server_event list \<Rightarrow> tcp_server \<Rightarrow> tcp_server option" where
  "exec_server [] s = Some s"
| "exec_server (Accept f # es) s = do { (_, s) \<leftarrow> newConnection True f s; exec_server es s }"
| "exec_server (Close c # es) s = do { s \<leftarrow> removeConnectionInLoop True c s; exec_server es s }"

text \<open>Open connections after some events; \<open>n\<close> connections have been accepted before.\<close>

fun still_open :: "server_event list \<Rightarrow> nat \<Rightarrow> conn_ptr list \<Rightarrow> conn_ptr list option" where
  "still_open [] n L = Some L"
| "still_open (Accept f # es) n L = still_open es (Suc n) (L @ [n])"
| "still_open (Close c # es) n L = (if c \<in> set L then still_open es n (remove1 c L) else None)"

fun accepts :: "server_event list \<Rightarrow> nat" where
  "accepts [] = 0"
| "accepts (Accept f # es) = Suc (accepts es)"
| "accepts (Close c # es) = accepts es"

definition srv_inv :: "conn_ptr list \<Rightarrow> tcp_server \<Rightarrow> bool" where
  "srv_inv L s \<longleftrightarrow> srv_released s = [] \<and> map_ok (connections s) \<and> pool_ok (srv_pool s) \<and> length (srv_hostport s) \<le> 21 \<and> distinct L \<and>
     nextConnId s = int (length (conn_heap s)) + 1 \<and> (\<forall>c \<in> set L. c < length (conn_heap s)) \<and>
     (\<forall>c < length (conn_heap s). sc_name (conn_heap s ! c) = srv_name s @ connSuffix (srv_hostport s) (int c + 1)) \<and>
     (\<forall>name c. map_find name (connections s) = Some c \<longleftrightarrow> c \<in> set L \<and> sc_name (conn_heap s ! c) = name)"

lemma newConnection_inv:
  assumes inv: "srv_inv L s" and n: "length (conn_heap s) + 1 < 10 ^ 8"
  shows "\<exists>s'. newConnection True f s = Some (length (conn_heap s), s') \<and> srv_inv (L @ [length (conn_heap s)]) s' \<and>
    length (conn_heap s') = Suc (length (conn_heap s))"
proof -
  note I = inv [unfolded srv_inv_def]
  let ?c = "length (conn_heap s)" and ?name = "srv_name s @ connSuffix (srv_hostport s) (nextConnId s)"
  obtain l p where p: "getNextLoop True (srv_pool s) = Some (l, p)" "pool_ok p"
    using getNextLoop_ok [of "srv_pool s"] I by blast
  let ?s' = "s\<lparr>srv_pool := p, nextConnId := nextConnId s + 1,
       conn_heap := conn_heap s @ [\<lparr>sc_name = ?name, sc_fd = f, sc_loop = l\<rparr>],
       connections := map_assign ?name ?c (connections s), tasks := tasks s @ [RunEstablished ?c l]\<rparr>"
  have fresh: "sc_name (conn_heap s ! c) \<noteq> ?name" if "c < ?c" for c
    using that n I by (simp add: connSuffix_inject)
  then have "map_find ?name (connections s) = None" using I by (metis not_Some_eq)
  then have "newConnection True f s = Some (?c, ?s')" using p by (simp add: newConnection_def Let_def the_list_def)
  moreover
  have "srv_inv (L @ [?c]) ?s'"
  proof -
    have "map_find nm (connections ?s') = Some d \<longleftrightarrow> d \<in> set (L @ [?c]) \<and> sc_name (conn_heap ?s' ! d) = nm" for nm d
      using I fresh by (auto simp: map_find_assign nth_append)
    moreover have "\<forall>d < length (conn_heap ?s'). sc_name (conn_heap ?s' ! d) =
        srv_name ?s' @ connSuffix (srv_hostport ?s') (int d + 1)"
      using I by (auto simp: nth_append less_Suc_eq)
    ultimately show ?thesis
      using I p(2) unfolding srv_inv_def by (auto simp: map_assign_ok)
  qed
  ultimately show ?thesis by simp
qed

lemma removeConnection_inv:
  assumes inv: "srv_inv L s" and c: "c \<in> set L" and n: "length (conn_heap s) < 10 ^ 8"
  shows "\<exists>s'. removeConnectionInLoop True c s = Some s' \<and> srv_inv (remove1 c L) s' \<and> conn_heap s' = conn_heap s \<and>
    tasks s' = tasks s @ [QueueDestroyed c (sc_loop (conn_heap s ! c))]"
proof -
  note I = inv [unfolded srv_inv_def]
  let ?name = "sc_name (conn_heap s ! c)"
  let ?s' = "s\<lparr>connections := map_erase ?name (connections s),
    tasks := tasks s @ [QueueDestroyed c (sc_loop (conn_heap s ! c))]\<rparr>"
  have "map_find ?name (connections s) = Some c" using I c by blast
  then have "removeConnectionInLoop True c s = Some ?s'" by (simp add: removeConnectionInLoop_def Let_def the_list_def)
  moreover have same: "d = c" if "d \<in> set L" "sc_name (conn_heap s ! d) = ?name" for d
  proof -
    have "d < length (conn_heap s)" "c < length (conn_heap s)" using I that(1) c by auto
    then show ?thesis using I that(2) n by (simp add: connSuffix_inject)
  qed
  have "srv_inv (remove1 c L) ?s'"
  proof -
    have "map_find nm (connections ?s') = Some d \<longleftrightarrow> d \<in> set (remove1 c L) \<and> sc_name (conn_heap ?s' ! d) = nm" for nm d
      using I same by (auto simp: map_find_erase)
    then show ?thesis using I unfolding srv_inv_def by (auto simp: map_erase_ok)
  qed
  ultimately show ?thesis by simp
qed

lemma exec_server_inv:
  assumes "srv_inv L s" "still_open es (length (conn_heap s)) L = Some L'" "length (conn_heap s) + accepts es < 10 ^ 8"
  shows "\<exists>s'. exec_server es s = Some s' \<and> srv_inv L' s' \<and> length (conn_heap s') = length (conn_heap s) + accepts es"
  using assms
proof (induction es arbitrary: s L)
  case (Cons e es)
  show ?case
  proof (cases e)
    case (Accept f)
    from newConnection_inv [OF Cons.prems(1), of f] Cons.prems(3) Accept obtain s1 where
      s1: "newConnection True f s = Some (length (conn_heap s), s1)" "srv_inv (L @ [length (conn_heap s)]) s1"
        "length (conn_heap s1) = Suc (length (conn_heap s))" by auto
    from Cons.IH [OF s1(2)] s1 Cons.prems(2,3) Accept show ?thesis by auto
  next
    case (Close c)
    with Cons.prems(2) have c: "c \<in> set L" by (simp split: if_splits)
    from removeConnection_inv [OF Cons.prems(1) c] Cons.prems(3) obtain s1 where
      s1: "removeConnectionInLoop True c s = Some s1" "srv_inv (remove1 c L) s1" "conn_heap s1 = conn_heap s" by auto
    from Cons.IH [OF s1(2)] s1 Cons.prems(2,3) Close c show ?thesis by auto
  qed
qed simp

subsection \<open>Properties\<close>

text \<open>
  The server's book-keeping. With an IPv4 address and port (at most 21 characters) and
  fewer than a hundred million connections, any sequence of accepted connections and of closes of
  open ones is processed without a failed assertion, and the map of connections then holds
  exactly the open ones, each under its own name; in particular names never collide.
\<close>

theorem server_tracks_connections:
  assumes "length hostport \<le> 21" "still_open es 0 [] = Some L" "accepts es < 10 ^ 8"
  shows "\<exists>s'. exec_server es (TcpServer_ctor hostport name loop) = Some s' \<and> length (conn_heap s') = accepts es \<and>
    (\<forall>nm c. map_find nm (connections s') = Some c \<longleftrightarrow> c \<in> set L \<and> sc_name (conn_heap s' ! c) = nm) \<and>
    (\<forall>c \<in> set L. map_find (sc_name (conn_heap s' ! c)) (connections s') = Some c)"
proof -
  have "srv_inv [] (TcpServer_ctor hostport name loop)"
    using assms(1) by (simp add: srv_inv_def TcpServer_ctor_def pool_ok_def EventLoopThreadPool_ctor_def)
  from exec_server_inv [OF this, of es L] assms(2,3) show ?thesis
    by (auto simp: srv_inv_def) (auto simp: TcpServer_ctor_def)
qed

theorem server_tracks_connections_witness:
  "\<exists>s'. exec_server [Accept 7, Accept 8, Close 0, Accept 9] (TcpServer_ctor ''10.0.0.1:80'' ''srv'' 0) = Some s' \<and>
     map_find (sc_name (conn_heap s' ! 1)) (connections s') = Some 1 \<and>
     map_find (sc_name (conn_heap s' ! 2)) (connections s') = Some 2"
  using server_tracks_connections [of "''10.0.0.1:80''" "[Accept 7, Accept 8, Close 0, Accept 9]" "[1, 2]" "''srv''" 0]
  by (auto simp: numeral_2_eq_2)

text \<open>The connections that are destroyed because the server let go of them and nobody keeps a pointer.\<close>

definition destroyed :: "(conn_ptr \<Rightarrow> bool) \<Rightarrow> tcp_server \<Rightarrow> conn_ptr list" where
  "destroyed kept s = filter (\<lambda>c. \<not> kept c \<and> c \<notin> snd ` set (connections s)) (srv_released s)"

text \<open>
  C37: with a longer address, as IPv6 has, the 32-byte buffer of \<open>newConnection\<close> cuts the
  connection number off: the second connection gets the name of the first and replaces it in the
  map, which releases the server's pointer to the first one. Unless somebody keeps a pointer to it (\<open>kept\<close>: user code such as the
  set of connections of the chat server, or a functor that has not run yet), the first connection is destroyed there, while it is open. If it is kept and then
  closes, its close takes the map entry of the second connection away, which is destroyed in turn unless it is kept; and if it is kept
  and closes, the assertion in \<open>removeConnectionInLoop\<close> fails.
\<close>

theorem server_name_collision:
  assumes "30 \<le> length hostport"
  shows "\<exists>s1 s2. newConnection True f (TcpServer_ctor hostport name loop) = Some (0, s1) \<and> destroyed kept s1 = [] \<and>
    newConnection True g s1 = Some (1, s2) \<and> sc_name (conn_heap s2 ! 0) = sc_name (conn_heap s2 ! 1) \<and>
    map_find (sc_name (conn_heap s2 ! 0)) (connections s2) = Some 1 \<and>
    destroyed kept s2 = (if kept 0 then [] else [0]) \<and>
    (kept 0 \<longrightarrow> (\<exists>s3. removeConnectionInLoop True 0 s2 = Some s3 \<and> destroyed kept s3 = (if kept 1 then [] else [1]) \<and>
       (kept 1 \<longrightarrow> removeConnectionInLoop True 1 s3 = None)))"
  using assms
  by (simp add: newConnection_def TcpServer_ctor_def EventLoopThreadPool_ctor_def getNextLoop_def Let_def
      connSuffix_truncated removeConnectionInLoop_def the_list_def destroyed_def)

theorem server_name_collision_witness:
  "\<exists>s1 s2 s3. newConnection True 5 (TcpServer_ctor ''2001:db8:85a3:8d3:1319:8a2e:370:7348:80'' ''s'' 0) = Some (0, s1) \<and>
    newConnection True 6 s1 = Some (1, s2) \<and> destroyed (\<lambda>c. False) s2 = [0] \<and> destroyed (\<lambda>c. True) s2 = [] \<and>
    removeConnectionInLoop True 0 s2 = Some s3 \<and> removeConnectionInLoop True 1 s3 = None"
proof -
  let ?h = "''2001:db8:85a3:8d3:1319:8a2e:370:7348:80''"
  have h: "30 \<le> length ?h" by simp
  from server_name_collision [OF h, of 5 "''s''" 0 "\<lambda>c. True" 6] server_name_collision [OF h, of 5 "''s''" 0 "\<lambda>c. False" 6]
  show ?thesis by auto
qed

text \<open>
  Connections are distributed round robin: a started pool hands out its loops in turn,
  starting with the one after the last handed out.
\<close>

theorem pool_round_robin:
  assumes "numThreads p > 0" "loops p = []" "next_loop p = 0" "\<not> pool_started p"
  shows "\<exists>p1 inits p2. pool_start True startLoop cb p = Some (p1, inits) \<and>
    take_loops k p1 = Some (map (\<lambda>i. startLoop (i mod nat (numThreads p))) [0..<k], p2)"
proof -
  let ?p1 = "p\<lparr>pool_started := True, loops := map startLoop [0..<nat (numThreads p)]\<rparr>"
  have "loops ?p1 \<noteq> []" "next_loop ?p1 < length (loops ?p1)" using assms by simp_all
  from take_loops_ok [OF this, of k] obtain p2 where
    "take_loops k ?p1 = Some (map (\<lambda>i. loops ?p1 ! ((next_loop ?p1 + i) mod length (loops ?p1))) [0..<k], p2)" by blast
  moreover have "loops ?p1 ! ((next_loop ?p1 + i) mod length (loops ?p1)) = startLoop (i mod nat (numThreads p))" for i
    using assms by simp
  ultimately show ?thesis using assms by (simp add: pool_start_def Let_def)
qed

theorem pool_round_robin_witness:
  "\<exists>p1 inits p2. pool_start True (\<lambda>i. i + 100) False (pool_setThreadNum 3 (EventLoopThreadPool_ctor 0)) = Some (p1, inits) \<and>
    take_loops 4 p1 = Some ([100, 101, 102, 100], p2)"
proof -
  have "map (\<lambda>i. i mod nat (numThreads (pool_setThreadNum 3 (EventLoopThreadPool_ctor 0))) + 100) [0..<4] = [100, 101, 102, 100]"
    by (simp add: pool_setThreadNum_def upt_rec)
  with pool_round_robin [of "pool_setThreadNum 3 (EventLoopThreadPool_ctor 0)" "\<lambda>i. i + 100" False 4] show ?thesis
    by (simp add: pool_setThreadNum_def EventLoopThreadPool_ctor_def)
qed

text \<open>
  Running out of descriptors does not kill the server and does not leave the pending
  connection spinning: on \<open>EMFILE\<close> the reserved descriptor is closed, the pending connection is
  accepted with it and closed at once, and the reserve is opened again. Other expected errors
  change nothing, and an error that is not expected is fatal.
\<close>

theorem acceptor_errors:
  "Acceptor_handleRead True (Inl EMFILE) c n cb a =
     Some ([CloseFd (idleFd a), AcceptIdle c, CloseFd c, OpenNull n], a\<lparr>idleFd := n\<rparr>) \<and>
   (\<forall>e. e \<noteq> EMFILE \<longrightarrow> Acceptor_handleRead True (Inl e) c n cb a =
     (if e \<in> {EAGAIN, ECONNABORTED, EINTR, EPROTO, EPERM} then Some ([], a) else None))"
  by (auto simp: Acceptor_handleRead_def sockets_accept_def errnos)

theorem acceptor_errors_witness:
  "Acceptor_handleRead True (Inl 4) 5 6 True \<lparr>accept_fd = 3, listenning = True, idleFd = 9, accept_reading = True\<rparr> =
     Some ([], \<lparr>accept_fd = 3, listenning = True, idleFd = 9, accept_reading = True\<rparr>)"
  using acceptor_errors [of 5 6 True "\<lparr>accept_fd = 3, listenning = True, idleFd = 9, accept_reading = True\<rparr>"]
  by (simp add: errnos)

end
