(* ===== verification/ServerLife.thy ===== *)
theory ServerLife
  imports TcpServer TcpConnection
begin

text \<open>
  The life of the connections of a \<open>TcpServer\<close>: \<open>TcpServer.cc\<close> and \<open>TcpConnection.cc\<close> together, over
  several loops. The server runs in the base loop, every connection in the loop that the pool gave it, and they hand
  each other work through the loops' queues of functors: \<open>connectionEstablished\<close> to the connection's loop,
  \<open>removeConnectionInLoop\<close> to the base loop, \<open>connectionDestroyed\<close> back to the connection's loop. A run is any
  interleaving of accepted sockets, events of the channels, calls of the connections in their loops, and functors that the loops run, each loop
  in the order of its queue.
\<close>

subsection \<open>The server and its loops\<close>

datatype life_functor = Established conn_ptr | RemoveInLoop conn_ptr | Destroyed conn_ptr | ConnTask conn_ptr conn_functor

record server_world =
  sw_server :: tcp_server
  sw_conns :: "tcp_conn list"
  sw_queue :: "loop_id \<Rightarrow> life_functor list"

definition base_loop :: "server_world \<Rightarrow> loop_id" where
  "base_loop w = baseLoop (srv_pool (sw_server w))"

definition loop_of :: "server_world \<Rightarrow> conn_ptr \<Rightarrow> loop_id" where
  "loop_of w c = sc_loop (conn_heap (sw_server w) ! c)"

definition push :: "loop_id \<Rightarrow> life_functor \<Rightarrow> server_world \<Rightarrow> server_world" where
  "push l f w = w\<lparr>sw_queue := (sw_queue w)(l := sw_queue w l @ [f])\<rparr>"

text \<open>\<open>TcpServer::removeConnectionInLoop\<close> and \<open>removeConnection\<close>, called in the thread of the loop \<open>cur\<close>.\<close>

definition life_removeInLoop :: "loop_id \<Rightarrow> conn_ptr \<Rightarrow> server_world \<Rightarrow> server_world option" where
  "life_removeInLoop cur c w = do {
     s \<leftarrow> removeConnectionInLoop (cur = base_loop w) c (sw_server w);
     Some (push (loop_of w c) (Destroyed c) (w\<lparr>sw_server := s\<rparr>)) }"

definition life_removeConnection :: "loop_id \<Rightarrow> conn_ptr \<Rightarrow> server_world \<Rightarrow> server_world option" where
  "life_removeConnection cur c w =
     (if cur = base_loop w then life_removeInLoop cur c w else Some (push (base_loop w) (RemoveInLoop c) w))"

text \<open>What a call of a connection hands to its loop and to the server.\<close>

fun absorb :: "loop_id \<Rightarrow> conn_ptr \<Rightarrow> conn_effect list \<Rightarrow> server_world \<Rightarrow> server_world option" where
  "absorb cur c [] w = Some w"
| "absorb cur c (e # es) w = do {
     w \<leftarrow> (case e of EQueue f \<Rightarrow> Some (push (loop_of w c) (ConnTask c f) w)
          | ECloseCallback \<Rightarrow> life_removeConnection cur c w
          | _ \<Rightarrow> Some w);
     absorb cur c es w }"

definition on_conn :: "loop_id \<Rightarrow> conn_ptr \<Rightarrow> (tcp_conn \<Rightarrow> tcp_conn option) \<Rightarrow> server_world \<Rightarrow> server_world option" where
  "on_conn cur c op w = do {
     conn \<leftarrow> op (sw_conns w ! c);
     absorb cur c (drop (length (effects (sw_conns w ! c))) (effects conn)) (w\<lparr>sw_conns := (sw_conns w)[c := conn]\<rparr>) }"

definition run_life :: "user_code \<Rightarrow> (conn_ptr \<Rightarrow> sys_write) \<Rightarrow> loop_id \<Rightarrow> life_functor \<Rightarrow> server_world \<Rightarrow> server_world option" where
  "run_life u W cur f w =
     (case f of
        Established c \<Rightarrow> on_conn cur c (connectionEstablished u (W c) (cur = loop_of w c)) w
      | RemoveInLoop c \<Rightarrow> life_removeInLoop cur c w
      | Destroyed c \<Rightarrow> on_conn cur c (connectionDestroyed u (W c) (cur = loop_of w c)) w
      | ConnTask c f \<Rightarrow> on_conn cur c (run_functor u (W c) f) w)"

text \<open>\<open>TcpServer::newConnection\<close>, in the base loop.\<close>

definition life_newConnection :: "user_code \<Rightarrow> (conn_ptr \<Rightarrow> sys_write) \<Rightarrow> fd \<Rightarrow> server_world \<Rightarrow> server_world option" where
  "life_newConnection u W sockfd w = do {
     (c, s) \<leftarrow> newConnection True sockfd (sw_server w);
     conn \<leftarrow> TcpConnection_ctor (sc_name (conn_heap s ! c)) sockfd;
     let w = w\<lparr>sw_server := s, sw_conns := sw_conns w @ [conn]\<rparr>;
     if loop_of w c = base_loop w then run_life u W (base_loop w) (Established c) w
     else Some (push (loop_of w c) (Established c) w) }"

text \<open>
  The functor of \<open>makeWeakCallback\<close> that \<open>forceCloseWithDelay\<close> gives to the timer: it calls \<open>forceClose\<close> if the
  object still exists when the timer fires, \<open>locked\<close> being the outcome of \<open>lock\<close>.
\<close>

definition WeakCallback_call :: "bool \<Rightarrow> ('s \<Rightarrow> 's) \<Rightarrow> 's \<Rightarrow> 's" where
  "WeakCallback_call locked func ptr = (if locked then func ptr else ptr)"

datatype life_event =
    AcceptFd fd
  | RunFunctor loop_id
  | Handler conn_ptr conn_cb "size_t \<Rightarrow> int + bytes" int
  | ApiCall conn_ptr api_call
  | DelayedClose conn_ptr bool

definition exec_life :: "user_code \<Rightarrow> (conn_ptr \<Rightarrow> sys_write) \<Rightarrow> life_event \<Rightarrow> server_world \<Rightarrow> server_world option" where
  "exec_life u W e w =
     (case e of
        AcceptFd sockfd \<Rightarrow> life_newConnection u W sockfd w
      | RunFunctor l \<Rightarrow> (case sw_queue w l of
            [] \<Rightarrow> Some w
          | f # fs \<Rightarrow> run_life u W l f (w\<lparr>sw_queue := (sw_queue w)(l := fs)\<rparr>))
      | Handler c cb readv t \<Rightarrow> on_conn (loop_of w c) c (run_cb u (W c) readv t cb) w
      | ApiCall c a \<Rightarrow> on_conn (loop_of w c) c (exec_api (W c) True a) w
      | DelayedClose c locked \<Rightarrow> on_conn (loop_of w c) c (\<lambda>conn. Some (WeakCallback_call locked forceClose conn)) w)"

text \<open>
  The poller reports what a channel has registered for, hang-up and error as long as it is registered at all; user code
  knows a connection from its first callback on; a timer has been set when it fires. A server accepts fewer than a hundred million connections.
\<close>

definition can_happen :: "life_event \<Rightarrow> server_world \<Rightarrow> bool" where
  "can_happen e w \<longleftrightarrow>
     (case e of
        AcceptFd sockfd \<Rightarrow> length (sw_conns w) + 1 < 10 ^ 8
      | RunFunctor l \<Rightarrow> sw_queue w l \<noteq> []
      | Handler c cb readv t \<Rightarrow> c < length (sw_conns w) \<and>
          (let ch = conn_channel (sw_conns w ! c) in
           case cb of HandleRead \<Rightarrow> isReading ch | HandleWrite \<Rightarrow> isWriting ch | _ \<Rightarrow> \<not> isNoneEvent ch)
      | ApiCall c a \<Rightarrow> c < length (sw_conns w) \<and> conn_state (sw_conns w ! c) \<noteq> kConnecting
      | DelayedClose c locked \<Rightarrow> c < length (sw_conns w) \<and>
          list_ex (\<lambda>e. case e of ERunAfter seconds \<Rightarrow> True | _ \<Rightarrow> False) (effects (sw_conns w ! c)))"

definition life_start :: "string \<Rightarrow> string \<Rightarrow> loop_id list \<Rightarrow> loop_id \<Rightarrow> server_world" where
  "life_start hostport name ls base =
     (let s = TcpServer_ctor hostport name base in
      \<lparr>sw_server = s\<lparr>srv_pool := (srv_pool s)\<lparr>pool_started := True, loops := ls\<rparr>\<rparr>, sw_conns = [], sw_queue = (\<lambda>l. [])\<rparr>)"

inductive life_reachable :: "user_code \<Rightarrow> (conn_ptr \<Rightarrow> sys_write) \<Rightarrow> server_world \<Rightarrow> server_world \<Rightarrow> bool"
  for u W w0 where
  start: "life_reachable u W w0 w0"
| step: "life_reachable u W w0 w \<Longrightarrow> can_happen e w \<Longrightarrow> exec_life u W e w = Some w' \<Longrightarrow> life_reachable u W w0 w'"

subsection \<open>What a connection may do between its callbacks\<close>

definition is_callback :: "conn_effect \<Rightarrow> bool" where
  "is_callback e \<longleftrightarrow> (case e of EConnectionCallback b \<Rightarrow> True | EMessageCallback \<Rightarrow> True | _ \<Rightarrow> False)"

definition callbacks :: "tcp_conn \<Rightarrow> conn_effect list" where
  "callbacks c = filter is_callback (effects c)"

text \<open>The functors that calls in the loop's own thread queue.\<close>

definition in_loop_functor :: "conn_functor \<Rightarrow> bool" where
  "in_loop_functor f \<longleftrightarrow> (case f of SendInLoop d \<Rightarrow> False | SendDangling \<Rightarrow> False | _ \<Rightarrow> True)"

definition harmless :: "conn_effect \<Rightarrow> bool" where
  "harmless e \<longleftrightarrow> (case e of EQueue f \<Rightarrow> in_loop_functor f | ECloseCallback \<Rightarrow> False | ERemove \<Rightarrow> False | _ \<Rightarrow> \<not> is_callback e)"

definition tame :: "tcp_conn \<Rightarrow> tcp_conn \<Rightarrow> bool" where
  "tame c c' \<longleftrightarrow> (\<exists>es. effects c' = effects c @ es \<and> list_all harmless es) \<and>
     isReading (conn_channel c') = isReading (conn_channel c) \<and> (conn_state c' = conn_state c \<or> conn_state c' = kDisconnecting) \<and>
     (isNoneEvent (conn_channel c) \<and> conn_state c \<noteq> kConnected \<longrightarrow> isNoneEvent (conn_channel c'))"

lemma tame_refl: "tame c c"
  by (auto simp: tame_def intro: exI [of _ "[]"])

lemma tame_trans: "tame c1 c2 \<Longrightarrow> tame c2 c3 \<Longrightarrow> tame c1 c3"
  unfolding tame_def by (force simp: list_all_append)

lemma tame_emit: "tame c c1 \<Longrightarrow> harmless e \<Longrightarrow> tame c (emit e c1)"
  by (auto simp: tame_def)

lemma tame_upd:
  "tame c c1 \<Longrightarrow> tame c (c1\<lparr>writes := n\<rparr>)" "tame c c1 \<Longrightarrow> tame c (c1\<lparr>outputBuffer := b\<rparr>)" "tame c c1 \<Longrightarrow> tame c (c1\<lparr>inputBuffer := b\<rparr>)"
  "tame c c1 \<Longrightarrow> tame c (c1\<lparr>conn_state := kDisconnecting\<rparr>)" "tame c c1 \<Longrightarrow> s = conn_state c1 \<Longrightarrow> tame c (c1\<lparr>conn_state := s\<rparr>)"
  by (auto simp: tame_def)

lemma tame_interest:
  assumes "tame c c1" "ev AND kReadEvent = ch_events (conn_channel c1) AND kReadEvent"
    "\<not> isNoneEvent (conn_channel c) \<or> conn_state c1 = kConnected"
  shows "tame c (set_interest ev c1)"
  using assms by (auto simp: tame_def isReading_def harmless_def is_callback_def)

lemmas tame_intros = tame_refl tame_emit tame_upd tame_interest

lemma harmless_simps [simp]:
  "harmless (EWrote d)" "harmless (EQueue WriteComplete)" "harmless (EQueue ShutdownInLoop)" "harmless (EQueue (HighWaterMark n))"
  "harmless EShutdownWrite" "harmless (ERunAfter s)" "harmless EWriteCompleteCallback" "harmless (EHighWaterMarkCallback n)"
  "harmless (EUpdate ev)" "\<not> harmless ECloseCallback" "\<not> harmless ERemove"
  by (simp_all add: harmless_def is_callback_def in_loop_functor_def)

lemma send_rest_tame:
  "send_rest d r e c1 = Some c' \<Longrightarrow> tame c c1 \<Longrightarrow> conn_state c1 = kConnected \<Longrightarrow> tame c c'"
  by (auto simp: send_rest_def Let_def bind_eq_Some_conv event_bits split: if_splits intro!: tame_intros)

lemma sendInLoop_tame: "sendInLoop W l d c = Some c' \<Longrightarrow> conn_state c = kConnected \<Longrightarrow> tame c c'"
  by (auto simp: sendInLoop_def Let_def bind_eq_Some_conv split: if_splits write_result.splits
      elim!: send_rest_tame intro!: tame_intros)

lemma shutdownInLoop_tame: "shutdownInLoop l c1 = Some c' \<Longrightarrow> tame c c1 \<Longrightarrow> tame c c'"
  by (auto simp: shutdownInLoop_def bind_eq_Some_conv split: if_splits intro!: tame_intros)

lemma exec_api_tame: "exec_api W True a c = Some c' \<Longrightarrow> tame c c'"
  by (cases a) (auto simp: exec_api_def send_string_def conn_shutdown_def forceClose_def forceCloseWithDelay_def Let_def
      split: if_splits elim!: sendInLoop_tame shutdownInLoop_tame intro!: tame_intros)

lemma exec_apis_tame: "exec_apis W True as c1 = Some c' \<Longrightarrow> tame c c1 \<Longrightarrow> tame c c'"
proof (induction as arbitrary: c1)
  case (Cons a as)
  then show ?case using exec_api_tame tame_trans by (fastforce simp: bind_eq_Some_conv)
qed simp

lemma run_functor_tame: "run_functor u W f c = Some c' \<Longrightarrow> in_loop_functor f \<Longrightarrow> tame c c'"
  by (cases f) (auto simp: run_functor_def in_loop_functor_def elim!: shutdownInLoop_tame exec_apis_tame intro!: tame_intros)

lemma handleWrite_tame:
  assumes "handleWrite W True c = Some c'"
  shows "tame c c'"
proof (cases "isWriting (conn_channel c)")
  case True
  then have "\<not> isNoneEvent (conn_channel c)" by (auto simp: isWriting_def isNoneEvent_def kNoneEvent_def)
  with assms True show ?thesis
    by (auto simp: handleWrite_def Let_def event_bits split: if_splits write_result.splits
        elim!: shutdownInLoop_tame intro!: tame_intros)
qed (use assms in \<open>auto simp: handleWrite_def intro: tame_refl\<close>)

subsection \<open>Phases of a connection\<close>

datatype phase = PQueued | PUp | PClosing | PRemoving | PGone

definition up_trace :: "nat \<Rightarrow> conn_effect list" where
  "up_trace n = EConnectionCallback True # replicate n EMessageCallback"

definition down_trace :: "nat \<Rightarrow> conn_effect list" where
  "down_trace n = up_trace n @ [EConnectionCallback False]"

definition phase_ok :: "phase \<Rightarrow> tcp_conn \<Rightarrow> bool" where
  "phase_ok p c \<longleftrightarrow> (case p of
     PQueued \<Rightarrow> conn_state c = kConnecting \<and> isNoneEvent (conn_channel c) \<and> effects c = []
   | PUp \<Rightarrow> (conn_state c = kConnected \<or> conn_state c = kDisconnecting) \<and> isReading (conn_channel c) \<and>
       (\<exists>n. callbacks c = up_trace n) \<and> ERemove \<notin> set (effects c)
   | _ \<Rightarrow> (conn_state c = kDisconnected \<or> conn_state c = kDisconnecting) \<and> isNoneEvent (conn_channel c) \<and>
       (\<exists>n. callbacks c = down_trace n) \<and> (ERemove \<in> set (effects c) \<longleftrightarrow> p = PGone))"

lemma harmlessD: "harmless e \<Longrightarrow> \<not> is_callback e" "harmless e \<Longrightarrow> e \<noteq> ERemove"
  by (auto simp: harmless_def is_callback_def split: conn_effect.splits)

lemma tame_callbacks: "tame c c' \<Longrightarrow> callbacks c' = callbacks c \<and> (ERemove \<in> set (effects c') \<longleftrightarrow> ERemove \<in> set (effects c))"
proof -
  assume "tame c c'"
  then obtain es where es: "effects c' = effects c @ es" "\<forall>e \<in> set es. harmless e" by (auto simp: tame_def list_all_iff)
  then have "filter is_callback es = []" "ERemove \<notin> set es" using harmlessD by (auto simp: filter_empty_conv)
  then show ?thesis using es(1) by (simp add: callbacks_def)
qed

lemma user_calls_tame: "exec_apis W True as c = Some c' \<Longrightarrow> tame c c'"
  by (rule exec_apis_tame [OF _ tame_refl])

lemma upd_channel_state [simp]: "conn_state (upd_channel f c) = conn_state c" "effects (upd_channel f c) = effects c"
  by (simp_all add: upd_channel_def)

lemma tame_phase:
  assumes "tame c c'" "phase_ok p c" "p \<noteq> PQueued"
  shows "phase_ok p c'"
  using assms tame_callbacks [OF assms(1)] by (cases p) (auto simp: phase_ok_def tame_def)

text \<open>Effects that hand nothing but the connection's own functors to its loop.\<close>

definition fine :: "conn_effect \<Rightarrow> bool" where
  "fine e \<longleftrightarrow> e \<noteq> ECloseCallback \<and> (\<forall>f. e = EQueue f \<longrightarrow> in_loop_functor f)"

lemma harmless_fine: "harmless e \<Longrightarrow> fine e"
  by (auto simp: harmless_def fine_def)

lemma tame_fine: "tame c c' \<Longrightarrow> \<exists>es. effects c' = effects c @ es \<and> list_all fine es"
  using harmless_fine by (auto simp: tame_def list_all_iff)

lemma established_phase:
  assumes "phase_ok PQueued c" "connectionEstablished u W True c = Some c'"
  shows "phase_ok PUp c' \<and> (\<exists>es. effects c' = effects c @ es \<and> list_all fine es)"
proof -
  let ?c1 = "emit (EConnectionCallback True) (set_interest (ch_events (conn_channel (upd_channel Channel_tie (c\<lparr>conn_state := kConnected\<rparr>))) OR kReadEvent)
    (upd_channel Channel_tie (c\<lparr>conn_state := kConnected\<rparr>)))"
  have c': "tame ?c1 c'"
    using assms(2) by (auto simp: connectionEstablished_def connectionCallback_def connected_def Let_def bind_eq_Some_conv
        dest: user_calls_tame)
  have "kReadEvent \<noteq> (0 :: flags)" by (simp add: kReadEvent_def poll_flags)
  then have "phase_ok PUp ?c1"
    using assms(1) by (auto simp: phase_ok_def callbacks_def is_callback_def up_trace_def upd_channel_def isReading_def
        bit.conj_disj_distrib2 or_eq_0_iff intro!: exI [of _ 0])
  then have "phase_ok PUp c'" using tame_phase [OF c'] by simp
  moreover have "list_all fine [EUpdate ev, EConnectionCallback True]" for ev by (simp add: fine_def)
  ultimately show ?thesis using tame_fine [OF c'] by (fastforce simp: upd_channel_def)
qed

lemma close_phase:
  assumes "phase_ok PUp c" "handleClose u W True c = Some c'"
  shows "phase_ok PClosing c' \<and> (\<exists>es. effects c' = effects c @ es @ [ECloseCallback] \<and> list_all fine es)"
proof -
  let ?c1 = "emit (EConnectionCallback False) (set_interest kNoneEvent (c\<lparr>conn_state := kDisconnected\<rparr>))"
  obtain c2 where c2: "tame ?c1 c2" "c' = emit ECloseCallback c2"
    using assms(2) by (auto simp: handleClose_def connectionCallback_def connected_def Let_def bind_eq_Some_conv
        dest: user_calls_tame)
  have "phase_ok PClosing ?c1"
    using assms(1) by (auto simp: phase_ok_def callbacks_def is_callback_def down_trace_def isNoneEvent_def)
  then have "phase_ok PClosing c2" using tame_phase [OF c2(1)] by simp
  then have "phase_ok PClosing c'" by (simp add: c2(2) phase_ok_def callbacks_def is_callback_def)
  moreover have "list_all fine [EUpdate ev, EConnectionCallback False]" for ev by (simp add: fine_def)
  ultimately show ?thesis using tame_fine [OF c2(1)] c2(2) by fastforce
qed

lemma handleRead_phase:
  assumes "phase_ok PUp c" "conn_handleRead u W readv True t c = Some c'"
  shows "phase_ok PUp c' \<and> (\<exists>es. effects c' = effects c @ es \<and> list_all fine es) \<or>
    phase_ok PClosing c' \<and> (\<exists>es. effects c' = effects c @ es @ [ECloseCallback] \<and> list_all fine es)"
proof -
  obtain n e b where r: "readFd readv 0 (inputBuffer c) = Some (n, e, b)" using assms(2) by (auto simp: conn_handleRead_def bind_eq_Some_conv)
  let ?c = "c\<lparr>inputBuffer := b\<rparr>"
  have up: "phase_ok PUp ?c" using assms(1) by (simp add: phase_ok_def callbacks_def)
  consider "n > 0" | "n = 0" | "n < 0" by linarith
  then show ?thesis
  proof cases
    case 1
    then have t: "tame (emit EMessageCallback ?c) c'"
      using assms(2) r by (auto simp: conn_handleRead_def Let_def dest: user_calls_tame)
    obtain m where "callbacks c = up_trace m" using assms(1) by (auto simp: phase_ok_def)
    then have "callbacks (emit EMessageCallback ?c) = up_trace (Suc m)"
      by (simp add: callbacks_def is_callback_def up_trace_def replicate_append_same)
    then have "phase_ok PUp (emit EMessageCallback ?c)" using assms(1) by (auto simp: phase_ok_def)
    moreover have "fine EMessageCallback" by (simp add: fine_def)
    ultimately show ?thesis using tame_phase [OF t] tame_fine [OF t] by fastforce
  next
    case 2
    then have "handleClose u W True ?c = Some c'" using assms(2) r by (simp add: conn_handleRead_def)
    from close_phase [OF up this] show ?thesis by simp
  next
    case 3
    then have "c' = ?c" using assms(2) r by (simp add: conn_handleRead_def conn_handleError_def)
    then show ?thesis using up by auto
  qed
qed

lemma destroyed_phase:
  assumes "phase_ok PRemoving c"
  shows "\<exists>c'. connectionDestroyed u W True c = Some c' \<and> phase_ok PGone c' \<and> effects c' = effects c @ [ERemove]"
  using assms by (auto simp: connectionDestroyed_def phase_ok_def callbacks_def is_callback_def upd_channel_def isNoneEvent_def)

subsection \<open>The invariant\<close>

text \<open>The functor that carries a connection on to its next phase, and the loop in whose queue it is.\<close>

definition expected :: "phase \<Rightarrow> loop_id \<Rightarrow> loop_id \<Rightarrow> conn_ptr \<Rightarrow> loop_id \<Rightarrow> life_functor list" where
  "expected p base io c l = (case p of
     PQueued \<Rightarrow> if l = io then [Established c] else []
   | PClosing \<Rightarrow> if l = base then [RemoveInLoop c] else []
   | PRemoving \<Rightarrow> if l = io then [Destroyed c] else []
   | _ \<Rightarrow> [])"

fun life_of :: "conn_ptr \<Rightarrow> life_functor \<Rightarrow> bool" where
  "life_of c (Established d) \<longleftrightarrow> d = c"
| "life_of c (RemoveInLoop d) \<longleftrightarrow> d = c"
| "life_of c (Destroyed d) \<longleftrightarrow> d = c"
| "life_of c (ConnTask d t) \<longleftrightarrow> False"

definition queue_inv :: "phase list \<Rightarrow> server_world \<Rightarrow> bool" where
  "queue_inv ph w \<longleftrightarrow> (\<forall>l c.
     filter (life_of c) (sw_queue w l) = (if c < length ph then expected (ph ! c) (base_loop w) (loop_of w c) c l else []) \<and>
     (\<forall>t. ConnTask c t \<in> set (sw_queue w l) \<longrightarrow> c < length ph \<and> l = loop_of w c \<and> in_loop_functor t \<and> ph ! c \<noteq> PQueued))"

definition is_open :: "phase \<Rightarrow> bool" where
  "is_open p \<longleftrightarrow> p \<noteq> PRemoving \<and> p \<noteq> PGone"

definition open_conns :: "phase list \<Rightarrow> conn_ptr list" where
  "open_conns ph = filter (\<lambda>c. is_open (ph ! c)) [0..<length ph]"

definition life_inv :: "phase list \<Rightarrow> server_world \<Rightarrow> bool" where
  "life_inv ph w \<longleftrightarrow> length (sw_conns w) = length ph \<and> length (conn_heap (sw_server w)) = length ph \<and> length ph < 10 ^ 8 \<and>
     srv_inv (open_conns ph) (sw_server w) \<and> (\<forall>c < length ph. phase_ok (ph ! c) (sw_conns w ! c)) \<and> queue_inv ph w"

lemma srv_inv_set: "srv_inv L s \<Longrightarrow> distinct L' \<Longrightarrow> set L' = set L \<Longrightarrow> srv_inv L' s"
  by (simp add: srv_inv_def)

lemma set_open_conns: "set (open_conns ph) = {c. c < length ph \<and> is_open (ph ! c)}" "distinct (open_conns ph)"
  by (auto simp: open_conns_def)

lemma queue_inv_change:
  assumes "queue_inv ph w" "c < length ph" "p \<noteq> PQueued" "base_loop w' = base_loop w" "loop_of w' = loop_of w"
    and "\<And>l. filter (life_of c) (sw_queue w' l) = expected p (base_loop w) (loop_of w c) c l"
    and "\<And>l d. d \<noteq> c \<Longrightarrow> filter (life_of d) (sw_queue w' l) = filter (life_of d) (sw_queue w l)"
    and "\<And>l d t. ConnTask d t \<in> set (sw_queue w' l) \<Longrightarrow>
      ConnTask d t \<in> set (sw_queue w l) \<or> d = c \<and> l = loop_of w c \<and> in_loop_functor t"
  shows "queue_inv (ph[c := p]) w'"
  unfolding queue_inv_def
proof (intro allI conjI impI)
  fix l d t
  show "filter (life_of d) (sw_queue w' l) =
      (if d < length (ph[c := p]) then expected (ph[c := p] ! d) (base_loop w') (loop_of w' d) d l else [])"
    using assms(1,2,4,5) assms(6) [of l] assms(7) [of d l] by (cases "d = c") (simp_all add: queue_inv_def)
  assume "ConnTask d t \<in> set (sw_queue w' l)"
  then have "ConnTask d t \<in> set (sw_queue w l) \<or> d = c \<and> l = loop_of w c \<and> in_loop_functor t" by (rule assms(8))
  then have *: "d < length ph \<and> l = loop_of w d \<and> in_loop_functor t \<and> (d = c \<or> ph ! d \<noteq> PQueued)"
    using assms(1,2) unfolding queue_inv_def by blast
  then show "d < length (ph[c := p])" "l = loop_of w' d" "in_loop_functor t" "ph[c := p] ! d \<noteq> PQueued"
    using assms(2,3,5) by (auto simp: nth_list_update split: if_splits)
qed

lemma life_inv_change:
  assumes "life_inv ph w" "c < length ph" "phase_ok p conn" "sw_conns w' = (sw_conns w)[c := conn]"
    "conn_heap (sw_server w') = conn_heap (sw_server w)" "srv_inv (open_conns (ph[c := p])) (sw_server w')" "queue_inv (ph[c := p]) w'"
  shows "life_inv (ph[c := p]) w'"
  using assms by (auto simp: life_inv_def nth_list_update)

text \<open>The connection's own functors join the queue of its loop.\<close>

definition add_tasks :: "conn_ptr \<Rightarrow> conn_functor list \<Rightarrow> server_world \<Rightarrow> server_world" where
  "add_tasks c ts w = w\<lparr>sw_queue := (sw_queue w)(loop_of w c := sw_queue w (loop_of w c) @ map (ConnTask c) ts)\<rparr>"

lemma add_tasks_simps [simp]:
  "sw_server (add_tasks c ts w) = sw_server w" "sw_conns (add_tasks c ts w) = sw_conns w"
  "base_loop (add_tasks c ts w) = base_loop w" "loop_of (add_tasks c ts w) = loop_of w"
  by (simp_all add: add_tasks_def base_loop_def loop_of_def fun_eq_iff)

lemma add_tasks_life: "filter (life_of d) (sw_queue (add_tasks c ts w) l) = filter (life_of d) (sw_queue w l)"
  by (auto simp: add_tasks_def filter_empty_conv)

lemma add_tasks_tasks:
  "ConnTask d t \<in> set (sw_queue (add_tasks c ts w) l) \<longleftrightarrow>
     ConnTask d t \<in> set (sw_queue w l) \<or> d = c \<and> l = loop_of w c \<and> t \<in> set ts"
  by (auto simp: add_tasks_def)

lemma absorb_fine: "list_all fine es \<Longrightarrow> absorb cur c es w = Some (add_tasks c (queued es) w)"
proof (induction es arbitrary: w)
  case Nil
  then show ?case by (simp add: add_tasks_def queued_def)
next
  case (Cons e es)
  have 1: "absorb cur c (e # es) w = absorb cur c es (add_tasks c (queued [e]) w)"
    using Cons.prems by (cases e) (simp_all add: fine_def push_def add_tasks_def queued_def)
  have "add_tasks c ts (add_tasks c ts' w) = add_tasks c (ts' @ ts) w" for ts ts'
    by (simp add: add_tasks_def loop_of_def)
  then show ?case using 1 Cons by (simp add: queued_def)
qed

lemma queued_fine: "list_all fine es \<Longrightarrow> t \<in> set (queued es) \<Longrightarrow> in_loop_functor t"
  by (auto simp: queued_def list_all_iff fine_def split: conn_effect.splits)

lemma absorb_Nil: "absorb cur c [] = Some"
  by (simp add: fun_eq_iff)

lemma absorb_append: "absorb cur c (es @ fs) w = absorb cur c es w \<bind> absorb cur c fs"
  by (induction es arbitrary: w) (auto split: bind_splits)

text \<open>One connection goes from a phase to the next, or stays; \<open>w\<close> is the state with the functor that did it taken off its queue.\<close>

lemma on_conn_fine:
  assumes inv: "life_inv ph w0" and c: "c < length ph" and w: "w = w0\<lparr>sw_queue := q\<rparr>"
    and ok: "phase_ok p conn" "op (sw_conns w ! c) = Some conn" "effects conn = effects (sw_conns w ! c) @ es" "list_all fine es"
    and p: "p \<noteq> PQueued" "is_open p = is_open (ph ! c)"
    and q: "\<And>l. filter (life_of c) (q l) = expected p (base_loop w0) (loop_of w0 c) c l"
      "\<And>l d. d \<noteq> c \<Longrightarrow> filter (life_of d) (q l) = filter (life_of d) (sw_queue w0 l)" "\<And>l. set (q l) \<subseteq> set (sw_queue w0 l)"
  shows "\<exists>w'. on_conn cur c op w = Some w' \<and> life_inv (ph[c := p]) w'"
proof -
  let ?w1 = "w\<lparr>sw_conns := (sw_conns w)[c := conn]\<rparr>"
  let ?w' = "add_tasks c (queued es) ?w1"
  have "on_conn cur c op w = Some ?w'" using ok absorb_fine [OF ok(4)] by (simp add: on_conn_def)
  moreover have "life_inv (ph[c := p]) ?w'"
  proof (rule life_inv_change [OF inv c ok(1)])
    have "open_conns (ph[c := p]) = open_conns ph" using p(2) c by (auto simp: open_conns_def nth_list_update intro!: filter_cong)
    then show "srv_inv (open_conns (ph[c := p])) (sw_server ?w')" using inv w by (simp add: life_inv_def)
    show "queue_inv (ph[c := p]) ?w'"
    proof (rule queue_inv_change [OF _ c p(1)])
      show "queue_inv ph w0" using inv by (simp add: life_inv_def)
      show "base_loop ?w' = base_loop w0" "loop_of ?w' = loop_of w0" using w by (simp_all add: base_loop_def loop_of_def fun_eq_iff)
    qed (use q(1,2) subsetD [OF q(3)] w queued_fine [OF ok(4)] in \<open>auto simp: add_tasks_life add_tasks_tasks loop_of_def\<close>)
  qed (use w in simp_all)
  ultimately show ?thesis by blast
qed

text \<open>The server forgets a connection and hands its destruction to its loop.\<close>

lemma removeInLoop_inv:
  assumes inv: "life_inv ph w0" and c: "c < length ph" and w: "w = w0\<lparr>sw_queue := q, sw_conns := (sw_conns w0)[c := conn]\<rparr>"
    and ok: "phase_ok PRemoving conn" and p: "is_open (ph ! c)"
    and q: "\<And>l. filter (life_of c) (q l) = []" "\<And>l d. d \<noteq> c \<Longrightarrow> filter (life_of d) (q l) = filter (life_of d) (sw_queue w0 l)"
      "\<And>l d t. ConnTask d t \<in> set (q l) \<Longrightarrow> ConnTask d t \<in> set (sw_queue w0 l) \<or> d = c \<and> l = loop_of w0 c \<and> in_loop_functor t"
  shows "\<exists>w'. life_removeInLoop (base_loop w0) c w = Some w' \<and> life_inv (ph[c := PRemoving]) w'"
proof -
  have I: "srv_inv (open_conns ph) (sw_server w0)" "length (conn_heap (sw_server w0)) < 10 ^ 8" "c \<in> set (open_conns ph)"
    using inv c p by (simp_all add: life_inv_def set_open_conns)
  from removeConnection_inv [OF I(1,3,2)] obtain s where
    s: "removeConnectionInLoop True c (sw_server w0) = Some s" "srv_inv (remove1 c (open_conns ph)) s" "conn_heap s = conn_heap (sw_server w0)" by blast
  have pool: "srv_pool s = srv_pool (sw_server w0)"
    using s(1) by (auto simp: removeConnectionInLoop_def Let_def bind_eq_Some_conv)
  let ?w' = "push (loop_of w c) (Destroyed c) (w\<lparr>sw_server := s\<rparr>)"
  have lo: "loop_of ?w' = loop_of w0" "base_loop ?w' = base_loop w0" "loop_of w = loop_of w0" "base_loop w = base_loop w0"
    using s(3) pool w by (simp_all add: push_def loop_of_def base_loop_def fun_eq_iff)
  have "life_removeInLoop (base_loop w0) c w = Some ?w'" using s(1) lo(4) w by (simp add: life_removeInLoop_def)
  moreover have "life_inv (ph[c := PRemoving]) ?w'"
  proof (rule life_inv_change [OF inv c ok])
    have "set (open_conns (ph[c := PRemoving])) = set (remove1 c (open_conns ph))"
      using c by (auto simp: set_open_conns nth_list_update is_open_def split: if_splits)
    then show "srv_inv (open_conns (ph[c := PRemoving])) (sw_server ?w')"
      using s(2) set_open_conns(2) srv_inv_set by (fastforce simp: push_def)
    show "queue_inv (ph[c := PRemoving]) ?w'"
    proof (rule queue_inv_change [OF _ c])
      show "queue_inv ph w0" using inv by (simp add: life_inv_def)
      show "filter (life_of c) (sw_queue ?w' l) = expected PRemoving (base_loop w0) (loop_of w0 c) c l" for l
        using q(1) w lo(3) by (simp add: push_def expected_def)
      show "filter (life_of d) (sw_queue ?w' l) = filter (life_of d) (sw_queue w0 l)" if "d \<noteq> c" for l d
        using that q(2) w by (simp add: push_def)
      show "ConnTask d t \<in> set (sw_queue w0 l) \<or> d = c \<and> l = loop_of w0 c \<and> in_loop_functor t"
        if "ConnTask d t \<in> set (sw_queue ?w' l)" for l d t
        using that q(3) w by (auto simp: push_def split: if_splits)
    qed (use lo in simp_all)
  qed (use w s(3) in \<open>simp_all add: push_def\<close>)
  ultimately show ?thesis by blast
qed

lemma life_invD:
  assumes "life_inv ph w" "c < length ph"
  shows "phase_ok (ph ! c) (sw_conns w ! c)" "filter (life_of c) (sw_queue w l) = expected (ph ! c) (base_loop w) (loop_of w c) c l"
    "ConnTask c t \<in> set (sw_queue w l) \<Longrightarrow> l = loop_of w c \<and> in_loop_functor t \<and> ph ! c \<noteq> PQueued"
  using assms by (simp_all add: life_inv_def queue_inv_def)

lemma on_conn_close:
  assumes inv: "life_inv ph w" and c: "c < length ph" "ph ! c = PUp"
    and ok: "phase_ok PClosing conn" "op (sw_conns w ! c) = Some conn"
      "effects conn = effects (sw_conns w ! c) @ es @ [ECloseCallback]" "list_all fine es"
  shows "\<exists>w' ph'. on_conn cur c op w = Some w' \<and> life_inv ph' w'"
proof -
  let ?w1 = "w\<lparr>sw_conns := (sw_conns w)[c := conn]\<rparr>"
  let ?w2 = "add_tasks c (queued es) ?w1"
  have lo: "loop_of ?w2 = loop_of w" "base_loop ?w2 = base_loop w" "loop_of ?w1 = loop_of w"
    by (simp_all add: loop_of_def base_loop_def fun_eq_iff)
  have e: "on_conn cur c op w = life_removeConnection cur c ?w2"
    using ok(2,3) absorb_fine [OF ok(4)] by (simp add: on_conn_def absorb_append absorb_Nil)
  have q: "filter (life_of d) (sw_queue ?w2 l) = filter (life_of d) (sw_queue w l)" for d l by (simp add: add_tasks_life)
  have none: "filter (life_of c) (sw_queue w l) = []" for l using life_invD(2) [OF inv c(1)] c(2) by (simp add: expected_def)
  have t: "ConnTask d t \<in> set (sw_queue w l) \<or> d = c \<and> l = loop_of w c \<and> in_loop_functor t"
    if "ConnTask d t \<in> set (sw_queue ?w2 l)" for d t l
    using that queued_fine [OF ok(4)] lo(3) by (auto simp: add_tasks_tasks)
  show ?thesis
  proof (cases "cur = base_loop w")
    case True
    have "phase_ok PRemoving conn" using ok(1) by (simp add: phase_ok_def)
    moreover have "?w2 = w\<lparr>sw_queue := sw_queue ?w2, sw_conns := (sw_conns w)[c := conn]\<rparr>" by (simp add: add_tasks_def)
    ultimately obtain w' where "life_removeInLoop (base_loop w) c ?w2 = Some w'" "life_inv (ph[c := PRemoving]) w'"
      using removeInLoop_inv [where w = ?w2 and q = "sw_queue ?w2" and conn = conn, OF inv c(1)] c(2) q none t by (auto simp: is_open_def)
    then show ?thesis using e True lo by (auto simp: life_removeConnection_def)
  next
    case False
    let ?w' = "push (base_loop w) (RemoveInLoop c) ?w2"
    have "life_inv (ph[c := PClosing]) ?w'"
    proof (rule life_inv_change [OF inv c(1) ok(1)])
      have "open_conns (ph[c := PClosing]) = open_conns ph" using c by (auto simp: open_conns_def nth_list_update is_open_def intro!: filter_cong)
      then show "srv_inv (open_conns (ph[c := PClosing])) (sw_server ?w')" using inv by (simp add: life_inv_def push_def)
      show "queue_inv (ph[c := PClosing]) ?w'"
      proof (rule queue_inv_change [OF _ c(1)])
        show "queue_inv ph w" using inv by (simp add: life_inv_def)
        show "base_loop ?w' = base_loop w" "loop_of ?w' = loop_of w" by (simp_all add: push_def loop_of_def base_loop_def fun_eq_iff)
        show "filter (life_of c) (sw_queue ?w' l) = expected PClosing (base_loop w) (loop_of w c) c l" for l
          using none q by (simp add: push_def expected_def)
        show "filter (life_of d) (sw_queue ?w' l) = filter (life_of d) (sw_queue w l)" if "d \<noteq> c" for l d
          using that q by (simp add: push_def)
        show "ConnTask d t \<in> set (sw_queue w l) \<or> d = c \<and> l = loop_of w c \<and> in_loop_functor t"
          if "ConnTask d t \<in> set (sw_queue ?w' l)" for l d t
          using that t by (auto simp: push_def split: if_splits)
      qed simp
    qed (simp_all add: push_def)
    then show ?thesis using e False lo by (auto simp: life_removeConnection_def)
  qed
qed

text \<open>A connection that stays in its phase.\<close>

lemma on_conn_stay:
  assumes "life_inv ph w0" "c < length ph" "ph ! c \<noteq> PQueued" "phase_ok (ph ! c) conn" "op (sw_conns w0 ! c) = Some conn"
    "effects conn = effects (sw_conns w0 ! c) @ es" "list_all fine es" "w = w0\<lparr>sw_queue := q\<rparr>"
    "\<And>l d. filter (life_of d) (q l) = filter (life_of d) (sw_queue w0 l)" "\<And>l. set (q l) \<subseteq> set (sw_queue w0 l)"
  shows "\<exists>w'. on_conn cur c op w = Some w' \<and> life_inv ph w'"
proof -
  have "\<exists>w'. on_conn cur c op w = Some w' \<and> life_inv (ph[c := ph ! c]) w'"
    by (rule on_conn_fine [OF assms(1,2,8,4)]) (use assms life_invD(2) [OF assms(1,2)] in auto)
  then show ?thesis by simp
qed

lemma on_conn_tame:
  assumes "life_inv ph w0" "c < length ph" "ph ! c \<noteq> PQueued" "\<And>conn. op (sw_conns w0 ! c) = Some conn \<Longrightarrow> tame (sw_conns w0 ! c) conn"
    "w = w0\<lparr>sw_queue := q\<rparr>" "\<And>l d. filter (life_of d) (q l) = filter (life_of d) (sw_queue w0 l)"
    "\<And>l. set (q l) \<subseteq> set (sw_queue w0 l)" "on_conn cur c op w = Some w'"
  shows "life_inv ph w'"
proof -
  obtain conn where conn: "op (sw_conns w0 ! c) = Some conn" using assms(5,8) by (auto simp: on_conn_def bind_eq_Some_conv)
  then have t: "tame (sw_conns w0 ! c) conn" by (rule assms(4))
  then have "phase_ok (ph ! c) conn" using tame_phase life_invD(1) [OF assms(1,2)] assms(3) by blast
  moreover obtain es where "effects conn = effects (sw_conns w0 ! c) @ es" "list_all fine es" using tame_fine [OF t] by blast
  ultimately obtain w1 where "on_conn cur c op w = Some w1" "life_inv ph w1"
    using on_conn_stay [where op = op and q = q, OF assms(1-3) _ conn _ _ assms(5)] assms(6,7) by blast
  then show ?thesis using assms(8) by simp
qed

subsection \<open>Every step keeps the invariant\<close>

text \<open>A queue without its first functor.\<close>

lemma pop_other:
  assumes "sw_queue w l = f # fs" "q = (sw_queue w)(l := fs)" "\<not> life_of d f"
  shows "filter (life_of d) (q l') = filter (life_of d) (sw_queue w l')"
  using assms by simp

lemma pop_subset:
  assumes "sw_queue w l = f # fs" "q = (sw_queue w)(l := fs)"
  shows "set (q l') \<subseteq> set (sw_queue w l')"
  using assms by auto

lemma pop_life:
  assumes "life_inv ph w" "sw_queue w l = f # fs" "q = (sw_queue w)(l := fs)" "life_of c f"
  shows "c < length ph" "expected (ph ! c) (base_loop w) (loop_of w c) c l = [f]" "filter (life_of c) (q l') = []"
proof -
  have e: "filter (life_of c) (sw_queue w l) = f # filter (life_of c) fs" using assms(2,4) by simp
  have inv: "filter (life_of c) (sw_queue w l'') = (if c < length ph then expected (ph ! c) (base_loop w) (loop_of w c) c l'' else [])" for l''
    using assms(1) by (simp add: life_inv_def queue_inv_def)
  show c: "c < length ph" using e inv [of l] by (simp split: if_splits)
  then have "expected (ph ! c) (base_loop w) (loop_of w c) c l = f # filter (life_of c) fs" using e inv [of l] by simp
  then have x: "expected (ph ! c) (base_loop w) (loop_of w c) c l = [f] \<and> filter (life_of c) fs = [] \<and>
      (l' \<noteq> l \<longrightarrow> expected (ph ! c) (base_loop w) (loop_of w c) c l' = [])"
    by (auto simp: expected_def split: phase.splits if_splits)
  then show "expected (ph ! c) (base_loop w) (loop_of w c) c l = [f]" by simp
  show "filter (life_of c) (q l') = []" using x inv [of l'] c assms(3) by simp
qed

lemma run_established:
  assumes inv: "life_inv ph w0" and c: "c < length ph" "ph ! c = PQueued" and w: "w = w0\<lparr>sw_queue := q\<rparr>"
    and q: "\<And>l. filter (life_of c) (q l) = []" "\<And>l d. d \<noteq> c \<Longrightarrow> filter (life_of d) (q l) = filter (life_of d) (sw_queue w0 l)"
      "\<And>l. set (q l) \<subseteq> set (sw_queue w0 l)"
    and run: "run_life u W (loop_of w0 c) (Established c) w = Some w'"
  shows "life_inv (ph[c := PUp]) w'"
proof -
  let ?op = "connectionEstablished u (W c) True"
  have e: "run_life u W (loop_of w0 c) (Established c) w = on_conn (loop_of w0 c) c ?op w"
    using w by (simp add: run_life_def loop_of_def)
  then obtain conn where conn: "?op (sw_conns w0 ! c) = Some conn" using run w by (auto simp: on_conn_def bind_eq_Some_conv)
  from established_phase [OF _ this] life_invD(1) [OF inv c(1)] c(2) obtain es where
    ok: "phase_ok PUp conn" "effects conn = effects (sw_conns w0 ! c) @ es" "list_all fine es" by auto
  have "\<exists>w''. on_conn (loop_of w0 c) c ?op w = Some w'' \<and> life_inv (ph[c := PUp]) w''"
    by (rule on_conn_fine [OF inv c(1) w ok(1)]) (use conn ok w c(2) q in \<open>simp_all add: is_open_def expected_def\<close>)
  then show ?thesis using run e by auto
qed

lemma run_destroyed:
  assumes inv: "life_inv ph w0" and c: "c < length ph" "ph ! c = PRemoving" and w: "w = w0\<lparr>sw_queue := q\<rparr>"
    and q: "\<And>l. filter (life_of c) (q l) = []" "\<And>l d. d \<noteq> c \<Longrightarrow> filter (life_of d) (q l) = filter (life_of d) (sw_queue w0 l)"
      "\<And>l. set (q l) \<subseteq> set (sw_queue w0 l)"
  shows "\<exists>w'. run_life u W (loop_of w0 c) (Destroyed c) w = Some w' \<and> life_inv (ph[c := PGone]) w'"
proof -
  let ?op = "connectionDestroyed u (W c) True"
  have e: "run_life u W (loop_of w0 c) (Destroyed c) w = on_conn (loop_of w0 c) c ?op w"
    using w by (simp add: run_life_def loop_of_def)
  from destroyed_phase [of "sw_conns w0 ! c" u "W c"] life_invD(1) [OF inv c(1)] c(2) obtain conn where
    ok: "?op (sw_conns w0 ! c) = Some conn" "phase_ok PGone conn" "effects conn = effects (sw_conns w0 ! c) @ [ERemove]" by auto
  have fine: "list_all fine [ERemove]" by (simp add: fine_def)
  show ?thesis unfolding e
    by (rule on_conn_fine [OF inv c(1) w ok(2) _ _ fine]) (use ok w c(2) q in \<open>simp_all add: is_open_def expected_def\<close>)
qed

lemma run_remove:
  assumes inv: "life_inv ph w0" and c: "c < length ph" "ph ! c = PClosing" and w: "w = w0\<lparr>sw_queue := q\<rparr>"
    and q: "\<And>l. filter (life_of c) (q l) = []" "\<And>l d. d \<noteq> c \<Longrightarrow> filter (life_of d) (q l) = filter (life_of d) (sw_queue w0 l)"
      "\<And>l. set (q l) \<subseteq> set (sw_queue w0 l)"
  shows "\<exists>w'. run_life u W (base_loop w0) (RemoveInLoop c) w = Some w' \<and> life_inv (ph[c := PRemoving]) w'"
proof -
  have "phase_ok PRemoving (sw_conns w0 ! c)" using life_invD(1) [OF inv c(1)] c(2) by (simp add: phase_ok_def)
  moreover have "w = w0\<lparr>sw_queue := q, sw_conns := (sw_conns w0)[c := sw_conns w0 ! c]\<rparr>" using w by simp
  ultimately show ?thesis
    using removeInLoop_inv [where w = w and q = q and conn = "sw_conns w0 ! c", OF inv c(1)] c(2) q(1,2) subsetD [OF q(3)] by (simp add: run_life_def is_open_def)
qed

text \<open>The functors that carry connections on never fail, but for the user's reaction to a new connection.\<close>

lemma run_functor_inv:
  assumes inv: "life_inv ph w" and f: "sw_queue w l = f # fs"
  shows "(\<forall>w'. exec_life u W (RunFunctor l) w = Some w' \<longrightarrow> (\<exists>ph'. life_inv ph' w')) \<and>
    (exec_life u W (RunFunctor l) w = None \<longrightarrow> (\<exists>c. f = Established c \<and> ph ! c = PQueued \<and> connectionEstablished u (W c) True (sw_conns w ! c) = None) \<or>
       (\<exists>c t. f = ConnTask c t))"
proof -
  define q where "q = (sw_queue w)(l := fs)"
  let ?w = "w\<lparr>sw_queue := q\<rparr>"
  have e: "exec_life u W (RunFunctor l) w = run_life u W l f ?w" using f by (simp add: exec_life_def q_def)
  note pop = pop_life [OF inv f q_def] and sub = pop_subset [OF f q_def]
  note other = pop_other [OF f q_def]
  show ?thesis
  proof (cases f)
    case (Established c)
    then have c: "c < length ph" "ph ! c = PQueued" "l = loop_of w c"
      using pop(1,2) [of c] by (auto simp: expected_def split: phase.splits if_splits)
    have "life_inv (ph[c := PUp]) w'" if "run_life u W l f ?w = Some w'" for w'
      using run_established [OF inv c(1,2) refl, where q = q] that c(3) Established pop(3) other sub by simp
    moreover have "connectionEstablished u (W c) True (sw_conns w ! c) = None" if "run_life u W l f ?w = None"
    proof (rule ccontr)
      assume "connectionEstablished u (W c) True (sw_conns w ! c) \<noteq> None"
      then obtain conn where conn: "connectionEstablished u (W c) True (sw_conns w ! c) = Some conn" by blast
      from established_phase [OF _ this] life_invD(1) [OF inv c(1)] c(2) obtain es where
        "effects conn = effects (sw_conns w ! c) @ es" "list_all fine es" by auto
      then show False using that conn c(3) Established absorb_fine by (simp add: run_life_def on_conn_def loop_of_def)
    qed
    ultimately show ?thesis using Established e c(2) by auto
  next
    case (RemoveInLoop c)
    then have c: "c < length ph" "ph ! c = PClosing" "l = base_loop w"
      using pop(1,2) [of c] by (auto simp: expected_def split: phase.splits if_splits)
    have "\<exists>w'. run_life u W (base_loop w) (RemoveInLoop c) ?w = Some w' \<and> life_inv (ph[c := PRemoving]) w'"
      using pop(3) [of c] other sub RemoveInLoop by (intro run_remove [OF inv c(1,2) refl]) simp_all
    then show ?thesis using RemoveInLoop c(3) e by auto
  next
    case (Destroyed c)
    then have c: "c < length ph" "ph ! c = PRemoving" "l = loop_of w c"
      using pop(1,2) [of c] by (auto simp: expected_def split: phase.splits if_splits)
    have "\<exists>w'. run_life u W (loop_of w c) (Destroyed c) ?w = Some w' \<and> life_inv (ph[c := PGone]) w'"
      using pop(3) [of c] other sub Destroyed by (intro run_destroyed [OF inv c(1,2) refl]) simp_all
    then show ?thesis using Destroyed c(3) e by auto
  next
    case (ConnTask c t)
    then have "ConnTask c t \<in> set (sw_queue w l)" using f by simp
    then have c: "c < length ph" "l = loop_of w c" "in_loop_functor t" "ph ! c \<noteq> PQueued"
      using inv by (simp_all add: life_inv_def queue_inv_def)
    have "life_inv ph w'" if "run_life u W l f ?w = Some w'" for w'
      by (rule on_conn_tame [OF inv c(1,4), where op = "run_functor u (W c) t" and q = q and w = ?w and cur = l])
        (use that ConnTask c(3) sub other in \<open>auto simp: run_life_def elim: run_functor_tame\<close>)
    then show ?thesis using ConnTask e by auto
  qed
qed

lemma ctor_phase: "\<exists>conn. TcpConnection_ctor name sockfd = Some conn \<and> phase_ok PQueued conn"
  by (simp add: TcpConnection_ctor_def Buffer_ctor_eq phase_ok_def isNoneEvent_def Channel_ctor_def setErrorCallback_def
      setCloseCallback_def setWriteCallback_def setReadCallback_def kNoneEvent_def)

lemma newConnection_heap:
  assumes "newConnection True sockfd s = Some (c, s')" "pool_ok (srv_pool s)"
  shows "\<exists>x. conn_heap s' = conn_heap s @ [x]" "baseLoop (srv_pool s') = baseLoop (srv_pool s)"
  using assms getNextLoop_ok [OF assms(2)] by (auto simp: newConnection_def Let_def)

text \<open>A new connection is in the server's map, and its establishment is in the queue of its loop.\<close>

lemma accept_inv:
  assumes inv: "life_inv ph w" and n: "length ph + 1 < 10 ^ 8"
  shows "\<exists>s conn. newConnection True sockfd (sw_server w) = Some (length ph, s) \<and>
    TcpConnection_ctor (sc_name (conn_heap s ! length ph)) sockfd = Some conn \<and>
    (let w1 = w\<lparr>sw_server := s, sw_conns := sw_conns w @ [conn]\<rparr> in base_loop w1 = base_loop w \<and>
       life_inv (ph @ [PQueued]) (push (loop_of w1 (length ph)) (Established (length ph)) w1))"
proof -
  note I = inv [unfolded life_inv_def]
  have heap: "length (conn_heap (sw_server w)) = length ph" using I by blast
  from newConnection_inv [of "open_conns ph" "sw_server w" sockfd] I n obtain s where
    s: "newConnection True sockfd (sw_server w) = Some (length ph, s)" "srv_inv (open_conns ph @ [length ph]) s" by auto
  have "pool_ok (srv_pool (sw_server w))" using I by (simp add: srv_inv_def)
  from newConnection_heap [OF s(1) this] obtain x where x: "conn_heap s = conn_heap (sw_server w) @ [x]"
    "baseLoop (srv_pool s) = baseLoop (srv_pool (sw_server w))" by blast
  obtain conn where conn: "TcpConnection_ctor (sc_name (conn_heap s ! length ph)) sockfd = Some conn" "phase_ok PQueued conn"
    using ctor_phase by blast
  let ?w1 = "w\<lparr>sw_server := s, sw_conns := sw_conns w @ [conn]\<rparr>"
  let ?w2 = "push (loop_of ?w1 (length ph)) (Established (length ph)) ?w1"
  have lo: "base_loop ?w2 = base_loop w" "base_loop ?w1 = base_loop w" "loop_of ?w2 = loop_of ?w1" "c < length ph \<Longrightarrow> loop_of ?w1 c = loop_of w c" for c
    using x heap by (simp_all add: base_loop_def loop_of_def push_def nth_append fun_eq_iff)
  have "queue_inv (ph @ [PQueued]) ?w2"
    unfolding queue_inv_def
  proof (intro allI conjI impI)
    fix l c t
    have "filter (life_of c) (sw_queue w l) = (if c < length ph then expected (ph ! c) (base_loop w) (loop_of w c) c l else [])"
      using I by (simp add: queue_inv_def)
    moreover have "filter (life_of c) (sw_queue ?w2 l) =
        filter (life_of c) (sw_queue w l) @ (if c = length ph \<and> l = loop_of ?w1 (length ph) then [Established (length ph)] else [])"
      by (auto simp: push_def)
    moreover have "expected PQueued b io c l = (if l = io then [Established c] else [])" for b io by (simp add: expected_def)
    ultimately show "filter (life_of c) (sw_queue ?w2 l) =
        (if c < length (ph @ [PQueued]) then expected ((ph @ [PQueued]) ! c) (base_loop ?w2) (loop_of ?w2 c) c l else [])"
      unfolding lo(1,3) using lo(4) [of c] by (cases "c < length ph"; cases "c = length ph") (simp_all add: nth_append)
    assume "ConnTask c t \<in> set (sw_queue ?w2 l)"
    then have "ConnTask c t \<in> set (sw_queue w l)" by (auto simp: push_def split: if_splits)
    then have "c < length ph \<and> l = loop_of w c \<and> in_loop_functor t \<and> ph ! c \<noteq> PQueued" using I by (simp add: queue_inv_def)
    then show "c < length (ph @ [PQueued])" "l = loop_of ?w2 c" "in_loop_functor t" "(ph @ [PQueued]) ! c \<noteq> PQueued"
      using lo(3,4) by (simp_all add: nth_append)
  qed
  moreover have "open_conns (ph @ [PQueued]) = open_conns ph @ [length ph]"
    by (auto simp: open_conns_def nth_append is_open_def intro!: filter_cong)
  moreover have "\<forall>c < length (ph @ [PQueued]). phase_ok ((ph @ [PQueued]) ! c) ((sw_conns w @ [conn]) ! c)"
    using I conn(2) by (auto simp: nth_append less_Suc_eq)
  ultimately have "life_inv (ph @ [PQueued]) ?w2" using I n s(2) x(1) unfolding life_inv_def by (simp add: push_def)
  then show ?thesis using s(1) conn(1) lo(2) by (auto simp: Let_def)
qed

lemma accept_step:
  assumes inv: "life_inv ph w" and n: "length ph + 1 < 10 ^ 8" and run: "life_newConnection u W sockfd w = Some w'"
  shows "\<exists>ph'. life_inv ph' w'"
proof -
  obtain s conn where s: "newConnection True sockfd (sw_server w) = Some (length ph, s)"
      "TcpConnection_ctor (sc_name (conn_heap s ! length ph)) sockfd = Some conn"
    and w2: "let w1 = w\<lparr>sw_server := s, sw_conns := sw_conns w @ [conn]\<rparr> in base_loop w1 = base_loop w \<and>
       life_inv (ph @ [PQueued]) (push (loop_of w1 (length ph)) (Established (length ph)) w1)"
    using accept_inv [OF inv n] by blast
  let ?w1 = "w\<lparr>sw_server := s, sw_conns := sw_conns w @ [conn]\<rparr>" and ?c = "length ph"
  let ?w2 = "push (loop_of ?w1 ?c) (Established ?c) ?w1"
  have inv2: "life_inv (ph @ [PQueued]) ?w2" using w2 by (simp add: Let_def)
  have c: "?c < length (ph @ [PQueued])" "(ph @ [PQueued]) ! ?c = PQueued" by simp_all
  have lo: "loop_of ?w2 ?c = loop_of ?w1 ?c" by (simp add: loop_of_def push_def)
  show ?thesis
  proof (cases "loop_of ?w1 ?c = base_loop ?w1")
    case True
    then have run': "run_life u W (loop_of ?w2 ?c) (Established ?c) ?w1 = Some w'"
      using run s lo by (simp add: life_newConnection_def Let_def)
    have "?w1 = ?w2\<lparr>sw_queue := sw_queue ?w1\<rparr>" by (simp add: push_def)
    moreover have "filter (life_of ?c) (sw_queue w l) = []" for l using inv by (simp add: life_inv_def queue_inv_def)
    ultimately show ?thesis using run_established [OF inv2 c, where q = "sw_queue ?w1", OF _ _ _ _ run'] by (force simp: push_def)
  next
    case False
    then have "w' = ?w2" using run s by (simp add: life_newConnection_def Let_def)
    then show ?thesis using inv2 by blast
  qed
qed

lemma registered_up:
  assumes "phase_ok p c" "\<not> isNoneEvent (conn_channel c)"
  shows "p = PUp"
  using assms by (cases p) (auto simp: phase_ok_def)

lemma run_cb_phase:
  assumes ok: "phase_ok PUp c" and run: "run_cb u W readv t cb c = Some c'"
  shows "phase_ok PUp c' \<and> (\<exists>es. effects c' = effects c @ es \<and> list_all fine es) \<or>
    phase_ok PClosing c' \<and> (\<exists>es. effects c' = effects c @ es @ [ECloseCallback] \<and> list_all fine es)"
proof (cases cb)
  case HandleRead
  then show ?thesis using handleRead_phase [OF ok] run by (simp add: run_cb_def)
next
  case HandleWrite
  then have "tame c c'" using run handleWrite_tame by (simp add: run_cb_def)
  then show ?thesis using tame_phase ok tame_fine by blast
next
  case HandleClose
  then show ?thesis using close_phase [OF ok] run by (simp add: run_cb_def)
next
  case HandleError
  then show ?thesis using run ok by (simp add: run_cb_def conn_handleError_def)
qed

lemma handler_step:
  assumes inv: "life_inv ph w" and can: "can_happen (Handler c cb readv t) w"
    and run: "on_conn (loop_of w c) c (run_cb u (W c) readv t cb) w = Some w'"
  shows "\<exists>ph'. life_inv ph' w'"
proof -
  have c: "c < length ph" using inv can by (simp add: life_inv_def can_happen_def)
  have "\<not> isNoneEvent (conn_channel (sw_conns w ! c))"
    using can by (auto simp: can_happen_def Let_def isReading_def isWriting_def isNoneEvent_def kNoneEvent_def split: conn_cb.splits)
  with registered_up life_invD(1) [OF inv c] have up: "ph ! c = PUp" by blast
  then have ok: "phase_ok PUp (sw_conns w ! c)" using life_invD(1) [OF inv c] by simp
  obtain conn where conn: "run_cb u (W c) readv t cb (sw_conns w ! c) = Some conn" using run by (auto simp: on_conn_def bind_eq_Some_conv)
  from run_cb_phase [OF ok conn] consider
      (stay) es where "phase_ok PUp conn" "effects conn = effects (sw_conns w ! c) @ es" "list_all fine es"
    | (close) es where "phase_ok PClosing conn" "effects conn = effects (sw_conns w ! c) @ es @ [ECloseCallback]" "list_all fine es"
    by blast
  then show ?thesis
  proof cases
    case (stay es)
    have "\<exists>w''. on_conn (loop_of w c) c (run_cb u (W c) readv t cb) w = Some w'' \<and> life_inv ph w''"
      by (rule on_conn_stay [where op = "run_cb u (W c) readv t cb" and q = "sw_queue w", OF inv c _ _ conn stay(2,3)]) (use stay(1) up in simp_all)
    then show ?thesis using run by auto
  next
    case (close es)
    then show ?thesis using on_conn_close [where op = "run_cb u (W c) readv t cb" and cur = "loop_of w c", OF inv c up close(1) conn close(2,3)] run by auto
  qed
qed

lemma api_step:
  assumes inv: "life_inv ph w" and can: "can_happen (ApiCall c a) w" and run: "on_conn (loop_of w c) c (exec_api (W c) True a) w = Some w'"
  shows "life_inv ph w'"
proof -
  have c: "c < length ph" using inv can by (simp add: life_inv_def can_happen_def)
  have "ph ! c \<noteq> PQueued" using life_invD(1) [OF inv c] can by (auto simp: phase_ok_def can_happen_def)
  then show ?thesis
    by (rule on_conn_tame [where w = w and q = "sw_queue w", OF inv c]) (use run exec_api_tame in auto)
qed

lemma delayed_step:
  assumes inv: "life_inv ph w" and can: "can_happen (DelayedClose c locked) w"
    and run: "on_conn (loop_of w c) c (\<lambda>conn. Some (WeakCallback_call locked forceClose conn)) w = Some w'"
  shows "life_inv ph w'"
proof -
  have c: "c < length ph" using inv can by (simp add: life_inv_def can_happen_def)
  have "ph ! c \<noteq> PQueued" using life_invD(1) [OF inv c] can by (auto simp: phase_ok_def can_happen_def)
  moreover have "tame conn (WeakCallback_call locked forceClose conn)" for conn
    using exec_api_tame [of "W c" ApiForceClose conn] by (auto simp: WeakCallback_call_def exec_api_def tame_refl)
  ultimately show ?thesis
    by (intro on_conn_tame [where w = w and q = "sw_queue w", OF inv c _ _ _ _ _ run]) auto
qed

lemma life_step:
  assumes "life_inv ph w" "can_happen e w" "exec_life u W e w = Some w'"
  shows "\<exists>ph'. life_inv ph' w'"
proof (cases e)
  case (AcceptFd sockfd)
  then show ?thesis using accept_step [OF assms(1)] assms by (auto simp: can_happen_def exec_life_def life_inv_def)
next
  case (RunFunctor l)
  then obtain f fs where "sw_queue w l = f # fs" using assms(2) by (cases "sw_queue w l") (auto simp: can_happen_def)
  then show ?thesis using run_functor_inv [OF assms(1)] assms(3) RunFunctor by blast
next
  case (Handler c cb readv t)
  then show ?thesis using handler_step [OF assms(1)] assms(2,3) by (auto simp: exec_life_def)
next
  case (ApiCall c a)
  then show ?thesis using api_step [OF assms(1), of c a W w'] assms(2,3) by (auto simp: exec_life_def)
next
  case (DelayedClose c locked)
  then show ?thesis using delayed_step [OF assms(1), of c locked w'] assms(2,3) by (auto simp: exec_life_def)
qed

lemma life_start_inv:
  assumes "length hostport \<le> 21"
  shows "life_inv [] (life_start hostport name ls base)"
  using assms by (simp add: life_inv_def life_start_def Let_def queue_inv_def open_conns_def srv_inv_def TcpServer_ctor_def pool_ok_def
      EventLoopThreadPool_ctor_def)

lemma life_reachable_inv:
  assumes "length hostport \<le> 21" "life_reachable u W (life_start hostport name ls base) w"
  shows "\<exists>ph. life_inv ph w"
  using assms(2) by (induction rule: life_reachable.induct) (use life_start_inv [OF assms(1)] life_step in blast)+

text \<open>What the phase of a connection says about what can be observed of it.\<close>

definition in_map :: "server_world \<Rightarrow> conn_ptr \<Rightarrow> bool" where
  "in_map w c \<longleftrightarrow> map_find (sc_name (conn_heap (sw_server w) ! c)) (connections (sw_server w)) = Some c"

lemma in_map_open:
  assumes "life_inv ph w" "c < length ph"
  shows "in_map w c \<longleftrightarrow> is_open (ph ! c)"
  using assms by (auto simp: in_map_def life_inv_def srv_inv_def set_open_conns)

lemma up_trace_down: "up_trace n \<noteq> down_trace m" "EConnectionCallback False \<notin> set (up_trace n)" "EConnectionCallback False \<in> set (down_trace n)"
proof -
  show "EConnectionCallback False \<notin> set (up_trace n)" "EConnectionCallback False \<in> set (down_trace n)" for n
    by (auto simp: up_trace_def down_trace_def)
  then show "up_trace n \<noteq> down_trace m" by metis
qed

lemma phase_callbacks:
  assumes "phase_ok p c"
  shows "\<exists>n. callbacks c = [] \<or> callbacks c = up_trace n \<or> callbacks c = down_trace n \<and> isNoneEvent (conn_channel c)"
  using assms by (cases p) (auto simp: phase_ok_def callbacks_def)

lemma no_functor_phase:
  assumes "life_inv ph w" "c < length ph" "\<forall>l. sw_queue w l = []"
  shows "ph ! c = PUp \<or> ph ! c = PGone"
  using life_invD(2) [OF assms(1,2), of "loop_of w c"] life_invD(2) [OF assms(1,2), of "base_loop w"] assms(3)
  by (cases "ph ! c") (simp_all add: expected_def)

lemma phase_observed:
  assumes "life_inv ph w" "c < length ph"
  shows "(in_map w c \<or> (\<exists>n. callbacks (sw_conns w ! c) = down_trace n)) \<and> (ERemove \<in> set (effects (sw_conns w ! c)) \<longrightarrow> \<not> in_map w c) \<and>
    ((\<forall>l. sw_queue w l = []) \<longrightarrow> (if in_map w c then (\<exists>n. callbacks (sw_conns w ! c) = up_trace n) \<and> isReading (conn_channel (sw_conns w ! c))
       else ERemove \<in> set (effects (sw_conns w ! c))))"
  using life_invD(1) [OF assms] in_map_open [OF assms] no_functor_phase [OF assms]
  by (cases "ph ! c") (auto simp: phase_ok_def is_open_def)

text \<open>The steps that carry connections on: accepting one, closing one, and the functors that do the rest.\<close>

definition carries_on :: "life_event \<Rightarrow> server_world \<Rightarrow> bool" where
  "carries_on e w \<longleftrightarrow> (case e of AcceptFd sockfd \<Rightarrow> True | Handler c cb readv t \<Rightarrow> cb = HandleClose
     | RunFunctor l \<Rightarrow> (case sw_queue w l of ConnTask c t # fs \<Rightarrow> False | _ \<Rightarrow> True) | _ \<Rightarrow> False)"

lemma established_runs:
  assumes "onConnection u = (\<lambda>conn. [])" "phase_ok PQueued c"
  shows "\<exists>c'. connectionEstablished u W True c = Some c'"
  using assms by (simp add: connectionEstablished_def connectionCallback_def phase_ok_def Let_def)

lemma accept_runs:
  assumes "life_inv ph w" "length ph + 1 < 10 ^ 8" "onConnection u = (\<lambda>conn. [])"
  shows "\<exists>w'. life_newConnection u W sockfd w = Some w'"
proof -
  obtain s conn where s: "newConnection True sockfd (sw_server w) = Some (length ph, s)"
      "TcpConnection_ctor (sc_name (conn_heap s ! length ph)) sockfd = Some conn"
    using accept_inv [OF assms(1,2)] by blast
  let ?w1 = "w\<lparr>sw_server := s, sw_conns := sw_conns w @ [conn]\<rparr>"
  have "phase_ok PQueued conn" using ctor_phase s(2) by (metis option.inject)
  moreover from this obtain c' where c': "connectionEstablished u (W (length ph)) True conn = Some c'" using established_runs [OF assms(3)] by blast
  ultimately obtain es where "effects c' = effects conn @ es" "list_all fine es" using established_phase by blast
  then have "\<exists>w'. run_life u W (loop_of ?w1 (length ph)) (Established (length ph)) ?w1 = Some w'"
    using c' absorb_fine assms(1) by (simp add: run_life_def on_conn_def nth_append life_inv_def)
  then show ?thesis using s by (auto simp: life_newConnection_def Let_def)
qed

lemma close_runs:
  assumes "life_inv ph w" "c < length ph" "ph ! c = PUp" "onConnection u = (\<lambda>conn. [])"
  shows "\<exists>w'. on_conn cur c (run_cb u (W c) readv t HandleClose) w = Some w'"
proof -
  have ok: "phase_ok PUp (sw_conns w ! c)" using life_invD(1) [OF assms(1,2)] assms(3) by simp
  then obtain conn where conn: "handleClose u (W c) True (sw_conns w ! c) = Some conn"
    using assms(4) by (auto simp: handleClose_def connectionCallback_def phase_ok_def Let_def)
  from close_phase [OF ok this] on_conn_close [where op = "run_cb u (W c) readv t HandleClose", OF assms(1-3)] conn show ?thesis
    by (fastforce simp: run_cb_def)
qed

lemma carries_on_runs:
  assumes inv: "life_inv ph w" and quiet: "onConnection u = (\<lambda>conn. [])" and e: "carries_on e w" "can_happen e w"
  shows "\<exists>w'. exec_life u W e w = Some w'"
proof (cases e)
  case (AcceptFd sockfd)
  then show ?thesis using accept_runs [OF inv _ quiet] e(2) inv by (simp add: exec_life_def can_happen_def life_inv_def)
next
  case (RunFunctor l)
  then obtain f fs where f: "sw_queue w l = f # fs" using e(2) by (cases "sw_queue w l") (auto simp: can_happen_def)
  have "connectionEstablished u (W c) True (sw_conns w ! c) \<noteq> None" if "f = Established c" "ph ! c = PQueued" for c
  proof -
    have "c < length ph" using pop_life(1) [OF inv f refl, of c] that(1) by simp
    then show ?thesis using life_invD(1) [OF inv] established_runs [OF quiet] that(2) by fastforce
  qed
  moreover have "f \<noteq> ConnTask c t" for c t using e(1) RunFunctor f by (auto simp: carries_on_def)
  ultimately show ?thesis using run_functor_inv [OF inv f, of u W] RunFunctor by fastforce
next
  case (Handler c cb readv t)
  then have cb: "cb = HandleClose" "c < length ph" "\<not> isNoneEvent (conn_channel (sw_conns w ! c))"
    using e inv by (auto simp: carries_on_def can_happen_def life_inv_def Let_def)
  then have "ph ! c = PUp" using registered_up life_invD(1) [OF inv] by blast
  then show ?thesis using close_runs [OF inv cb(2) _ quiet] Handler cb(1) by (simp add: exec_life_def)
qed (use e(1) in \<open>simp_all add: carries_on_def\<close>)

text \<open>
  C4: the life of a server's connections, over any number of loops and any interleaving. The user sees every connection
  come up once, then its messages, then go down once, and nothing after that, the channel being registered for nothing; a connection that
  has left the server's map has gone down, and one that has been destroyed is not in the map. Whenever all queues are empty, every connection
  is either in the map, up and read from, or not in the map and removed from its poller: none is lost and none leaks. User code that makes no calls
  when a connection comes up or goes down cannot make the steps that carry connections on fail: none of their assertions is
  violated.
\<close>
theorem server_connection_life:
  assumes "length hostport \<le> 21" "life_reachable u W (life_start hostport name ls base) w" "c < length (sw_conns w)"
  shows "(\<exists>n. callbacks (sw_conns w ! c) = [] \<or> callbacks (sw_conns w ! c) = up_trace n \<or>
      callbacks (sw_conns w ! c) = down_trace n \<and> isNoneEvent (conn_channel (sw_conns w ! c))) \<and>
    (in_map w c \<or> (\<exists>n. callbacks (sw_conns w ! c) = down_trace n)) \<and>
    (ERemove \<in> set (effects (sw_conns w ! c)) \<longrightarrow> \<not> in_map w c) \<and>
    ((\<forall>l. sw_queue w l = []) \<longrightarrow>
      (if in_map w c then (\<exists>n. callbacks (sw_conns w ! c) = up_trace n) \<and> isReading (conn_channel (sw_conns w ! c))
       else ERemove \<in> set (effects (sw_conns w ! c)))) \<and>
    (onConnection u = (\<lambda>conn. []) \<and> carries_on e w \<and> can_happen e w \<longrightarrow> (\<exists>w'. exec_life u W e w = Some w'))"
proof -
  obtain ph where inv: "life_inv ph w" using life_reachable_inv [OF assms(1,2)] by blast
  then have c: "c < length ph" using assms(3) by (simp add: life_inv_def)
  show ?thesis
    using phase_callbacks [OF life_invD(1) [OF inv c]] phase_observed [OF inv c] carries_on_runs [OF inv] by blast
qed

text \<open>A connection on a loop of its own, which its peer closes.\<close>

fun run_checked :: "user_code \<Rightarrow> (conn_ptr \<Rightarrow> sys_write) \<Rightarrow> life_event list \<Rightarrow> server_world \<Rightarrow> server_world option" where
  "run_checked u W [] w = Some w"
| "run_checked u W (e # es) w = do { assert_that (can_happen e w); w \<leftarrow> exec_life u W e w; run_checked u W es w }"

lemma run_checked_reachable:
  "life_reachable u W w0 w \<Longrightarrow> run_checked u W es w = Some w' \<Longrightarrow> life_reachable u W w0 w'"
proof (induction es arbitrary: w)
  case (Cons e es)
  then show ?case by (auto simp: bind_eq_Some_conv intro: life_reachable.step)
qed simp

definition demo_life :: "server_world option" where
  "demo_life = run_checked default_callbacks (\<lambda>c n d. Wrote (length d))
     [AcceptFd 7, RunFunctor 1, Handler 0 HandleClose (\<lambda>n. Inr []) 6, RunFunctor 0, RunFunctor 1] (life_start ''10.0.0.1:80'' ''srv'' [1] 0)"

lemmas life_defs = can_happen_def exec_life_def life_newConnection_def newConnection_def getNextLoop_def run_life_def on_conn_def
  life_removeConnection_def life_removeInLoop_def removeConnectionInLoop_def push_def base_loop_def loop_of_def life_start_def TcpServer_ctor_def EventLoopThreadPool_ctor_def
  TcpConnection_ctor_def Buffer_ctor_eq connectionEstablished_def connectionCallback_def connectionDestroyed_def handleClose_def run_cb_def connected_def
  default_callbacks_def Let_def

lemma demo_life_ends:
  "map_option (\<lambda>w. (length (sw_conns w), in_map w 0, callbacks (sw_conns w ! 0))) demo_life =
     Some (1, False, [EConnectionCallback True, EConnectionCallback False])"
  by (simp add: demo_life_def life_defs in_map_def callbacks_def is_callback_def isNoneEvent_def kNoneEvent_def kReadEvent_def poll_flags upd_channel_def set_interest_def emit_def
     Channel_ctor_def Channel_tie_def setErrorCallback_def setCloseCallback_def setWriteCallback_def setReadCallback_def)

theorem server_connection_life_witness:
  "\<exists>w. life_reachable default_callbacks (\<lambda>c n d. Wrote (length d)) (life_start ''10.0.0.1:80'' ''srv'' [1] 0) w \<and>
     callbacks (sw_conns w ! 0) = down_trace 0 \<and> \<not> in_map w 0 \<and> isNoneEvent (conn_channel (sw_conns w ! 0))"
proof -
  obtain w where w: "demo_life = Some w" "length (sw_conns w) = 1" "\<not> in_map w 0" "callbacks (sw_conns w ! 0) = down_trace 0"
    using demo_life_ends by (auto simp: down_trace_def up_trace_def)
  have reach: "life_reachable default_callbacks (\<lambda>c n d. Wrote (length d)) (life_start ''10.0.0.1:80'' ''srv'' [1] 0) w"
    using run_checked_reachable [OF life_reachable.start] w(1) unfolding demo_life_def by blast
  have "length ''10.0.0.1:80'' \<le> 21" "0 < length (sw_conns w)" using w(2) by simp_all
  from server_connection_life [OF this(1) reach this(2), THEN conjunct1] have "isNoneEvent (conn_channel (sw_conns w ! 0))"
    using w(4) up_trace_down(1) by (fastforce simp: down_trace_def)
  then show ?thesis using reach w(3,4) by blast
qed

end
