(* ===== verification/Connector.thy ===== *)
theory Connector
  imports Printf "HOL-Library.Multiset"
begin

text \<open>
  \<open>tmuduo/net/Connector.h\<close>, \<open>Connector.cc\<close> and \<open>TcpClient.cc\<close>: the active side. A
  channel is represented by its descriptor. Calls that leave the object are recorded in
  \<open>cn_effects\<close>. The outcome of creating a socket and connecting it is an argument: the new
  descriptor and \<open>errno\<close> (zero for success). \<open>None\<close> is a failed assertion or the use of a
  null pointer.
\<close>

datatype cn_states = cnDisconnected | cnConnecting | cnConnected

datatype cn_effect =
    CnOpen fd
  | CnClose fd
  | CnRunAfter int
  | CnQueueReset
  | CnQueueStart
  | CnQueueStop
  | CnEnableWriting fd
  | CnRemoveChannel fd
  | CnNewConnection fd

record connector =
  cn_connect :: bool
  cn_state :: cn_states
  cn_channel :: "fd option"
  cn_retryDelayMs :: int
  cn_effects :: "cn_effect list"

definition kMaxRetryDelayMs :: int where
  "kMaxRetryDelayMs = 30 * 1000"

definition kInitRetryDelayMs :: int where
  "kInitRetryDelayMs = 500"

definition cn_emit :: "cn_effect \<Rightarrow> connector \<Rightarrow> connector" where
  "cn_emit e c = c\<lparr>cn_effects := cn_effects c @ [e]\<rparr>"

definition Connector_ctor :: connector where
  "Connector_ctor = \<lparr>cn_connect = False, cn_state = cnDisconnected, cn_channel = None,
     cn_retryDelayMs = kInitRetryDelayMs, cn_effects = []\<rparr>"

definition Connector_dtor :: "connector \<Rightarrow> unit option" where
  "Connector_dtor c = assert_that (cn_channel c = None)"

definition retry :: "fd \<Rightarrow> connector \<Rightarrow> connector" where
  "retry sockfd c =
     (let c = cn_emit (CnClose sockfd) c; c = c\<lparr>cn_state := cnDisconnected\<rparr> in
      if cn_connect c then
        (let c = cn_emit (CnRunAfter (cn_retryDelayMs c)) c in
         c\<lparr>cn_retryDelayMs := min (cn_retryDelayMs c * 2) kMaxRetryDelayMs\<rparr>)
      else c)"

definition connecting :: "fd \<Rightarrow> connector \<Rightarrow> connector option" where
  "connecting sockfd c = do {
     let c = c\<lparr>cn_state := cnConnecting\<rparr>;
     assert_that (cn_channel c = None);
     let c = c\<lparr>cn_channel := Some sockfd\<rparr>;
     Some (cn_emit (CnEnableWriting sockfd) c) }"

text \<open>The cases of the \<open>switch\<close> on \<open>errno\<close> in \<open>connect\<close>, with the values of Linux.\<close>

definition connect_started :: "int \<Rightarrow> bool" where
  "connect_started err \<longleftrightarrow> err \<in> {0, 115, 4, 106}"

definition connect_retryable :: "int \<Rightarrow> bool" where
  "connect_retryable err \<longleftrightarrow> err \<in> {11, 98, 99, 111, 101}"

definition Connector_connect :: "fd \<times> int \<Rightarrow> connector \<Rightarrow> connector option" where
  "Connector_connect result c = do {
     let sockfd = fst result;
     let savedErrno = snd result;
     let c = cn_emit (CnOpen sockfd) c;
     if connect_started savedErrno then connecting sockfd c
     else if connect_retryable savedErrno then Some (retry sockfd c)
     else Some (cn_emit (CnClose sockfd) c) }"

definition startInLoop :: "bool \<Rightarrow> fd \<times> int \<Rightarrow> connector \<Rightarrow> connector option" where
  "startInLoop inLoop result c = do {
     assert_that inLoop;
     assert_that (cn_state c = cnDisconnected);
     if cn_connect c then Connector_connect result c else Some c }"

definition Connector_start :: "bool \<Rightarrow> fd \<times> int \<Rightarrow> connector \<Rightarrow> connector option" where
  "Connector_start inLoop result c =
     (let c = c\<lparr>cn_connect := True\<rparr> in
      if inLoop then startInLoop inLoop result c else Some (cn_emit CnQueueStart c))"

text \<open>
  \<open>active\<close> says that the loop is handling events and the connector's channel is in its list \<open>activeChannels_\<close> without being the
  one whose events are being handled; \<open>EventLoop::removeChannel\<close>, which \<open>channel_->remove()\<close> calls, asserts that this is not so.
\<close>

definition removeAndResetChannel :: "bool \<Rightarrow> connector \<Rightarrow> (fd \<times> connector) option" where
  "removeAndResetChannel active c = do {
     sockfd \<leftarrow> cn_channel c;
     assert_that (\<not> active);
     let c = cn_emit (CnRemoveChannel sockfd) c;
     let c = cn_emit CnQueueReset c;
     Some (sockfd, c) }"

definition resetChannel :: "connector \<Rightarrow> connector" where
  "resetChannel c = c\<lparr>cn_channel := None\<rparr>"

definition stopInLoop :: "bool \<Rightarrow> bool \<Rightarrow> connector \<Rightarrow> connector option" where
  "stopInLoop inLoop active c = do {
     assert_that inLoop;
     if cn_state c = cnConnecting then do {
       let c = c\<lparr>cn_state := cnDisconnected\<rparr>;
       (sockfd, c) \<leftarrow> removeAndResetChannel active c;
       Some (retry sockfd c) }
     else Some c }"

definition Connector_stop :: "bool \<Rightarrow> bool \<Rightarrow> connector \<Rightarrow> connector option" where
  "Connector_stop inLoop active c =
     (let c = c\<lparr>cn_connect := False\<rparr> in
      if inLoop then stopInLoop inLoop active c else Some (cn_emit CnQueueStop c))"

definition Connector_restart :: "bool \<Rightarrow> fd \<times> int \<Rightarrow> connector \<Rightarrow> connector option" where
  "Connector_restart inLoop result c = do {
     assert_that inLoop;
     let c = c\<lparr>cn_state := cnDisconnected, cn_retryDelayMs := kInitRetryDelayMs, cn_connect := True\<rparr>;
     startInLoop inLoop result c }"

text \<open>
  \<open>err\<close> is \<open>SO_ERROR\<close> of the socket, \<open>self\<close> whether it is connected to itself. Both handlers run while the events of the
  channel itself are handled.
\<close>

definition cn_handleWrite :: "int \<Rightarrow> bool \<Rightarrow> connector \<Rightarrow> connector option" where
  "cn_handleWrite err self c =
     (if cn_state c = cnConnecting then do {
        (sockfd, c) \<leftarrow> removeAndResetChannel False c;
        if err \<noteq> 0 then Some (retry sockfd c)
        else if self then Some (retry sockfd c)
        else do {
          let c = c\<lparr>cn_state := cnConnected\<rparr>;
          Some (cn_emit (if cn_connect c then CnNewConnection sockfd else CnClose sockfd) c) } }
      else do {
        assert_that (cn_state c = cnDisconnected);
        Some c })"

definition cn_handleError :: "connector \<Rightarrow> connector option" where
  "cn_handleError c = do {
     assert_that (cn_state c = cnConnecting);
     (sockfd, c) \<leftarrow> removeAndResetChannel False c;
     Some (retry sockfd c) }"

definition cn_stateToString :: "cn_states \<Rightarrow> string" where
  "cn_stateToString s =
     (case s of cnDisconnected \<Rightarrow> ''DisConnected'' | cnConnecting \<Rightarrow> ''DisConnected'' | cnConnected \<Rightarrow> ''DisConnected'')"

subsection \<open>TcpClient\<close>

datatype tc_effect = TcEstablished nat | TcShutdown nat | TcQueueDestroyed nat | TcSetDetachedClose nat | TcRunAfter int

record tcp_client =
  tc_name :: string
  tc_connector :: connector
  tc_retry :: bool
  tc_connect :: bool
  tc_nextConnId :: int
  tc_connection :: "nat option"
  tc_conns :: "(string \<times> fd) list"
  tc_effects :: "tc_effect list"

definition TcpClient_ctor :: "string \<Rightarrow> tcp_client" where
  "TcpClient_ctor name = \<lparr>tc_name = name, tc_connector = Connector_ctor, tc_retry = False, tc_connect = True,
     tc_nextConnId = 1, tc_connection = None, tc_conns = [], tc_effects = []\<rparr>"

definition enableRetry :: "tcp_client \<Rightarrow> tcp_client" where
  "enableRetry c = c\<lparr>tc_retry := True\<rparr>"

definition TcpClient_connect :: "bool \<Rightarrow> fd \<times> int \<Rightarrow> tcp_client \<Rightarrow> tcp_client option" where
  "TcpClient_connect inLoop result c = do {
     let c = c\<lparr>tc_connect := True\<rparr>;
     k \<leftarrow> Connector_start inLoop result (tc_connector c);
     Some (c\<lparr>tc_connector := k\<rparr>) }"

definition TcpClient_disconnect :: "tcp_client \<Rightarrow> tcp_client" where
  "TcpClient_disconnect c =
     (let c = c\<lparr>tc_connect := False\<rparr> in
      case tc_connection c of
        Some conn \<Rightarrow> c\<lparr>tc_effects := tc_effects c @ [TcShutdown conn]\<rparr>
      | None \<Rightarrow> c)"

definition TcpClient_stop :: "bool \<Rightarrow> bool \<Rightarrow> tcp_client \<Rightarrow> tcp_client option" where
  "TcpClient_stop inLoop active c = do {
     let c = c\<lparr>tc_connect := False\<rparr>;
     k \<leftarrow> Connector_stop inLoop active (tc_connector c);
     Some (c\<lparr>tc_connector := k\<rparr>) }"

definition client_newConnection :: "bool \<Rightarrow> string \<Rightarrow> fd \<Rightarrow> tcp_client \<Rightarrow> tcp_client option" where
  "client_newConnection inLoop peerIpPort sockfd c = do {
     assert_that inLoop;
     let buf = snprintf 32 ('':'' @ peerIpPort @ ''#'' @ dec_int (tc_nextConnId c));
     let connName = tc_name c @ buf;
     let conn = length (tc_conns c);
     Some (c\<lparr>tc_nextConnId := tc_nextConnId c + 1, tc_conns := tc_conns c @ [(connName, sockfd)],
            tc_connection := Some conn, tc_effects := tc_effects c @ [TcEstablished conn]\<rparr>) }"

definition client_removeConnection :: "bool \<Rightarrow> fd \<times> int \<Rightarrow> nat \<Rightarrow> tcp_client \<Rightarrow> tcp_client option" where
  "client_removeConnection inLoop result conn c = do {
     assert_that inLoop;
     assert_that (tc_connection c = Some conn);
     let c = c\<lparr>tc_connection := None\<rparr>;
     let c = c\<lparr>tc_effects := tc_effects c @ [TcQueueDestroyed conn]\<rparr>;
     if tc_retry c \<and> tc_connect c then do {
       k \<leftarrow> Connector_restart inLoop result (tc_connector c);
       Some (c\<lparr>tc_connector := k\<rparr>) }
     else Some c }"

definition TcpClient_dtor :: "bool \<Rightarrow> bool \<Rightarrow> tcp_client \<Rightarrow> tcp_client option" where
  "TcpClient_dtor inLoop active c =
     (case tc_connection c of
        Some conn \<Rightarrow> Some (c\<lparr>tc_effects := tc_effects c @ [TcSetDetachedClose conn]\<rparr>)
      | None \<Rightarrow> do {
          k \<leftarrow> Connector_stop inLoop active (tc_connector c);
          Some (c\<lparr>tc_connector := k, tc_effects := tc_effects c @ [TcRunAfter 1]\<rparr>) })"

subsection \<open>Iterations of the loop\<close>

text \<open>
  The connector together with the number of pending retry timers. An event of the connector is
  followed, at the end of the same iteration of the loop, by the queued \<open>resetChannel\<close>. An error
  event of the channel comes with a writable event behind it. \<open>stop\<close> is called in the loop when the channel has no event
  to be handled in the same iteration. Events that cannot happen (no timer
  pending, no channel registered) change nothing.
\<close>

datatype cn_event = TimerFires fd int | CanWrite int bool | ErrorEvent int bool | StopCall

definition new_effects :: "connector \<Rightarrow> connector \<Rightarrow> cn_effect list" where
  "new_effects c c' = drop (length (cn_effects c)) (cn_effects c')"

fun is_run_after :: "cn_effect \<Rightarrow> bool" where
  "is_run_after (CnRunAfter d) \<longleftrightarrow> True"
| "is_run_after _ \<longleftrightarrow> False"

definition end_iteration :: "connector \<Rightarrow> connector \<Rightarrow> nat \<Rightarrow> connector \<times> nat" where
  "end_iteration c c' t =
     (if CnQueueReset \<in> set (new_effects c c') then resetChannel c' else c',
      t + length (filter is_run_after (new_effects c c')))"

fun exec_cn :: "cn_event \<Rightarrow> connector \<times> nat \<Rightarrow> (connector \<times> nat) option" where
  "exec_cn (TimerFires sockfd err) (c, t) =
     (if t = 0 then Some (c, t)
      else do { c' \<leftarrow> startInLoop True (sockfd, err) c; Some (end_iteration c c' (t - 1)) })"
| "exec_cn (CanWrite err self) (c, t) =
     (if cn_channel c = None then Some (c, t)
      else do { c' \<leftarrow> cn_handleWrite err self c; Some (end_iteration c c' t) })"
| "exec_cn (ErrorEvent err self) (c, t) =
     (if cn_channel c = None then Some (c, t)
      else do { c1 \<leftarrow> cn_handleError c; c' \<leftarrow> cn_handleWrite err self c1; Some (end_iteration c c' t) })"
| "exec_cn StopCall (c, t) = do { c' \<leftarrow> Connector_stop True False c; Some (end_iteration c c' t) }"

primrec exec_cns :: "cn_event list \<Rightarrow> connector \<times> nat \<Rightarrow> (connector \<times> nat) option" where
  "exec_cns [] s = Some s"
| "exec_cns (e # es) s = exec_cn e s \<bind> exec_cns es"

definition sockets_of :: "(cn_effect \<Rightarrow> fd option) \<Rightarrow> connector \<Rightarrow> fd multiset" where
  "sockets_of f c = mset (List.map_filter f (cn_effects c))"

fun opens :: "cn_effect \<Rightarrow> fd option" where
  "opens (CnOpen s) = Some s"
| "opens _ = None"

fun closes :: "cn_effect \<Rightarrow> fd option" where
  "closes (CnClose s) = Some s"
| "closes _ = None"

fun hands_over :: "cn_effect \<Rightarrow> fd option" where
  "hands_over (CnNewConnection s) = Some s"
| "hands_over _ = None"

definition cn_inv :: "connector \<times> nat \<Rightarrow> bool" where
  "cn_inv s \<longleftrightarrow> (case s of (c, t) \<Rightarrow>
     (cn_state c = cnDisconnected \<and> cn_channel c = None \<and> t \<le> 1 \<or>
      cn_state c = cnConnecting \<and> cn_channel c \<noteq> None \<and> t = 0 \<or>
      cn_state c = cnConnected \<and> cn_channel c = None \<and> t = 0) \<and>
     kInitRetryDelayMs \<le> cn_retryDelayMs c \<and> cn_retryDelayMs c \<le> kMaxRetryDelayMs \<and>
     sockets_of opens c = sockets_of closes c + sockets_of hands_over c +
       (case cn_channel c of None \<Rightarrow> {#} | Some s \<Rightarrow> {#s#}))"

lemma cn_emit_simps [simp]:
  "cn_state (cn_emit e c) = cn_state c" "cn_channel (cn_emit e c) = cn_channel c"
  "cn_connect (cn_emit e c) = cn_connect c" "cn_retryDelayMs (cn_emit e c) = cn_retryDelayMs c"
  "cn_effects (cn_emit e c) = cn_effects c @ [e]"
  by (simp_all add: cn_emit_def)

lemmas cn_ops = startInLoop_def Connector_connect_def connecting_def retry_def Let_def end_iteration_def
  new_effects_def resetChannel_def sockets_of_def removeAndResetChannel_def

lemma map_filter_append: "List.map_filter f (xs @ ys) = List.map_filter f xs @ List.map_filter f ys"
  by (simp add: List.map_filter_def)

lemma timer_inv:
  assumes "cn_inv (c, t)"
  shows "\<exists>s'. exec_cn (TimerFires sockfd err) (c, t) = Some s' \<and> cn_inv s'"
proof (cases "t = 0")
  case False
  then have "cn_state c = cnDisconnected" "cn_channel c = None" "t = 1" using assms by (auto simp: cn_inv_def)
  then show ?thesis
    using assms by (auto simp: cn_inv_def cn_ops List.map_filter_simps map_filter_append kInitRetryDelayMs_def kMaxRetryDelayMs_def)
qed (use assms in simp)

lemma write_inv:
  assumes "cn_inv (c, t)"
  shows "\<exists>s'. exec_cn (CanWrite err self) (c, t) = Some s' \<and> cn_inv s'"
proof (cases "cn_channel c")
  case (Some s)
  then have "cn_state c = cnConnecting" "t = 0" using assms by (auto simp: cn_inv_def)
  then show ?thesis
    using assms Some by (auto simp: cn_inv_def cn_handleWrite_def cn_ops List.map_filter_simps map_filter_append
        kInitRetryDelayMs_def kMaxRetryDelayMs_def)
qed (use assms in simp)

lemma error_inv:
  assumes "cn_inv (c, t)"
  shows "\<exists>s'. exec_cn (ErrorEvent err self) (c, t) = Some s' \<and> cn_inv s'"
proof (cases "cn_channel c")
  case (Some s)
  then have "cn_state c = cnConnecting" "t = 0" using assms by (auto simp: cn_inv_def)
  then show ?thesis
    using assms Some by (auto simp: cn_inv_def cn_handleError_def cn_handleWrite_def cn_ops List.map_filter_simps
        map_filter_append kInitRetryDelayMs_def kMaxRetryDelayMs_def)
qed (use assms in simp)

lemma stop_inv:
  assumes "cn_inv (c, t)"
  shows "\<exists>s'. exec_cn StopCall (c, t) = Some s' \<and> cn_inv s'"
  using assms
  by (cases "cn_state c") (auto simp: cn_inv_def Connector_stop_def stopInLoop_def cn_ops List.map_filter_simps
      map_filter_append split: option.splits)

lemma exec_cns_inv: "cn_inv s \<Longrightarrow> \<exists>s'. exec_cns es s = Some s' \<and> cn_inv s'"
proof (induction es arbitrary: s)
  case (Cons e es)
  obtain c t where s: "s = (c, t)" by (cases s)
  have "\<exists>s1. exec_cn e s = Some s1 \<and> cn_inv s1"
    using Cons.prems timer_inv write_inv error_inv stop_inv unfolding s by (cases e) blast+
  then show ?case using Cons.IH by fastforce
qed simp

subsection \<open>What the connector promises\<close>

definition cn_begin :: "fd \<times> int \<Rightarrow> (connector \<times> nat) option" where
  "cn_begin result = do {
     c' \<leftarrow> Connector_start True result Connector_ctor;
     Some (end_iteration Connector_ctor c' 0) }"

lemma cn_begin_inv: "\<exists>s. cn_begin result = Some s \<and> cn_inv s"
  by (cases result) (auto simp: cn_begin_def Connector_start_def Connector_ctor_def cn_inv_def cn_ops cn_emit_def
      List.map_filter_simps map_filter_append kInitRetryDelayMs_def kMaxRetryDelayMs_def)

lemma cn_inv_dest:
  assumes "cn_inv (c, t)"
  shows "kInitRetryDelayMs \<le> cn_retryDelayMs c" "cn_retryDelayMs c \<le> kMaxRetryDelayMs" "t \<le> 1"
    "sockets_of opens c = sockets_of closes c + sockets_of hands_over c + mset_set (set_option (cn_channel c))"
    "cn_channel c \<noteq> None \<longleftrightarrow> cn_state c = cnConnecting"
  using assms by (auto simp: cn_inv_def split: option.splits)

text \<open>
  After \<open>start\<close> on a new connector, whatever the sequence of events that follows (retry timers
  that fire with any outcome of \<open>connect\<close>, writable and error events of the channel, calls of
  \<open>stop\<close>), no assertion of the connector fails; every socket it created has been closed exactly
  once, has been handed over exactly once, or is the socket of the current channel, never two of
  these; there is a channel exactly while the state is \<open>kConnecting\<close>; at most one retry timer
  is pending and the delay stays between 0.5 and 30 seconds.
\<close>
theorem connector_safe:
  "\<exists>c t. cn_begin result \<bind> exec_cns events = Some (c, t) \<and>
     sockets_of opens c =
       sockets_of closes c + sockets_of hands_over c + mset_set (set_option (cn_channel c)) \<and>
     (cn_channel c \<noteq> None \<longleftrightarrow> cn_state c = cnConnecting) \<and> t \<le> 1 \<and>
     kInitRetryDelayMs \<le> cn_retryDelayMs c \<and> cn_retryDelayMs c \<le> kMaxRetryDelayMs"
proof -
  obtain s where "cn_begin result = Some s" "cn_inv s" using cn_begin_inv by blast
  moreover obtain c t where "exec_cns events s = Some (c, t)" "cn_inv (c, t)"
    using exec_cns_inv [OF \<open>cn_inv s\<close>, of events] by (metis prod.exhaust)
  ultimately show ?thesis using cn_inv_dest [of c t] by auto
qed

definition backoff :: "nat \<Rightarrow> int" where
  "backoff i = min (500 * 2 ^ i) 30000"

lemma backoff_Suc: "min (backoff i * 2) kMaxRetryDelayMs = backoff (Suc i)"
  by (simp add: backoff_def kMaxRetryDelayMs_def min_def)

fun run_after_delay :: "cn_effect \<Rightarrow> int option" where
  "run_after_delay (CnRunAfter d) = Some d"
| "run_after_delay _ = None"

definition cn_delays :: "connector \<Rightarrow> int list" where
  "cn_delays c = List.map_filter run_after_delay (cn_effects c)"

lemma timer_refused:
  assumes "cn_state c = cnDisconnected" "cn_connect c" "connect_retryable (snd r)" "cn_retryDelayMs c = backoff i"
  shows "\<exists>c'. exec_cn (TimerFires (fst r) (snd r)) (c, Suc 0) = Some (c', Suc 0) \<and> cn_state c' = cnDisconnected \<and>
     cn_connect c' \<and> cn_retryDelayMs c' = backoff (Suc i) \<and> cn_delays c' = cn_delays c @ [backoff i]"
  using assms backoff_Suc [of i]
  by (auto simp: cn_ops cn_delays_def List.map_filter_simps map_filter_append connect_started_def connect_retryable_def)

lemma timers_refused:
  assumes "cn_state c = cnDisconnected" "cn_connect c" "\<forall>r \<in> set rs. connect_retryable (snd r)"
    "cn_retryDelayMs c = backoff i"
  shows "\<exists>c'. exec_cns (map (\<lambda>r. TimerFires (fst r) (snd r)) rs) (c, Suc 0) = Some (c', Suc 0) \<and>
     cn_delays c' = cn_delays c @ map backoff [i ..< i + length rs]"
  using assms
proof (induction rs arbitrary: c i)
  case (Cons r rs)
  obtain c1 where c1: "exec_cn (TimerFires (fst r) (snd r)) (c, Suc 0) = Some (c1, Suc 0)"
    "cn_state c1 = cnDisconnected" "cn_connect c1" "cn_retryDelayMs c1 = backoff (Suc i)"
    "cn_delays c1 = cn_delays c @ [backoff i]"
    using timer_refused Cons.prems by (meson list.set_intros(1))
  have "[i ..< i + length (r # rs)] = i # [Suc i ..< Suc i + length rs]"
    by (subst upt_conv_Cons) simp_all
  with Cons.IH [of c1 "Suc i"] c1 Cons.prems show ?case
    by (auto simp del: exec_cn.simps upt_Suc)
qed simp

text \<open>
  While every attempt to connect fails with an error that allows another attempt, the
  connector always has one retry timer pending and arms the timer of attempt \<open>i\<close> (from zero)
  with \<open>500 * 2^i\<close> milliseconds, at most 30 seconds.
\<close>
theorem connector_backoff:
  assumes "\<forall>r \<in> set (r0 # rs). connect_retryable (snd r)"
  shows "\<exists>c. cn_begin r0 \<bind> exec_cns (map (\<lambda>r. TimerFires (fst r) (snd r)) rs) = Some (c, 1) \<and>
     cn_delays c = map (\<lambda>i. min (500 * 2 ^ i) 30000) [0 ..< Suc (length rs)]"
proof -
  have "\<exists>c. cn_begin r0 = Some (c, Suc 0) \<and> cn_state c = cnDisconnected \<and> cn_connect c \<and>
      cn_retryDelayMs c = backoff 1 \<and> cn_delays c = [backoff 0]"
    using assms
    by (cases r0) (auto simp: cn_begin_def Connector_start_def Connector_ctor_def cn_ops cn_emit_def cn_delays_def backoff_def
        List.map_filter_simps kInitRetryDelayMs_def kMaxRetryDelayMs_def connect_started_def connect_retryable_def)
  then obtain c where c: "cn_begin r0 = Some (c, Suc 0)" "cn_state c = cnDisconnected" "cn_connect c"
    "cn_retryDelayMs c = backoff 1" "cn_delays c = [backoff 0]" by blast
  have "[0 ..< Suc (length rs)] = 0 # [1 ..< 1 + length rs]" by (subst upt_conv_Cons) simp_all
  with timers_refused [of c rs 1] c assms show ?thesis
    by (auto simp: backoff_def simp del: upt_Suc)
qed

theorem connector_backoff_witness:
  "\<exists>c. cn_begin (5, 111) \<bind>
       exec_cns (map (\<lambda>r. TimerFires (fst r) (snd r)) [(5, 111), (6, 111), (7, 111), (5, 101), (5, 111), (5, 11), (5, 111)]) =
     Some (c, 1) \<and> cn_delays c = [500, 1000, 2000, 4000, 8000, 16000, 30000, 30000]"
  using connector_backoff [of "(5, 111)" "[(5, 111), (6, 111), (7, 111), (5, 101), (5, 111), (5, 11), (5, 111)]"]
  by (simp add: connect_retryable_def upt_rec)

text \<open>
  C38: \<open>stop\<close> does not cancel the retry timer (the source has a note that it should). After a
  refused attempt, \<open>stop\<close> and then \<open>start\<close> with a connection in progress, the old timer still
  fires, and the assertion in \<open>startInLoop\<close> fails, whatever \<open>connect\<close> would return then.
\<close>
theorem connector_stale_timer:
  assumes "connect_retryable err" "connect_started err'"
  shows "\<exists>c c'. cn_begin (s, err) \<bind> exec_cns [StopCall] = Some (c, 1) \<and>
     Connector_start True (s', err') c = Some c' \<and> exec_cn (TimerFires s'' err'') (c', 1) = None"
  using assms
  by (auto simp: cn_begin_def Connector_start_def Connector_stop_def stopInLoop_def Connector_ctor_def cn_ops cn_emit_def
      List.map_filter_simps connect_started_def connect_retryable_def assert_that_def)

theorem connector_stale_timer_witness:
  "\<exists>c c'. cn_begin (5, 111) \<bind> exec_cns [StopCall] = Some (c, 1) \<and>
     Connector_start True (6, 115) c = Some c' \<and> exec_cn (TimerFires 7 115) (c', 1) = None"
  using connector_stale_timer [of 111 115 5 6 7 115] by (simp add: connect_retryable_def connect_started_def)

text \<open>
  When the current connection of a client goes down, \<open>removeConnection\<close> forgets it and queues
  its destruction. It connects again (a new attempt, with the delay reset) exactly when \<open>retry_\<close>
  is on and the user has not called \<open>disconnect\<close> or \<open>stop\<close>. A connection that is not the
  current one is an assertion failure.
\<close>
theorem client_reconnects:
  assumes "cn_channel (tc_connector c) = None"
  shows "if tc_connection c \<noteq> Some conn then client_removeConnection True (s, err) conn c = None
     else \<exists>c'. client_removeConnection True (s, err) conn c = Some c' \<and> tc_connection c' = None \<and>
        tc_effects c' = tc_effects c @ [TcQueueDestroyed conn] \<and>
        (if tc_retry c \<and> tc_connect c
         then CnOpen s \<in> set (new_effects (tc_connector c) (tc_connector c')) \<and>
              (connect_retryable err \<and> \<not> connect_started err \<longrightarrow>
                CnRunAfter kInitRetryDelayMs \<in> set (new_effects (tc_connector c) (tc_connector c')))
         else tc_connector c' = tc_connector c)"
  using assms
  by (auto simp: client_removeConnection_def Connector_restart_def cn_ops assert_that_def)

theorem client_reconnects_witness:
  "(let c = \<lparr>tc_name = ''c'', tc_connector = Connector_ctor\<lparr>cn_state := cnConnected, cn_retryDelayMs := 4000\<rparr>,
        tc_retry = True, tc_connect = True, tc_nextConnId = 2, tc_connection = Some 0, tc_conns = [(''c:1'', 5)],
        tc_effects = []\<rparr> in
     \<exists>c'. client_removeConnection True (6, 111) 0 c = Some c' \<and> tc_connection c' = None \<and>
        CnRunAfter 500 \<in> set (new_effects (tc_connector c) (tc_connector c')))"
  using client_reconnects [where conn = 0 and s = 6 and err = 111 and c = "\<lparr>tc_name = ''c'', tc_connector = Connector_ctor\<lparr>cn_state := cnConnected, cn_retryDelayMs := 4000\<rparr>,
        tc_retry = True, tc_connect = True, tc_nextConnId = 2, tc_connection = Some 0, tc_conns = [(''c:1'', 5)],
        tc_effects = []\<rparr>"]
  by (simp add: Connector_ctor_def connect_retryable_def connect_started_def kInitRetryDelayMs_def Let_def) blast

end
