(* ===== verification/ClientLife.thy ===== *)
theory ClientLife
  imports ServerLife Connector
begin

text \<open>
  The life of a \<open>TcpClient\<close>: \<open>TcpClient.cc\<close>, \<open>Connector.cc\<close> and \<open>TcpConnection.cc\<close> together, in one loop. The
  connector makes sockets until one is connected, the client makes a connection of it, and when the connection
  goes down the client lets the connector start again. They hand each other work through the functor queue of the loop
  (\<open>startInLoop\<close>, \<open>stopInLoop\<close>, \<open>resetChannel\<close>, \<open>connectionDestroyed\<close> and the connection's own functors) and
  through retry timers. \<open>lw_timers\<close> counts the timers that have been set and have not fired.
\<close>

subsection \<open>The client and its loop\<close>

datatype client_functor = StartInLoop | StopInLoop | ResetChannel | ConnDestroyed nat | ClientTask nat conn_functor

record client_world =
  lw_client :: tcp_client
  lw_conns :: "tcp_conn list"
  lw_timers :: nat
  lw_queue :: "client_functor list"

abbreviation lw_connector :: "client_world \<Rightarrow> connector" where
  "lw_connector w \<equiv> tc_connector (lw_client w)"

fun cn_functor :: "cn_effect \<Rightarrow> client_functor option" where
  "cn_functor CnQueueStart = Some StartInLoop"
| "cn_functor CnQueueStop = Some StopInLoop"
| "cn_functor CnQueueReset = Some ResetChannel"
| "cn_functor _ = None"

text \<open>The client after a call of its connector that \<open>k\<close> has gone through: functors and timers are handed to the loop.\<close>

definition after_connector :: "connector \<Rightarrow> client_world \<Rightarrow> client_world" where
  "after_connector k w =
     (let es = new_effects k (lw_connector w) in
      w\<lparr>lw_timers := lw_timers w + length (filter is_run_after es), lw_queue := lw_queue w @ List.map_filter cn_functor es\<rparr>)"

definition on_connector :: "(connector \<Rightarrow> connector option) \<Rightarrow> client_world \<Rightarrow> client_world option" where
  "on_connector op w = do {
     k \<leftarrow> op (lw_connector w);
     Some (after_connector (lw_connector w) (w\<lparr>lw_client := (lw_client w)\<lparr>tc_connector := k\<rparr>\<rparr>)) }"

text \<open>\<open>TcpClient::removeConnection\<close>; \<open>result\<close> is what a new attempt to connect would give.\<close>

definition life_closed :: "fd \<times> int \<Rightarrow> nat \<Rightarrow> client_world \<Rightarrow> client_world option" where
  "life_closed result c w = do {
     cl \<leftarrow> client_removeConnection True result c (lw_client w);
     Some (after_connector (lw_connector w) (w\<lparr>lw_client := cl, lw_queue := lw_queue w @ [ConnDestroyed c]\<rparr>)) }"

text \<open>A call of a connection. The close callback is the last thing that \<open>handleClose\<close> does.\<close>

definition on_client_conn :: "fd \<times> int \<Rightarrow> nat \<Rightarrow> (tcp_conn \<Rightarrow> tcp_conn option) \<Rightarrow> client_world \<Rightarrow> client_world option" where
  "on_client_conn result c op w = do {
     conn \<leftarrow> op (lw_conns w ! c);
     let es = drop (length (effects (lw_conns w ! c))) (effects conn);
     let w = w\<lparr>lw_conns := (lw_conns w)[c := conn], lw_queue := lw_queue w @ map (ClientTask c) (queued es)\<rparr>;
     if ECloseCallback \<in> set es then life_closed result c w else Some w }"

text \<open>\<open>TcpClient::newConnection\<close>, which the connector calls at the end of \<open>handleWrite\<close>.\<close>

definition life_connected :: "user_code \<Rightarrow> (nat \<Rightarrow> sys_write) \<Rightarrow> string \<Rightarrow> fd \<Rightarrow> client_world \<Rightarrow> client_world option" where
  "life_connected u W peer sockfd w = do {
     let c = length (lw_conns w);
     cl \<leftarrow> client_newConnection True peer sockfd (lw_client w);
     conn \<leftarrow> TcpConnection_ctor (fst (last (tc_conns cl))) sockfd;
     on_client_conn (0, 0) c (connectionEstablished u (W c) True) (w\<lparr>lw_client := cl, lw_conns := lw_conns w @ [conn]\<rparr>) }"

definition connector_writable :: "user_code \<Rightarrow> (nat \<Rightarrow> sys_write) \<Rightarrow> string \<Rightarrow> (connector \<Rightarrow> connector option) \<Rightarrow> client_world \<Rightarrow> client_world option" where
  "connector_writable u W peer op w = do {
     w' \<leftarrow> on_connector op w;
     case List.map_filter hands_over (new_effects (lw_connector w) (lw_connector w')) of
       [] \<Rightarrow> Some w'
     | sockfd # _ \<Rightarrow> life_connected u W peer sockfd w' }"

definition run_client_functor :: "user_code \<Rightarrow> (nat \<Rightarrow> sys_write) \<Rightarrow> fd \<times> int \<Rightarrow> client_functor \<Rightarrow> client_world \<Rightarrow> client_world option" where
  "run_client_functor u W result f w =
     (case f of
        StartInLoop \<Rightarrow> on_connector (startInLoop True result) w
      | StopInLoop \<Rightarrow> on_connector (stopInLoop True False) w
      | ResetChannel \<Rightarrow> on_connector (\<lambda>k. Some (resetChannel k)) w
      | ConnDestroyed c \<Rightarrow> on_client_conn result c (connectionDestroyed u (W c) True) w
      | ClientTask c f \<Rightarrow> on_client_conn result c (run_functor u (W c) f) w)"

definition life_disconnect :: "bool \<Rightarrow> client_world \<Rightarrow> client_world option" where
  "life_disconnect inLoop w =
     (let w' = w\<lparr>lw_client := TcpClient_disconnect (lw_client w)\<rparr> in
      case tc_connection (lw_client w) of
        Some c \<Rightarrow> on_client_conn (0, 0) c (conn_shutdown inLoop) w'
      | None \<Rightarrow> Some w')"

definition life_stop :: "bool \<Rightarrow> bool \<Rightarrow> client_world \<Rightarrow> client_world option" where
  "life_stop inLoop active w = do {
     cl \<leftarrow> TcpClient_stop inLoop active (lw_client w);
     Some (after_connector (lw_connector w) (w\<lparr>lw_client := cl\<rparr>)) }"

text \<open>
  The pairs are the outcomes of \<open>socket\<close> and \<open>connect\<close>, for the events that may lead to an attempt to connect; an
  error event comes with a writable event behind it. \<open>Stop inLoop active\<close> is a call of \<open>stop\<close>, in the thread of the loop or
  in another one, where \<open>active\<close> says that the loop is handling events of other channels and the connector's channel is in the same list of active channels.
  Functors run when the loop does not handle events.
\<close>

datatype client_life_event =
    RunTask "fd \<times> int"
  | RetryTimer "fd \<times> int"
  | ConnectorWrite int bool string
  | ConnectorError int bool string
  | ConnHandler nat conn_cb "size_t \<Rightarrow> int + bytes" int "fd \<times> int"
  | ConnCall nat api_call
  | Disconnect bool
  | Stop bool bool

definition exec_client :: "user_code \<Rightarrow> (nat \<Rightarrow> sys_write) \<Rightarrow> client_life_event \<Rightarrow> client_world \<Rightarrow> client_world option" where
  "exec_client u W e w =
     (case e of
        RunTask result \<Rightarrow> (case lw_queue w of
            [] \<Rightarrow> Some w
          | f # fs \<Rightarrow> run_client_functor u W result f (w\<lparr>lw_queue := fs\<rparr>))
      | RetryTimer result \<Rightarrow> on_connector (startInLoop True result) (w\<lparr>lw_timers := lw_timers w - 1\<rparr>)
      | ConnectorWrite err self peer \<Rightarrow> connector_writable u W peer (cn_handleWrite err self) w
      | ConnectorError err self peer \<Rightarrow> connector_writable u W peer (\<lambda>k. cn_handleError k \<bind> cn_handleWrite err self) w
      | ConnHandler c cb readv t result \<Rightarrow> on_client_conn result c (run_cb u (W c) readv t cb) w
      | ConnCall c a \<Rightarrow> on_client_conn (0, 0) c (exec_api (W c) True a) w
      | Disconnect inLoop \<Rightarrow> life_disconnect inLoop w
      | Stop inLoop active \<Rightarrow> life_stop inLoop active w)"

text \<open>
  When an event can happen. A channel is in the list of active channels at most once. The connector has taken its channel out of the poller
  when \<open>resetChannel\<close> is queued; so there is no further event of this channel before \<open>resetChannel\<close> has run, as \<open>stop\<close> does not get that far while an event
  of the channel is still to be handled. Nor does an event of a connection or of a retry timer fall into that time. When a handler of the channel has
  queued \<open>resetChannel\<close>, it runs at the end of the same iteration of the loop, before a retry timer, set for half a second at least, can fire and before the new
  connection is polled for; when the functor of \<open>stop\<close> has queued it, there is neither a timer nor a connection.
  \<open>E\<close> are the errors that \<open>connect\<close> may give.
\<close>

definition client_can :: "int set \<Rightarrow> client_life_event \<Rightarrow> client_world \<Rightarrow> bool" where
  "client_can E e w \<longleftrightarrow>
     (case e of
        RunTask result \<Rightarrow> lw_queue w \<noteq> [] \<and> snd result \<in> E
      | RetryTimer result \<Rightarrow> lw_timers w > 0 \<and> ResetChannel \<notin> set (lw_queue w) \<and> snd result \<in> E
      | ConnectorWrite err self peer \<Rightarrow> cn_channel (lw_connector w) \<noteq> None \<and> ResetChannel \<notin> set (lw_queue w)
      | ConnectorError err self peer \<Rightarrow> cn_channel (lw_connector w) \<noteq> None \<and> ResetChannel \<notin> set (lw_queue w)
      | ConnHandler c cb readv t result \<Rightarrow> c < length (lw_conns w) \<and> ResetChannel \<notin> set (lw_queue w) \<and> snd result \<in> E \<and>
          (let ch = conn_channel (lw_conns w ! c) in
           case cb of HandleRead \<Rightarrow> isReading ch | HandleWrite \<Rightarrow> isWriting ch | _ \<Rightarrow> \<not> isNoneEvent ch)
      | ConnCall c a \<Rightarrow> c < length (lw_conns w)
      | Stop inLoop active \<Rightarrow> active \<longrightarrow> inLoop \<and> cn_channel (lw_connector w) \<noteq> None
      | _ \<Rightarrow> True)"

text \<open>\<open>connect\<close> has been called on a new client, from any thread.\<close>

definition client_begin :: "string \<Rightarrow> bool \<Rightarrow> client_world" where
  "client_begin name retries =
     (let cl = (if retries then enableRetry (TcpClient_ctor name) else TcpClient_ctor name);
          w = \<lparr>lw_client = cl\<lparr>tc_connector := cn_emit CnQueueStart ((tc_connector cl)\<lparr>cn_connect := True\<rparr>)\<rparr>, lw_conns = [], lw_timers = 0, lw_queue = []\<rparr>
      in after_connector (tc_connector cl) w)"

lemma client_begin_connect:
  "TcpClient_connect False result (if retries then enableRetry (TcpClient_ctor name) else TcpClient_ctor name) =
     Some (lw_client (client_begin name retries))"
  by (simp add: client_begin_def TcpClient_connect_def Connector_start_def after_connector_def Let_def TcpClient_ctor_def enableRetry_def)

inductive client_reachable :: "user_code \<Rightarrow> (nat \<Rightarrow> sys_write) \<Rightarrow> int set \<Rightarrow> client_world \<Rightarrow> client_world \<Rightarrow> bool"
  for u W E w0 where
  start: "client_reachable u W E w0 w0"
| step: "client_reachable u W E w0 w \<Longrightarrow> client_can E e w \<Longrightarrow> exec_client u W e w = Some w' \<Longrightarrow> client_reachable u W E w0 w'"

subsection \<open>The invariant\<close>

text \<open>The connector, its timers and the queue; \<open>up\<close> says whether the client has a connection.\<close>

definition cn_queue_inv :: "bool \<Rightarrow> connector \<Rightarrow> nat \<Rightarrow> client_functor list \<Rightarrow> bool" where
  "cn_queue_inv up k t q \<longleftrightarrow>
     count_list q ResetChannel = (if cn_channel k \<noteq> None \<and> cn_state k \<noteq> cnConnecting then 1 else 0) \<and>
     (cn_state k = cnConnecting \<longrightarrow> cn_channel k \<noteq> None) \<and>
     t + count_list q StartInLoop \<le> (if cn_state k = cnDisconnected then 1 else 0) \<and>
     (StartInLoop \<in> set q \<longrightarrow> cn_channel k = None) \<and>
     (up \<longrightarrow> cn_state k = cnConnected)"

definition socket_inv :: "fd list \<Rightarrow> connector \<Rightarrow> bool" where
  "socket_inv fds k \<longleftrightarrow> sockets_of opens k = sockets_of closes k + mset fds +
     (if cn_state k = cnConnecting then mset_set (set_option (cn_channel k)) else {#})"

text \<open>The client keeps trying: it is about to start, to retry, or connecting, or it has a connection.\<close>

definition trying :: "tcp_client \<Rightarrow> nat \<Rightarrow> client_functor list \<Rightarrow> bool" where
  "trying cl t q \<longleftrightarrow> StartInLoop \<in> set q \<or> t > 0 \<or> cn_state (tc_connector cl) = cnConnecting \<or> tc_connection cl \<noteq> None"

definition conns_inv :: "nat option \<Rightarrow> tcp_conn list \<Rightarrow> client_functor list \<Rightarrow> phase list \<Rightarrow> bool" where
  "conns_inv cur conns q ph \<longleftrightarrow> length ph = length conns \<and>
     (\<forall>c < length ph. phase_ok (ph ! c) (conns ! c) \<and> ph ! c \<in> {PUp, PRemoving, PGone}) \<and>
     (\<forall>c. cur = Some c \<longleftrightarrow> c < length ph \<and> ph ! c = PUp) \<and>
     (\<forall>c. count_list q (ConnDestroyed c) = (if c < length ph \<and> ph ! c = PRemoving then 1 else 0)) \<and>
     (\<forall>c f. ClientTask c f \<in> set q \<longrightarrow> c < length ph \<and> in_loop_functor f)"

definition keeps_trying :: "int set \<Rightarrow> tcp_client \<Rightarrow> nat \<Rightarrow> client_functor list \<Rightarrow> bool" where
  "keeps_trying E cl t q \<longleftrightarrow>
     ((\<forall>err \<in> E. connect_started err \<or> connect_retryable err) \<longrightarrow> tc_retry cl \<longrightarrow> tc_connect cl \<longrightarrow> trying cl t q)"

definition client_inv :: "int set \<Rightarrow> client_world \<Rightarrow> phase list \<Rightarrow> bool" where
  "client_inv E w ph \<longleftrightarrow>
     cn_queue_inv (tc_connection (lw_client w) \<noteq> None) (lw_connector w) (lw_timers w) (lw_queue w) \<and>
     socket_inv (map snd (tc_conns (lw_client w))) (lw_connector w) \<and>
     conns_inv (tc_connection (lw_client w)) (lw_conns w) (lw_queue w) ph \<and> length (tc_conns (lw_client w)) = length (lw_conns w) \<and>
     (tc_connect (lw_client w) \<longrightarrow> cn_connect (lw_connector w)) \<and> keeps_trying E (lw_client w) (lw_timers w) (lw_queue w)"

lemma client_begin_inv: "client_inv E (client_begin name retries) []"
  by (auto simp: client_inv_def client_begin_def after_connector_def Let_def new_effects_def TcpClient_ctor_def enableRetry_def
      Connector_ctor_def cn_emit_def List.map_filter_simps cn_queue_inv_def socket_inv_def sockets_of_def conns_inv_def
      keeps_trying_def trying_def)

subsection \<open>Steps of the connector\<close>

lemmas life_ops = startInLoop_def stopInLoop_def Connector_connect_def connecting_def retry_def Let_def new_effects_def
  resetChannel_def removeAndResetChannel_def cn_emit_def List.map_filter_simps map_filter_append

text \<open>What a call of the connector does to its part of the invariant, \<open>t\<close> and \<open>q\<close> being the timers and the queue before.\<close>

definition cn_step_ok :: "bool \<Rightarrow> fd list \<Rightarrow> nat \<Rightarrow> client_functor list \<Rightarrow> connector \<Rightarrow> connector \<Rightarrow> bool" where
  "cn_step_ok up fds t q k k' \<longleftrightarrow>
     (let es = new_effects k k' in
      cn_queue_inv up k' (t + length (filter is_run_after es)) (q @ List.map_filter cn_functor es) \<and> socket_inv fds k' \<and>
      set (List.map_filter cn_functor es) \<subseteq> {ResetChannel, StopInLoop})"

text \<open>The connector goes on: it is connecting, or it has set a retry timer.\<close>

definition goes_on :: "connector \<Rightarrow> connector \<Rightarrow> bool" where
  "goes_on k k' \<longleftrightarrow> cn_state k' = cnConnecting \<or> filter is_run_after (new_effects k k') \<noteq> []"

lemma start_step:
  assumes "cn_state k = cnDisconnected" "cn_channel k = None" "count_list q ResetChannel = 0" "StartInLoop \<notin> set q" "socket_inv fds k"
  shows "\<exists>k'. startInLoop True result k = Some k' \<and> cn_step_ok False fds 0 q k k' \<and> cn_connect k' = cn_connect k \<and>
    (cn_connect k \<longrightarrow> connect_started (snd result) \<or> connect_retryable (snd result) \<longrightarrow> goes_on k k')"
  using assms
  by (auto simp: cn_step_ok_def cn_queue_inv_def socket_inv_def sockets_of_def life_ops count_list_0_iff goes_on_def)

lemma stop_step:
  assumes "cn_queue_inv up k t q" "socket_inv fds k"
  shows "\<exists>k'. stopInLoop True False k = Some k' \<and> cn_step_ok up fds t q k k' \<and> cn_connect k' = cn_connect k \<and>
    (if cn_state k = cnConnecting then cn_connect k \<longrightarrow> goes_on k k' else k' = k)"
  using assms
  by (cases "cn_state k"; cases "cn_channel k")
    (auto simp: cn_step_ok_def cn_queue_inv_def socket_inv_def sockets_of_def life_ops count_list_0_iff goes_on_def)

lemma reset_step:
  assumes "cn_queue_inv up k t (ResetChannel # q)" "socket_inv fds k"
  shows "cn_step_ok up fds t q k (resetChannel k)"
  using assms
  by (auto simp: cn_step_ok_def cn_queue_inv_def socket_inv_def sockets_of_def life_ops count_list_0_iff split: if_splits)

lemma handleWrite_step:
  assumes "cn_queue_inv False k t q" "socket_inv fds k" "cn_state k = cnConnecting"
  shows "\<exists>k'. cn_handleWrite err self k = Some k' \<and> cn_connect k' = cn_connect k \<and>
    (case List.map_filter hands_over (new_effects k k') of
       [] \<Rightarrow> cn_step_ok False fds t q k k' \<and> (cn_connect k \<longrightarrow> goes_on k k')
     | sockfd # _ \<Rightarrow> cn_step_ok True (fds @ [sockfd]) t q k k')"
  using assms
  by (cases "cn_channel k")
    (auto simp: cn_step_ok_def cn_queue_inv_def socket_inv_def sockets_of_def life_ops count_list_0_iff goes_on_def cn_handleWrite_def)

lemma handleError_step:
  assumes "cn_queue_inv False k t q" "socket_inv fds k" "cn_state k = cnConnecting"
  shows "\<exists>k'. cn_handleError k \<bind> cn_handleWrite err self = Some k' \<and> cn_connect k' = cn_connect k \<and>
    List.map_filter hands_over (new_effects k k') = [] \<and> cn_step_ok False fds t q k k' \<and> (cn_connect k \<longrightarrow> goes_on k k')"
  using assms
  by (cases "cn_channel k")
    (auto simp: cn_step_ok_def cn_queue_inv_def socket_inv_def sockets_of_def life_ops count_list_0_iff goes_on_def
      cn_handleWrite_def cn_handleError_def)

subsection \<open>Steps of the connections\<close>

definition of_connector :: "client_functor \<Rightarrow> bool" where
  "of_connector f \<longleftrightarrow> f \<in> {StartInLoop, StopInLoop, ResetChannel}"

lemma conns_inv_add: "conns_inv cur conns q ph \<Longrightarrow> list_all of_connector fs \<Longrightarrow> conns_inv cur conns (q @ fs) ph"
  by (auto simp: conns_inv_def of_connector_def list_all_iff count_list_0_iff)

lemma conns_inv_pop: "conns_inv cur conns (f # q) ph \<Longrightarrow> \<forall>c. f \<noteq> ConnDestroyed c \<Longrightarrow> conns_inv cur conns q ph"
  by (auto simp: conns_inv_def)

lemma count_tasks [simp]: "\<forall>d t. g \<noteq> ClientTask d t \<Longrightarrow> count_list (map (ClientTask c) ts) g = 0"
  by (auto simp: count_list_0_iff)

lemma conns_inv_stay:
  assumes "conns_inv cur conns q ph" "c < length ph" "phase_ok (ph ! c) conn" "\<forall>f \<in> set ts. in_loop_functor f"
  shows "conns_inv cur (conns[c := conn]) (q @ map (ClientTask c) ts) ph"
  using assms by (auto simp: conns_inv_def nth_list_update)

lemma conns_inv_close:
  assumes "conns_inv (Some c) conns q ph" "phase_ok PClosing conn" "\<forall>f \<in> set ts. in_loop_functor f"
  shows "conns_inv None (conns[c := conn]) ((q @ map (ClientTask c) ts) @ [ConnDestroyed c]) (ph[c := PRemoving])"
proof -
  have c: "c < length ph" "ph ! c = PUp" "\<And>d. d < length ph \<Longrightarrow> d \<noteq> c \<Longrightarrow> ph ! d \<noteq> PUp"
    using assms(1) by (auto simp: conns_inv_def)
  moreover have "phase_ok PRemoving conn" using assms(2) by (simp add: phase_ok_def)
  ultimately show ?thesis using assms(1,3) by (auto simp: conns_inv_def nth_list_update)
qed

lemma conns_inv_destroy:
  assumes "conns_inv cur conns (ConnDestroyed c # q) ph"
  shows "c < length ph" "ph ! c = PRemoving" "phase_ok PGone conn \<Longrightarrow> conns_inv cur (conns[c := conn]) q (ph[c := PGone])"
proof -
  have count: "\<forall>d. count_list (ConnDestroyed c # q) (ConnDestroyed d) = (if d < length ph \<and> ph ! d = PRemoving then 1 else 0)"
    using assms by (simp add: conns_inv_def)
  from spec [OF this, of c] show c: "c < length ph" "ph ! c = PRemoving" by (simp_all split: if_splits)
  have "count_list q (ConnDestroyed d) = (if d < length ph \<and> ph[c := PGone] ! d = PRemoving then 1 else 0)" for d
    using spec [OF count, of d] c by (cases "d = c") (auto split: if_splits)
  then show "conns_inv cur (conns[c := conn]) q (ph[c := PGone])" if "phase_ok PGone conn"
    using assms that c by (auto simp: conns_inv_def nth_list_update)
qed

lemma conns_inv_new:
  assumes "conns_inv None conns q ph" "phase_ok PUp conn" "\<forall>f \<in> set ts. in_loop_functor f"
  shows "conns_inv (Some (length conns)) (conns @ [conn]) (q @ map (ClientTask (length conns)) ts) (ph @ [PUp])"
proof -
  have "length ph = length conns" "\<And>d. d < length ph \<Longrightarrow> ph ! d \<noteq> PUp" using assms(1) by (auto simp: conns_inv_def)
  then show ?thesis using assms by (auto simp: conns_inv_def nth_append less_Suc_eq)
qed

lemma shutdown_tame: "conn_shutdown inLoop c = Some c' \<Longrightarrow> tame c c'"
  by (auto simp: conn_shutdown_def Let_def split: if_splits elim!: shutdownInLoop_tame intro!: tame_intros)

lemma shutdown_returns: "\<exists>c'. conn_shutdown inLoop c = Some c'"
  by (simp add: conn_shutdown_def shutdownInLoop_def Let_def)

subsection \<open>Every step keeps the invariant\<close>

lemma cn_queue_inv_add: "\<forall>f \<in> set fs. \<not> of_connector f \<Longrightarrow> cn_queue_inv up k t (q @ fs) = cn_queue_inv up k t q"
proof -
  assume "\<forall>f \<in> set fs. \<not> of_connector f"
  then have "StartInLoop \<notin> set fs" "ResetChannel \<notin> set fs" by (auto simp: of_connector_def)
  then show ?thesis by (simp add: cn_queue_inv_def count_list_0_iff)
qed

lemma cn_queue_inv_pop: "f \<noteq> StartInLoop \<Longrightarrow> f \<noteq> ResetChannel \<Longrightarrow> cn_queue_inv up k t (f # q) = cn_queue_inv up k t q"
  by (auto simp: cn_queue_inv_def)

lemma keeps_trying_mono:
  "keeps_trying E cl t q \<Longrightarrow> t \<le> t' \<Longrightarrow> (StartInLoop \<in> set q \<Longrightarrow> StartInLoop \<in> set q') \<Longrightarrow> keeps_trying E cl t' q'"
  by (auto simp: keeps_trying_def trying_def)

lemma after_inv:
  assumes "cn_step_ok (tc_connection (lw_client w) \<noteq> None) (map snd (tc_conns (lw_client w))) (lw_timers w) (lw_queue w) k (lw_connector w)"
    "conns_inv (tc_connection (lw_client w)) (lw_conns w) (lw_queue w) ph" "length (tc_conns (lw_client w)) = length (lw_conns w)"
    "tc_connect (lw_client w) \<longrightarrow> cn_connect (lw_connector w)"
    "keeps_trying E (lw_client w) (lw_timers w + length (filter is_run_after (new_effects k (lw_connector w)))) (lw_queue w)"
  shows "client_inv E (after_connector k w) ph"
proof -
  let ?cl = "lw_client w" and ?q = "lw_queue w" and ?es = "new_effects k (lw_connector w)"
  let ?t = "lw_timers w + length (filter is_run_after ?es)" and ?q' = "lw_queue w @ List.map_filter cn_functor ?es"
  have s: "cn_queue_inv (tc_connection ?cl \<noteq> None) (lw_connector w) ?t ?q'" "socket_inv (map snd (tc_conns ?cl)) (lw_connector w)"
    "list_all of_connector (List.map_filter cn_functor ?es)"
    using assms(1) by (auto simp: cn_step_ok_def Let_def of_connector_def list_all_iff)
  have "conns_inv (tc_connection ?cl) (lw_conns w) ?q' ph" using assms(2) s(3) by (rule conns_inv_add)
  moreover have "keeps_trying E ?cl ?t ?q'" using assms(5) by (rule keeps_trying_mono) simp_all
  ultimately show ?thesis using s(1,2) assms(3,4) by (simp add: client_inv_def after_connector_def Let_def)
qed

lemma goes_on_keeps:
  assumes "goes_on k (tc_connector cl)"
  shows "keeps_trying E cl (t + length (filter is_run_after (new_effects k (tc_connector cl)))) q"
  using assms by (auto simp: goes_on_def keeps_trying_def trying_def)

text \<open>A call of a connection that stays in its phase.\<close>

lemma conn_stay_step:
  assumes inv: "client_inv E w ph" and c: "c < length ph"
    and conn: "op (lw_conns w ! c) = Some conn" "phase_ok (ph ! c) conn" "effects conn = effects (lw_conns w ! c) @ es" "list_all fine es"
  shows "\<exists>w'. on_client_conn result c op w = Some w' \<and> client_inv E w' ph"
proof -
  have "ECloseCallback \<notin> set es" using conn(4) by (auto simp: list_all_iff fine_def)
  moreover have "\<forall>f \<in> set (queued es). in_loop_functor f" using queued_fine [OF conn(4)] by blast
  then have "client_inv E (w\<lparr>lw_conns := (lw_conns w)[c := conn], lw_queue := lw_queue w @ map (ClientTask c) (queued es)\<rparr>) ph"
    using inv conns_inv_stay [OF _ c conn(2)]
    by (auto simp: client_inv_def cn_queue_inv_add of_connector_def intro: keeps_trying_mono)
  ultimately show ?thesis using conn by (simp add: on_client_conn_def Let_def)
qed

lemma conn_tame_step:
  assumes inv: "client_inv E w ph" and c: "c < length ph" and conn: "op (lw_conns w ! c) = Some conn" "tame (lw_conns w ! c) conn"
  shows "\<exists>w'. on_client_conn result c op w = Some w' \<and> client_inv E w' ph"
proof -
  have "phase_ok (ph ! c) (lw_conns w ! c)" "ph ! c \<noteq> PQueued" using inv c by (auto simp: client_inv_def conns_inv_def)
  then have "phase_ok (ph ! c) conn" using tame_phase [OF conn(2)] by blast
  then show ?thesis using conn_stay_step [where op = op, OF inv c conn(1)] tame_fine [OF conn(2)] by blast
qed

text \<open>The connection goes down, and the client starts again if it should.\<close>

lemma closed_step:
  assumes inv: "client_inv E w ph" and cur: "tc_connection (lw_client w) = Some c" "ResetChannel \<notin> set (lw_queue w)" "snd result \<in> E"
    and conns: "conns_inv None conns (lw_queue w @ [ConnDestroyed c]) ph'" "length conns = length (lw_conns w)"
  shows "\<exists>w'. life_closed result c (w\<lparr>lw_conns := conns\<rparr>) = Some w' \<and> client_inv E w' ph'"
proof -
  let ?cl = "(lw_client w)\<lparr>tc_connection := None, tc_effects := tc_effects (lw_client w) @ [TcQueueDestroyed c]\<rparr>"
  let ?q = "lw_queue w @ [ConnDestroyed c]" and ?k = "lw_connector w"
  have I: "cn_queue_inv True ?k (lw_timers w) (lw_queue w)" "socket_inv (map snd (tc_conns ?cl)) ?k" "length (tc_conns ?cl) = length conns"
    using inv cur(1) conns(2) by (simp_all add: client_inv_def)
  then have k: "cn_state ?k = cnConnected" "cn_channel ?k = None" "lw_timers w = 0" "StartInLoop \<notin> set (lw_queue w)"
    using cur(2) by (auto simp: cn_queue_inv_def count_list_0_iff split: if_splits)
  show ?thesis
  proof (cases "tc_retry (lw_client w) \<and> tc_connect (lw_client w)")
    case True
    let ?fresh = "?k\<lparr>cn_state := cnDisconnected, cn_retryDelayMs := kInitRetryDelayMs, cn_connect := True\<rparr>"
    have "socket_inv (map snd (tc_conns ?cl)) ?fresh" using I(2) k by (simp add: socket_inv_def sockets_of_def)
    then obtain k' where k': "startInLoop True result ?fresh = Some k'" "cn_step_ok False (map snd (tc_conns ?cl)) 0 ?q ?fresh k'" "cn_connect k'"
      "connect_started (snd result) \<or> connect_retryable (snd result) \<longrightarrow> goes_on ?fresh k'"
      using start_step [of ?fresh ?q _ result] k cur(2) by (auto simp: count_list_0_iff)
    have ne: "new_effects ?fresh k' = new_effects ?k k'" by (simp add: new_effects_def)
    let ?w = "w\<lparr>lw_conns := conns, lw_client := ?cl\<lparr>tc_connector := k'\<rparr>, lw_queue := ?q\<rparr>"
    have "life_closed result c (w\<lparr>lw_conns := conns\<rparr>) = Some (after_connector ?k ?w)"
      using True cur(1) k' by (simp add: life_closed_def client_removeConnection_def Connector_restart_def Let_def)
    moreover have "client_inv E (after_connector ?k ?w) ph'"
    proof (rule after_inv)
      show "cn_step_ok (tc_connection (lw_client ?w) \<noteq> None) (map snd (tc_conns (lw_client ?w))) (lw_timers ?w) (lw_queue ?w) ?k (lw_connector ?w)"
        using k'(2) k(3) by (simp add: cn_step_ok_def ne)
      show "keeps_trying E (lw_client ?w) (lw_timers ?w + length (filter is_run_after (new_effects ?k (lw_connector ?w)))) (lw_queue ?w)"
      proof (cases "connect_started (snd result) \<or> connect_retryable (snd result)")
        case True
        then have "goes_on ?k (lw_connector ?w)" using k'(4) by (simp add: goes_on_def ne)
        then show ?thesis by (rule goes_on_keeps)
      qed (use cur(3) in \<open>auto simp: keeps_trying_def\<close>)
    qed (use conns I(3) k'(3) in simp_all)
    ultimately show ?thesis by blast
  next
    case False
    let ?w' = "w\<lparr>lw_conns := conns, lw_client := ?cl, lw_queue := ?q\<rparr>"
    have "life_closed result c (w\<lparr>lw_conns := conns\<rparr>) = Some ?w'"
      using False cur(1) by (auto simp: life_closed_def client_removeConnection_def Let_def after_connector_def new_effects_def List.map_filter_simps)
    moreover have "client_inv E ?w' ph'"
      using inv conns False cur(1) by (auto simp: client_inv_def keeps_trying_def cn_queue_inv_def)
    ultimately show ?thesis by blast
  qed
qed

lemma handler_client_step:
  assumes inv: "client_inv E w ph" and can: "client_can E (ConnHandler c cb readv t result) w"
    and run: "run_cb u (W c) readv t cb (lw_conns w ! c) = Some conn"
  shows "\<exists>w' ph'. on_client_conn result c (run_cb u (W c) readv t cb) w = Some w' \<and> client_inv E w' ph'"
proof -
  have C: "conns_inv (tc_connection (lw_client w)) (lw_conns w) (lw_queue w) ph" using inv by (simp add: client_inv_def)
  then have c: "c < length ph" "phase_ok (ph ! c) (lw_conns w ! c)" using can by (auto simp: conns_inv_def client_can_def)
  have "\<not> isNoneEvent (conn_channel (lw_conns w ! c))"
    using can by (auto simp: client_can_def Let_def isReading_def isWriting_def isNoneEvent_def kNoneEvent_def split: conn_cb.splits)
  with registered_up c(2) have up: "ph ! c = PUp" by blast
  then have cur: "tc_connection (lw_client w) = Some c" using C c(1) by (auto simp: conns_inv_def)
  from run_cb_phase [OF _ run] c(2) up consider
      (stay) es where "phase_ok (ph ! c) conn" "effects conn = effects (lw_conns w ! c) @ es" "list_all fine es"
    | (close) es where "phase_ok PClosing conn" "effects conn = effects (lw_conns w ! c) @ es @ [ECloseCallback]" "list_all fine es"
    by auto
  then show ?thesis
  proof cases
    case (stay es)
    then show ?thesis using conn_stay_step [where op = "run_cb u (W c) readv t cb", OF inv c(1) run] by blast
  next
    case (close es)
    let ?w = "w\<lparr>lw_queue := lw_queue w @ map (ClientTask c) (queued es)\<rparr>" and ?conns = "(lw_conns w)[c := conn]"
    have fs: "\<forall>f \<in> set (queued es). in_loop_functor f" using queued_fine [OF close(3)] by blast
    have q: "queued (es @ [ECloseCallback]) = queued es" by (simp add: queued_def)
    have "client_inv E ?w ph"
      using inv conns_inv_stay [OF C c fs] by (auto simp: client_inv_def cn_queue_inv_add of_connector_def intro: keeps_trying_mono)
    moreover have "conns_inv None ?conns (lw_queue ?w @ [ConnDestroyed c]) (ph[c := PRemoving])"
      using conns_inv_close [OF _ close(1) fs] C cur by simp
    ultimately have "\<exists>w'. life_closed result c (?w\<lparr>lw_conns := ?conns\<rparr>) = Some w' \<and> client_inv E w' (ph[c := PRemoving])"
      using cur can by (intro closed_step) (auto simp: client_can_def)
    moreover have "?w\<lparr>lw_conns := ?conns\<rparr> = w\<lparr>lw_conns := ?conns, lw_queue := lw_queue w @ map (ClientTask c) (queued es)\<rparr>" by simp
    ultimately show ?thesis using run close(2) q by (auto simp: on_client_conn_def Let_def)
  qed
qed

lemma on_connector_step:
  assumes op: "op (lw_connector w) = Some k'" "cn_connect k' = cn_connect (lw_connector w)"
    and up: "tc_connection (lw_client w) \<noteq> None \<longleftrightarrow> up"
    and ok: "cn_step_ok up (map snd (tc_conns (lw_client w))) (lw_timers w) (lw_queue w) (lw_connector w) k'"
      "conns_inv (tc_connection (lw_client w)) (lw_conns w) (lw_queue w) ph" "length (tc_conns (lw_client w)) = length (lw_conns w)"
      "tc_connect (lw_client w) \<longrightarrow> cn_connect (lw_connector w)"
    and keeps: "keeps_trying E ((lw_client w)\<lparr>tc_connector := k'\<rparr>) (lw_timers w + length (filter is_run_after (new_effects (lw_connector w) k'))) (lw_queue w)"
  shows "\<exists>w'. on_connector op w = Some w' \<and> client_inv E w' ph"
proof -
  have "client_inv E (after_connector (lw_connector w) (w\<lparr>lw_client := (lw_client w)\<lparr>tc_connector := k'\<rparr>\<rparr>)) ph"
    by (rule after_inv) (use assms in simp_all)
  then show ?thesis using op(1) by (simp add: on_connector_def)
qed

text \<open>The functor or the timer that starts an attempt to connect.\<close>

lemma attempt_step:
  assumes inv: "client_inv E w ph"
    and first: "lw_queue w = StartInLoop # q \<and> t = lw_timers w \<or> lw_queue w = q \<and> lw_timers w = Suc t \<and> ResetChannel \<notin> set q"
    and E: "snd result \<in> E"
  shows "\<exists>w'. on_connector (startInLoop True result) (w\<lparr>lw_queue := q, lw_timers := t\<rparr>) = Some w' \<and> client_inv E w' ph"
proof -
  let ?w = "w\<lparr>lw_queue := q, lw_timers := t\<rparr>" and ?k = "lw_connector w" and ?cl = "lw_client w"
  have I: "cn_queue_inv (tc_connection ?cl \<noteq> None) ?k (lw_timers w) (lw_queue w)" "socket_inv (map snd (tc_conns ?cl)) ?k"
      "conns_inv (tc_connection ?cl) (lw_conns w) (lw_queue w) ph" "length (tc_conns ?cl) = length (lw_conns w)"
      "tc_connect ?cl \<longrightarrow> cn_connect ?k"
    using inv by (simp_all add: client_inv_def)
  have k: "cn_state ?k = cnDisconnected" "cn_channel ?k = None" "ResetChannel \<notin> set q" "StartInLoop \<notin> set q" "t = 0"
    using I(1) first by (auto simp: cn_queue_inv_def count_list_0_iff split: if_splits)
  then obtain k' where k': "startInLoop True result ?k = Some k'" "cn_step_ok False (map snd (tc_conns ?cl)) 0 q ?k k'"
      "cn_connect k' = cn_connect ?k" "cn_connect ?k \<longrightarrow> connect_started (snd result) \<or> connect_retryable (snd result) \<longrightarrow> goes_on ?k k'"
    using start_step [of ?k q "map snd (tc_conns ?cl)" result] I(2) by (auto simp: count_list_0_iff)
  have "conns_inv (tc_connection ?cl) (lw_conns w) q ph" using I(3) first conns_inv_pop by auto
  moreover have "tc_connection ?cl = None" using I(1) k(1) by (auto simp: cn_queue_inv_def)
  moreover have "keeps_trying E (?cl\<lparr>tc_connector := k'\<rparr>) (t + length (filter is_run_after (new_effects ?k k'))) q"
  proof (cases "tc_connect ?cl \<and> (connect_started (snd result) \<or> connect_retryable (snd result))")
    case True
    then have "goes_on ?k (tc_connector (?cl\<lparr>tc_connector := k'\<rparr>))" using k'(4) I(5) by simp
    from goes_on_keeps [OF this] show ?thesis by simp
  qed (use E in \<open>auto simp: keeps_trying_def\<close>)
  ultimately show ?thesis
    using k' k(5) I(4,5) by (intro on_connector_step [where up = False]) simp_all
qed

lemma client_invD:
  assumes "client_inv E w ph"
  shows "cn_queue_inv (tc_connection (lw_client w) \<noteq> None) (lw_connector w) (lw_timers w) (lw_queue w)"
    "socket_inv (map snd (tc_conns (lw_client w))) (lw_connector w)"
    "conns_inv (tc_connection (lw_client w)) (lw_conns w) (lw_queue w) ph" "length (tc_conns (lw_client w)) = length (lw_conns w)"
    "tc_connect (lw_client w) \<longrightarrow> cn_connect (lw_connector w)" "keeps_trying E (lw_client w) (lw_timers w) (lw_queue w)"
  using assms by (simp_all add: client_inv_def)

lemma client_inv_pop:
  assumes "client_inv E w ph" "lw_queue w = f # fs" "f \<noteq> StartInLoop" "f \<noteq> ResetChannel" "\<forall>c. f \<noteq> ConnDestroyed c"
  shows "client_inv E (w\<lparr>lw_queue := fs\<rparr>) ph"
  using assms conns_inv_pop [of _ _ f fs ph] cn_queue_inv_pop [of f]
  by (auto simp: client_inv_def intro: keeps_trying_mono)

text \<open>\<open>stop\<close>, and the functor it leaves when it is called in another thread.\<close>

lemma stopInLoop_client_step:
  assumes inv: "client_inv E w ph"
  shows "\<exists>w'. on_connector (stopInLoop True False) w = Some w' \<and> client_inv E w' ph"
proof -
  note I = client_invD [OF inv]
  let ?k = "lw_connector w" and ?cl = "lw_client w"
  obtain k' where k': "stopInLoop True False ?k = Some k'" "cn_connect k' = cn_connect ?k"
      "cn_step_ok (tc_connection ?cl \<noteq> None) (map snd (tc_conns ?cl)) (lw_timers w) (lw_queue w) ?k k'"
      "if cn_state ?k = cnConnecting then cn_connect ?k \<longrightarrow> goes_on ?k k' else k' = ?k"
    using stop_step [OF I(1,2)] by blast
  have "keeps_trying E (?cl\<lparr>tc_connector := k'\<rparr>) (lw_timers w + length (filter is_run_after (new_effects ?k k'))) (lw_queue w)"
  proof (cases "cn_state ?k = cnConnecting \<and> tc_connect ?cl")
    case True
    then have "goes_on ?k (tc_connector (?cl\<lparr>tc_connector := k'\<rparr>))" using k'(4) I(5) by simp
    from goes_on_keeps [OF this] show ?thesis by simp
  next
    case False
    then show ?thesis using k'(4) I(6) by (auto simp: keeps_trying_def trying_def)
  qed
  then show ?thesis using k' I by (intro on_connector_step) simp_all
qed

text \<open>A call of \<open>stop\<close> that wants to remove a channel which the loop still has to handle, or has handled, in this iteration.\<close>

definition stop_fails :: "client_life_event \<Rightarrow> client_world \<Rightarrow> bool" where
  "stop_fails e w \<longleftrightarrow> e = Stop True True \<and> cn_state (lw_connector w) = cnConnecting"

lemma stop_client_aborts:
  assumes "client_inv E w ph" "stop_fails (Stop inLoop active) w"
  shows "life_stop inLoop active w = None"
proof -
  have "cn_channel (lw_connector w) \<noteq> None" using client_invD(1) [OF assms(1)] assms(2) by (auto simp: cn_queue_inv_def stop_fails_def)
  then show ?thesis
    using assms(2) by (auto simp: stop_fails_def life_stop_def TcpClient_stop_def Connector_stop_def stopInLoop_def removeAndResetChannel_def
        Let_def assert_that_def)
qed

lemma stop_client_step:
  assumes inv: "client_inv E w ph" and ok: "\<not> stop_fails (Stop inLoop active) w"
  shows "\<exists>w'. life_stop inLoop active w = Some w' \<and> client_inv E w' ph"
proof -
  note I = client_invD [OF inv]
  let ?cl = "(lw_client w)\<lparr>tc_connect := False\<rparr>" and ?k = "(lw_connector w)\<lparr>cn_connect := False\<rparr>"
  have k: "cn_queue_inv (tc_connection ?cl \<noteq> None) ?k (lw_timers w) (lw_queue w)" "socket_inv (map snd (tc_conns ?cl)) ?k"
    using I(1,2) by (simp_all add: cn_queue_inv_def socket_inv_def sockets_of_def)
  have calm: "stopInLoop True active ?k = stopInLoop True False ?k" if inLoop
    using ok that by (cases active) (auto simp: stop_fails_def stopInLoop_def)
  obtain k' where k': "Connector_stop inLoop active (lw_connector w) = Some k'"
      "cn_step_ok (tc_connection ?cl \<noteq> None) (map snd (tc_conns ?cl)) (lw_timers w) (lw_queue w) ?k k'"
  proof (cases inLoop)
    case True
    then show ?thesis using that stop_step [OF k] calm by (auto simp: Connector_stop_def)
  next
    case False
    have "cn_step_ok (tc_connection ?cl \<noteq> None) (map snd (tc_conns ?cl)) (lw_timers w) (lw_queue w) ?k (cn_emit CnQueueStop ?k)"
      using k by (simp add: cn_step_ok_def Let_def new_effects_def List.map_filter_simps cn_queue_inv_def socket_inv_def sockets_of_def map_filter_append)
    then show ?thesis using that False by (simp add: Connector_stop_def)
  qed
  let ?w = "w\<lparr>lw_client := ?cl\<lparr>tc_connector := k'\<rparr>\<rparr>"
  have "client_inv E (after_connector (lw_connector w) ?w) ph"
  proof (rule after_inv)
    have "new_effects ?k k' = new_effects (lw_connector w) k'" by (simp add: new_effects_def)
    then show "cn_step_ok (tc_connection (lw_client ?w) \<noteq> None) (map snd (tc_conns (lw_client ?w))) (lw_timers ?w) (lw_queue ?w) (lw_connector w) (lw_connector ?w)"
      using k'(2) by (simp add: cn_step_ok_def)
  qed (use I in \<open>simp_all add: keeps_trying_def\<close>)
  then show ?thesis using k'(1) by (simp add: life_stop_def TcpClient_stop_def Let_def)
qed

lemma disconnect_client_step:
  assumes inv: "client_inv E w ph"
  shows "\<exists>w'. life_disconnect inLoop w = Some w' \<and> client_inv E w' ph"
proof -
  let ?w = "w\<lparr>lw_client := TcpClient_disconnect (lw_client w)\<rparr>"
  have inv': "client_inv E ?w ph"
    using inv by (auto simp: client_inv_def TcpClient_disconnect_def Let_def keeps_trying_def split: option.splits)
  show ?thesis
  proof (cases "tc_connection (lw_client w)")
    case (Some c)
    then have c: "c < length ph" using inv by (auto simp: client_inv_def conns_inv_def)
    obtain conn where conn: "conn_shutdown inLoop (lw_conns ?w ! c) = Some conn" using shutdown_returns by blast
    show ?thesis
      using conn_tame_step [where op = "conn_shutdown inLoop", OF inv' c conn shutdown_tame [OF conn]] Some by (simp add: life_disconnect_def Let_def)
  qed (use inv' in \<open>simp add: life_disconnect_def\<close>)
qed

lemma destroy_client_step:
  assumes inv: "client_inv E w ph" and q: "lw_queue w = ConnDestroyed c # fs"
  shows "\<exists>w' ph'. on_client_conn result c (connectionDestroyed u (W c) True) (w\<lparr>lw_queue := fs\<rparr>) = Some w' \<and> client_inv E w' ph'"
proof -
  note I = client_invD [OF inv, unfolded q]
  note D = conns_inv_destroy [OF I(3)]
  have "phase_ok PRemoving (lw_conns w ! c)" using I(3) D(1,2) by (auto simp: conns_inv_def)
  then obtain conn where conn: "connectionDestroyed u (W c) True (lw_conns w ! c) = Some conn" "phase_ok PGone conn"
      "effects conn = effects (lw_conns w ! c) @ [ERemove]"
    using destroyed_phase by blast
  have "client_inv E (w\<lparr>lw_queue := fs, lw_conns := (lw_conns w)[c := conn]\<rparr>) (ph[c := PGone])"
    using I D(3) [OF conn(2)] by (auto simp: client_inv_def cn_queue_inv_pop intro: keeps_trying_mono)
  moreover have "w\<lparr>lw_queue := fs, lw_conns := (lw_conns w)[c := conn]\<rparr> = w\<lparr>lw_conns := (lw_conns w)[c := conn], lw_queue := fs\<rparr>" by simp
  ultimately show ?thesis using conn(1,3) by (auto simp: on_client_conn_def Let_def queued_def)
qed

lemma reset_client_step:
  assumes inv: "client_inv E w ph" and q: "lw_queue w = ResetChannel # fs"
  shows "\<exists>w'. on_connector (\<lambda>k. Some (resetChannel k)) (w\<lparr>lw_queue := fs\<rparr>) = Some w' \<and> client_inv E w' ph"
proof -
  note I = client_invD [OF inv, unfolded q]
  have "new_effects (lw_connector w) (resetChannel (lw_connector w)) = []" by (simp add: new_effects_def resetChannel_def)
  then have "keeps_trying E ((lw_client w)\<lparr>tc_connector := resetChannel (lw_connector w)\<rparr>)
      (lw_timers w + length (filter is_run_after (new_effects (lw_connector w) (resetChannel (lw_connector w))))) fs"
    using I(6) by (auto simp: keeps_trying_def trying_def resetChannel_def)
  then show ?thesis
    using reset_step [OF I(1,2)] conns_inv_pop [OF I(3)] I(4,5) by (intro on_connector_step) (simp_all add: resetChannel_def)
qed

text \<open>The socket is connected or has failed.\<close>

lemma connected_step:
  assumes inv: "client_inv E w ph" and up: "tc_connection (lw_client w) = None" and k: "cn_connect k' = cn_connect (lw_connector w)"
      "cn_step_ok True (map snd (tc_conns (lw_client w)) @ [sockfd]) (lw_timers w) (lw_queue w) (lw_connector w) k'"
  shows "let w' = after_connector (lw_connector w) (w\<lparr>lw_client := (lw_client w)\<lparr>tc_connector := k'\<rparr>\<rparr>) in
    (\<exists>w'' ph'. life_connected u W peer sockfd w' = Some w'' \<and> client_inv E w'' ph') \<or>
    life_connected u W peer sockfd w' = None \<and>
      (\<exists>name conn. TcpConnection_ctor name sockfd = Some conn \<and> connectionEstablished u (W (length (lw_conns w))) True conn = None)"
proof -
  note I = client_invD [OF inv]
  let ?c = "length (lw_conns w)" and ?w' = "after_connector (lw_connector w) (w\<lparr>lw_client := (lw_client w)\<lparr>tc_connector := k'\<rparr>\<rparr>)"
  obtain cl where cl: "client_newConnection True peer sockfd (lw_client ?w') = Some cl" "tc_connection cl = Some ?c" "tc_connector cl = k'"
      "map snd (tc_conns cl) = map snd (tc_conns (lw_client w)) @ [sockfd]" "length (tc_conns cl) = Suc ?c" "tc_connect cl = tc_connect (lw_client w)"
    using I(4) by (auto simp: client_newConnection_def Let_def after_connector_def)
  obtain conn where conn: "TcpConnection_ctor (fst (last (tc_conns cl))) sockfd = Some conn" "phase_ok PQueued conn" using ctor_phase by blast
  have conns: "lw_conns ?w' = lw_conns w" by (simp add: after_connector_def Let_def)
  show ?thesis
  proof (cases "connectionEstablished u (W ?c) True conn")
    case (Some conn')
    from established_phase [OF conn(2) this] obtain es where
      es: "phase_ok PUp conn'" "effects conn' = effects conn @ es" "list_all fine es" by blast
    let ?q = "lw_queue w @ map (ClientTask ?c) (queued es)"
    have fs: "\<forall>f \<in> set (queued es). in_loop_functor f" "ECloseCallback \<notin> set es"
      using queued_fine [OF es(3)] es(3) by (auto simp: list_all_iff fine_def)
    let ?w2 = "?w'\<lparr>lw_client := cl, lw_conns := lw_conns w @ [conn'], lw_queue := lw_queue ?w' @ map (ClientTask ?c) (queued es)\<rparr>"
    have "life_connected u W peer sockfd ?w' = Some ?w2"
      using cl(1) conn(1) Some es(2) fs(2) conns by (simp add: life_connected_def on_client_conn_def Let_def)
    moreover have "client_inv E ?w2 (ph @ [PUp])"
    proof -
      let ?es = "new_effects (lw_connector w) k'"
      have q: "lw_queue ?w' = lw_queue w @ List.map_filter cn_functor ?es" "lw_timers ?w' = lw_timers w + length (filter is_run_after ?es)"
        by (simp_all add: after_connector_def Let_def)
      have s: "cn_queue_inv True k' (lw_timers ?w') (lw_queue ?w')" "socket_inv (map snd (tc_conns cl)) k'"
          "list_all of_connector (List.map_filter cn_functor ?es)"
        using k(2) q cl(4) by (auto simp: cn_step_ok_def Let_def of_connector_def list_all_iff)
      have "conns_inv None (lw_conns w) (lw_queue ?w') ph" using conns_inv_add [OF I(3) s(3)] up q by simp
      from conns_inv_new [OF this es(1) fs(1)]
      have "conns_inv (Some ?c) (lw_conns w @ [conn']) (lw_queue ?w' @ map (ClientTask ?c) (queued es)) (ph @ [PUp])" .
      moreover have "keeps_trying E cl (lw_timers ?w') (lw_queue ?w2)" using cl(2) by (simp add: keeps_trying_def trying_def)
      ultimately show ?thesis
        using s(1,2) cl I(5) k(1) by (simp add: client_inv_def cn_queue_inv_add of_connector_def)
    qed
    ultimately show ?thesis by (auto simp: Let_def)
  next
    case None
    then have "life_connected u W peer sockfd ?w' = None"
      using cl(1) conn(1) conns by (simp add: life_connected_def on_client_conn_def Let_def)
    then show ?thesis using None conn(1) by (auto simp: Let_def)
  qed
qed

lemma failed_step:
  assumes inv: "client_inv E w ph" and up: "tc_connection (lw_client w) = None"
    and op: "op (lw_connector w) = Some k'" "cn_connect k' = cn_connect (lw_connector w)" "cn_connect (lw_connector w) \<longrightarrow> goes_on (lw_connector w) k'"
      "cn_step_ok False (map snd (tc_conns (lw_client w))) (lw_timers w) (lw_queue w) (lw_connector w) k'"
      "List.map_filter hands_over (new_effects (lw_connector w) k') = []"
  shows "\<exists>w'. connector_writable u W peer op w = Some w' \<and> client_inv E w' ph"
proof -
  note I = client_invD [OF inv]
  let ?cl = "(lw_client w)\<lparr>tc_connector := k'\<rparr>"
  have "keeps_trying E ?cl (lw_timers w + length (filter is_run_after (new_effects (lw_connector w) k'))) (lw_queue w)"
  proof (cases "tc_connect (lw_client w)")
    case True
    then have "goes_on (lw_connector w) (tc_connector ?cl)" using op(3) I(5) by simp
    from goes_on_keeps [OF this] show ?thesis by simp
  qed (simp add: keeps_trying_def)
  then obtain w' where w': "on_connector op w = Some w'" "client_inv E w' ph"
    using on_connector_step [of op w k' False ph E] op(1,2,4) up I(3-5) by auto
  then have "lw_connector w' = k'" using op(1) by (auto simp: on_connector_def after_connector_def Let_def)
  then show ?thesis using w' op(5) by (simp add: connector_writable_def)
qed

lemma connecting_state:
  assumes "client_inv E w ph" "cn_channel (lw_connector w) \<noteq> None" "ResetChannel \<notin> set (lw_queue w)"
  shows "cn_state (lw_connector w) = cnConnecting" "tc_connection (lw_client w) = None"
  using client_invD(1) [OF assms(1)] assms(2,3) by (auto simp: cn_queue_inv_def count_list_0_iff split: if_splits)

lemma write_client_step:
  assumes inv: "client_inv E w ph" and ch: "cn_channel (lw_connector w) \<noteq> None" "ResetChannel \<notin> set (lw_queue w)"
  shows "(\<exists>w' ph'. connector_writable u W peer (cn_handleWrite err self) w = Some w' \<and> client_inv E w' ph') \<or>
    connector_writable u W peer (cn_handleWrite err self) w = None \<and>
      (\<exists>name sockfd conn. TcpConnection_ctor name sockfd = Some conn \<and> connectionEstablished u (W (length (lw_conns w))) True conn = None)"
proof -
  note I = client_invD [OF inv]
  note k = connecting_state [OF inv ch]
  let ?k = "lw_connector w"
  obtain k' where k': "cn_handleWrite err self ?k = Some k'" "cn_connect k' = cn_connect ?k"
    "case List.map_filter hands_over (new_effects ?k k') of
       [] \<Rightarrow> cn_step_ok False (map snd (tc_conns (lw_client w))) (lw_timers w) (lw_queue w) ?k k' \<and> (cn_connect ?k \<longrightarrow> goes_on ?k k')
     | sockfd # _ \<Rightarrow> cn_step_ok True (map snd (tc_conns (lw_client w)) @ [sockfd]) (lw_timers w) (lw_queue w) ?k k'"
    using handleWrite_step [OF _ I(2) k(1)] I(1) k(2) by fastforce
  show ?thesis
  proof (cases "List.map_filter hands_over (new_effects ?k k')")
    case Nil
    then have "\<exists>w'. connector_writable u W peer (cn_handleWrite err self) w = Some w' \<and> client_inv E w' ph"
      using k'(3) by (intro failed_step [where op = "cn_handleWrite err self", OF inv k(2) k'(1,2)]) simp_all
    then show ?thesis by blast
  next
    case (Cons sockfd fds)
    let ?w' = "after_connector ?k (w\<lparr>lw_client := (lw_client w)\<lparr>tc_connector := k'\<rparr>\<rparr>)"
    have "lw_connector ?w' = k'" by (simp add: after_connector_def Let_def)
    then have "connector_writable u W peer (cn_handleWrite err self) w = life_connected u W peer sockfd ?w'"
      using k'(1) Cons by (simp add: connector_writable_def on_connector_def)
    then show ?thesis using connected_step [OF inv k(2) k'(2), of sockfd] k'(3) Cons by (fastforce simp: Let_def)
  qed
qed

lemma error_client_step:
  assumes inv: "client_inv E w ph" and ch: "cn_channel (lw_connector w) \<noteq> None" "ResetChannel \<notin> set (lw_queue w)"
  shows "\<exists>w'. connector_writable u W peer (\<lambda>k. cn_handleError k \<bind> cn_handleWrite err self) w = Some w' \<and> client_inv E w' ph"
proof -
  note k = connecting_state [OF inv ch]
  have "cn_queue_inv False (lw_connector w) (lw_timers w) (lw_queue w)" using client_invD(1) [OF inv] k(2) by simp
  from handleError_step [OF this client_invD(2) [OF inv] k(1)] obtain k' where
    "cn_handleError (lw_connector w) \<bind> cn_handleWrite err self = Some k'" "cn_connect k' = cn_connect (lw_connector w)"
    "List.map_filter hands_over (new_effects (lw_connector w) k') = []" "cn_connect (lw_connector w) \<longrightarrow> goes_on (lw_connector w) k'"
    "cn_step_ok False (map snd (tc_conns (lw_client w))) (lw_timers w) (lw_queue w) (lw_connector w) k'" by blast
  then show ?thesis by (intro failed_step [OF inv k(2)]) simp_all
qed

text \<open>The calls of a connection that may fail, in the connection itself or in the user's code.\<close>

definition conn_fails :: "user_code \<Rightarrow> (nat \<Rightarrow> sys_write) \<Rightarrow> client_life_event \<Rightarrow> client_world \<Rightarrow> bool" where
  "conn_fails u W e w \<longleftrightarrow>
     (case e of
        RunTask result \<Rightarrow> (\<exists>c f fs. lw_queue w = ClientTask c f # fs \<and> run_functor u (W c) f (lw_conns w ! c) = None)
      | ConnectorWrite err self peer \<Rightarrow> (\<exists>name sockfd conn. TcpConnection_ctor name sockfd = Some conn \<and>
          connectionEstablished u (W (length (lw_conns w))) True conn = None)
      | ConnHandler c cb readv t result \<Rightarrow> run_cb u (W c) readv t cb (lw_conns w ! c) = None
      | ConnCall c a \<Rightarrow> exec_api (W c) True a (lw_conns w ! c) = None
      | _ \<Rightarrow> False)"

lemma functor_client_step:
  assumes inv: "client_inv E w ph" and q: "lw_queue w = f # fs" and E: "snd result \<in> E"
  shows "(\<exists>w' ph'. run_client_functor u W result f (w\<lparr>lw_queue := fs\<rparr>) = Some w' \<and> client_inv E w' ph') \<or>
    run_client_functor u W result f (w\<lparr>lw_queue := fs\<rparr>) = None \<and> (\<exists>c g. f = ClientTask c g \<and> run_functor u (W c) g (lw_conns w ! c) = None)"
proof (cases f)
  case StartInLoop
  then have "\<exists>w'. on_connector (startInLoop True result) (w\<lparr>lw_queue := fs, lw_timers := lw_timers w\<rparr>) = Some w' \<and> client_inv E w' ph"
    using attempt_step [OF inv _ E, of fs "lw_timers w"] q by simp
  moreover have "w\<lparr>lw_queue := fs, lw_timers := lw_timers w\<rparr> = w\<lparr>lw_queue := fs\<rparr>" by simp
  ultimately show ?thesis using StartInLoop by (auto simp: run_client_functor_def)
next
  case StopInLoop
  then show ?thesis using stopInLoop_client_step [OF client_inv_pop [OF inv q]] by (auto simp: run_client_functor_def)
next
  case ResetChannel
  then show ?thesis using reset_client_step [OF inv] q by (auto simp: run_client_functor_def)
next
  case (ConnDestroyed c)
  then show ?thesis using destroy_client_step [OF inv, of c fs result u W] q by (auto simp: run_client_functor_def)
next
  case (ClientTask c g)
  then have c: "c < length ph" "in_loop_functor g" using inv q by (auto simp: client_inv_def conns_inv_def)
  show ?thesis
  proof (cases "run_functor u (W c) g (lw_conns w ! c)")
    case (Some conn)
    then have "tame (lw_conns w ! c) conn" using c(2) by (rule run_functor_tame)
    then show ?thesis
      using conn_tame_step [where op = "run_functor u (W c) g" and result = result, OF client_inv_pop [OF inv q] c(1)] Some ClientTask
      by (auto simp: run_client_functor_def)
  qed (use ClientTask in \<open>simp add: run_client_functor_def on_client_conn_def\<close>)
qed

lemma client_life_step:
  assumes inv: "client_inv E w ph" and can: "client_can E e w"
  shows "(\<exists>w' ph'. exec_client u W e w = Some w' \<and> client_inv E w' ph') \<or>
    exec_client u W e w = None \<and> (conn_fails u W e w \<or> stop_fails e w)"
proof (cases e)
  case (RunTask result)
  then obtain f fs where "lw_queue w = f # fs" using can by (cases "lw_queue w") (auto simp: client_can_def)
  then show ?thesis
    using functor_client_step [OF inv, of f fs result u W] can RunTask by (auto simp: exec_client_def client_can_def conn_fails_def)
next
  case (RetryTimer result)
  then have "\<exists>w'. on_connector (startInLoop True result) (w\<lparr>lw_queue := lw_queue w, lw_timers := lw_timers w - 1\<rparr>) = Some w' \<and> client_inv E w' ph"
    using can by (intro attempt_step [OF inv]) (auto simp: client_can_def)
  moreover have "w\<lparr>lw_queue := lw_queue w, lw_timers := lw_timers w - 1\<rparr> = w\<lparr>lw_timers := lw_timers w - 1\<rparr>" by simp
  ultimately show ?thesis using RetryTimer by (auto simp: exec_client_def)
next
  case (ConnectorWrite err self peer)
  then show ?thesis using write_client_step [OF inv, of u W peer err self] can by (auto simp: exec_client_def client_can_def conn_fails_def)
next
  case (ConnectorError err self peer)
  then show ?thesis using error_client_step [OF inv, of u W peer err self] can by (auto simp: exec_client_def client_can_def)
next
  case (ConnHandler c cb readv t result)
  then show ?thesis using handler_client_step [OF inv, of c cb readv t result u W] can
    by (cases "run_cb u (W c) readv t cb (lw_conns w ! c)") (auto simp: exec_client_def conn_fails_def on_client_conn_def)
next
  case (ConnCall c a)
  then have c: "c < length ph" using inv can by (auto simp: client_inv_def conns_inv_def client_can_def)
  show ?thesis
  proof (cases "exec_api (W c) True a (lw_conns w ! c)")
    case (Some conn)
    then show ?thesis using conn_tame_step [where op = "exec_api (W c) True a", OF inv c Some exec_api_tame] ConnCall
      by (fastforce simp: exec_client_def)
  qed (use ConnCall in \<open>simp add: conn_fails_def exec_client_def on_client_conn_def\<close>)
next
  case (Disconnect inLoop)
  then show ?thesis using disconnect_client_step [OF inv, of inLoop] by (auto simp: exec_client_def)
next
  case (Stop inLoop active)
  then show ?thesis
    using stop_client_step [OF inv, of inLoop active] stop_client_aborts [OF inv, of inLoop active] by (auto simp: exec_client_def)
qed

subsection \<open>What the client promises\<close>

lemma client_reachable_inv:
  assumes "client_reachable u W E (client_begin name retries) w"
  shows "\<exists>ph. client_inv E w ph"
  using assms
proof (induction rule: client_reachable.induct)
  case start
  show ?case using client_begin_inv by blast
next
  case (step w e w')
  then obtain ph where "client_inv E w ph" by blast
  then show ?case using client_life_step [of E w ph e u W] step by auto
qed

lemma conn_observed:
  assumes "client_inv E w ph" "c < length (lw_conns w)"
  shows "\<exists>n. if tc_connection (lw_client w) = Some c
      then callbacks (lw_conns w ! c) = up_trace n \<and> isReading (conn_channel (lw_conns w ! c))
      else callbacks (lw_conns w ! c) = down_trace n \<and> isNoneEvent (conn_channel (lw_conns w ! c)) \<and>
        (ERemove \<in> set (effects (lw_conns w ! c)) \<longleftrightarrow> ConnDestroyed c \<notin> set (lw_queue w))"
proof -
  note C = client_invD(3) [OF assms(1)]
  then have c: "c < length ph" "phase_ok (ph ! c) (lw_conns w ! c)" "ph ! c \<in> {PUp, PRemoving, PGone}"
      "tc_connection (lw_client w) = Some c \<longleftrightarrow> ph ! c = PUp"
    using assms(2) by (auto simp: conns_inv_def)
  have "count_list (lw_queue w) (ConnDestroyed c) = (if ph ! c = PRemoving then 1 else 0)" using C c(1) by (simp add: conns_inv_def)
  then have "ConnDestroyed c \<in> set (lw_queue w) \<longleftrightarrow> ph ! c = PRemoving" by (metis count_list_0_iff zero_neq_one)
  then show ?thesis using c by (auto simp: phase_ok_def)
qed

text \<open>
  C5: the life of a client and its connections, after \<open>connect\<close> and under any order of the events that its loop may deliver. Only the
  client's current connection is up; the user has seen it come up once and then its messages. Every other connection has
  gone down, once and after its messages, is registered for nothing, and is either removed from its poller or about to be. While a connection is
  up, no attempt to connect is queued, timed or under way; there is at most one such attempt at any time. Every socket the
  connector created has been closed once, has been given to one connection, or is the one being connected. No step fails,
  unless a call of the connection or of the user's code in it does, or \<open>stop\<close> is called in the thread of the loop, from a handler of another channel,
  while the connector is connecting and its channel has an event in the same iteration of the loop: then the assertion in \<open>EventLoop::removeChannel\<close>
  always fails. A client that retries, and that has not been told to disconnect or to
  stop, has a connection or goes on trying, as long as \<open>connect\<close> gives no error that \<open>Connector::connect\<close> gives up on.
\<close>
theorem client_connection_life:
  assumes "client_reachable u W E (client_begin name retries) w"
  shows "(\<forall>c < length (lw_conns w). \<exists>n. if tc_connection (lw_client w) = Some c
      then callbacks (lw_conns w ! c) = up_trace n \<and> isReading (conn_channel (lw_conns w ! c))
      else callbacks (lw_conns w ! c) = down_trace n \<and> isNoneEvent (conn_channel (lw_conns w ! c)) \<and>
        (ERemove \<in> set (effects (lw_conns w ! c)) \<longleftrightarrow> ConnDestroyed c \<notin> set (lw_queue w))) \<and>
    (let k = lw_connector w in
      lw_timers w + count_list (lw_queue w) StartInLoop + (if cn_state k = cnConnecting then 1 else 0) +
        (if tc_connection (lw_client w) \<noteq> None then 1 else 0) \<le> 1 \<and>
      sockets_of opens k = sockets_of closes k + mset (map snd (tc_conns (lw_client w))) +
        (if cn_state k = cnConnecting then mset_set (set_option (cn_channel k)) else {#})) \<and>
    (client_can E e w \<and> exec_client u W e w = None \<longrightarrow> conn_fails u W e w \<or> stop_fails e w) \<and>
    (stop_fails e w \<longrightarrow> client_can E e w \<and> exec_client u W e w = None) \<and>
    ((\<forall>err \<in> E. connect_started err \<or> connect_retryable err) \<and> tc_retry (lw_client w) \<and> tc_connect (lw_client w) \<longrightarrow>
      trying (lw_client w) (lw_timers w) (lw_queue w))"
proof -
  obtain ph where inv: "client_inv E w ph" using client_reachable_inv [OF assms] by blast
  note I = client_invD [OF inv]
  have "lw_timers w + count_list (lw_queue w) StartInLoop + (if cn_state (lw_connector w) = cnConnecting then 1 else 0) +
      (if tc_connection (lw_client w) \<noteq> None then 1 else 0) \<le> 1"
    using I(1) by (auto simp: cn_queue_inv_def split: if_splits)
  moreover have "client_can E e w \<and> exec_client u W e w = None" if "stop_fails e w"
    using that stop_client_aborts [OF inv, of True True] I(1) by (auto simp: stop_fails_def exec_client_def client_can_def cn_queue_inv_def)
  ultimately show ?thesis
    using conn_observed [OF inv] I(2,6) client_life_step [OF inv, of e u W] unfolding socket_inv_def keeps_trying_def by (auto simp: Let_def)
qed

fun run_client_life :: "user_code \<Rightarrow> (nat \<Rightarrow> sys_write) \<Rightarrow> int set \<Rightarrow> client_life_event list \<Rightarrow> client_world \<Rightarrow> client_world option" where
  "run_client_life u W E [] w = Some w"
| "run_client_life u W E (e # es) w = do { assert_that (client_can E e w); w \<leftarrow> exec_client u W e w; run_client_life u W E es w }"

lemma run_client_life_reachable:
  "client_reachable u W E w0 w \<Longrightarrow> run_client_life u W E es w = Some w' \<Longrightarrow> client_reachable u W E w0 w'"
proof (induction es arbitrary: w)
  case (Cons e es)
  then show ?case by (auto simp: bind_eq_Some_conv intro: client_reachable.step)
qed simp

text \<open>A client that is refused once, connects, and loses its connection.\<close>

definition demo_client :: "client_world option" where
  "demo_client = run_client_life default_callbacks (\<lambda>c n d. Wrote (length d)) {115, 111}
     [RunTask (5, 111), RetryTimer (6, 115), ConnectorWrite 0 False ''10.0.0.1:80'', RunTask (0, 115),
      ConnHandler 0 HandleClose (\<lambda>n. Inr []) 6 (7, 111)] (client_begin ''cl'' True)"

lemmas client_life_defs = client_can_def exec_client_def run_client_functor_def on_connector_def after_connector_def connector_writable_def
  life_connected_def client_newConnection_def on_client_conn_def life_closed_def client_removeConnection_def Connector_restart_def
  client_begin_def TcpClient_ctor_def enableRetry_def Connector_ctor_def cn_handleWrite_def life_ops

lemma demo_client_ends:
  "map_option (\<lambda>w. (length (lw_conns w), tc_connection (lw_client w), lw_timers w, ConnDestroyed 0 \<in> set (lw_queue w),
       tc_retry (lw_client w), tc_connect (lw_client w))) demo_client =
     Some (1, None, 1, True, True, True)"
  by (simp add: demo_client_def client_life_defs life_defs connect_started_def connect_retryable_def isNoneEvent_def kNoneEvent_def kReadEvent_def
     poll_flags upd_channel_def set_interest_def emit_def queued_def
     Channel_ctor_def Channel_tie_def setErrorCallback_def setCloseCallback_def setWriteCallback_def setReadCallback_def)

text \<open>A client that is connecting.\<close>

lemma demo_connecting:
  "\<exists>w. run_client_life default_callbacks (\<lambda>c n d. Wrote (length d)) {115, 111} [RunTask (5, 115)] (client_begin ''cl'' True) = Some w \<and>
     cn_state (lw_connector w) = cnConnecting"
  by (simp add: client_life_defs connect_started_def)

theorem client_connection_life_witness:
  "(\<exists>w. client_reachable default_callbacks (\<lambda>c n d. Wrote (length d)) {115, 111} (client_begin ''cl'' True) w \<and>
      client_can {115, 111} (Stop True True) w \<and> exec_client default_callbacks (\<lambda>c n d. Wrote (length d)) (Stop True True) w = None) \<and>
   (\<exists>w. client_reachable default_callbacks (\<lambda>c n d. Wrote (length d)) {115, 111} (client_begin ''cl'' True) w \<and>
     (\<exists>n. callbacks (lw_conns w ! 0) = down_trace n) \<and> ERemove \<notin> set (effects (lw_conns w ! 0)) \<and> cn_state (lw_connector w) \<noteq> cnConnecting \<and>
     trying (lw_client w) (lw_timers w) (lw_queue w))"
proof -
  obtain v where v: "client_reachable default_callbacks (\<lambda>c n d. Wrote (length d)) {115, 111} (client_begin ''cl'' True) v"
      "stop_fails (Stop True True) v"
    using demo_connecting run_client_life_reachable [OF client_reachable.start] unfolding stop_fails_def by blast
  have 0: "client_can {115, 111} (Stop True True) v \<and> exec_client default_callbacks (\<lambda>c n d. Wrote (length d)) (Stop True True) v = None"
    using client_connection_life [OF v(1), of "Stop True True"] v(2) by blast
  obtain w where w: "demo_client = Some w" "length (lw_conns w) = 1" "tc_connection (lw_client w) = None" "lw_timers w = 1"
      "ConnDestroyed 0 \<in> set (lw_queue w)" "tc_retry (lw_client w)" "tc_connect (lw_client w)"
    using demo_client_ends by auto
  have reach: "client_reachable default_callbacks (\<lambda>c n d. Wrote (length d)) {115, 111} (client_begin ''cl'' True) w"
    using run_client_life_reachable [OF client_reachable.start] w(1) unfolding demo_client_def by blast
  note life = client_connection_life [OF reach]
  have 1: "(\<exists>n. callbacks (lw_conns w ! 0) = down_trace n) \<and> ERemove \<notin> set (effects (lw_conns w ! 0))"
    using life [THEN conjunct1] w(2,3,5) by auto
  have 2: "cn_state (lw_connector w) \<noteq> cnConnecting"
    using life [THEN conjunct2, THEN conjunct1] w(4) by (auto simp: Let_def split: if_splits)
  have 3: "trying (lw_client w) (lw_timers w) (lw_queue w)"
    using life w(6,7) by (simp add: connect_started_def connect_retryable_def)
  show ?thesis using v(1) 0 reach 1 2 3 by blast
qed

text \<open>
  A client whose connection has gone down for good cannot be used again. Whether it does not retry, or \<open>disconnect\<close> was called
  before, the connector is left in \<open>kConnected\<close>, and the next \<open>connect\<close> violates the assertion in \<open>startInLoop\<close>.
\<close>

lemma client_connect_again_aborts:
  assumes "client_reachable u W E (client_begin name retries) w" "tc_connection (lw_client w) = Some c"
    "\<not> (tc_retry (lw_client w) \<and> tc_connect (lw_client w))"
  shows "\<exists>w'. life_closed result c w = Some w' \<and> tc_connection (lw_client w') = None \<and> TcpClient_connect True again (lw_client w') = None"
proof -
  obtain ph where "client_inv E w ph" using client_reachable_inv [OF assms(1)] by blast
  then have "cn_state (lw_connector w) = cnConnected" using assms(2) by (simp add: client_inv_def cn_queue_inv_def)
  then show ?thesis
    using assms(2,3) by (auto simp: life_closed_def client_removeConnection_def after_connector_def Let_def TcpClient_connect_def
        Connector_start_def startInLoop_def)
qed

end
