(* ===== verification/InetAddress.thy ===== *)
theory InetAddress
  imports Endian Printf
begin

text \<open>
  \<open>tmuduo/net/InetAddress.h\<close>, \<open>InetAddress.cc\<close>, and the address functions of
  \<open>SockOps.cc\<close> and \<open>Socket.cc\<close>. The union of \<open>sockaddr_in\<close> and \<open>sockaddr_in6\<close> is its 28
  bytes of memory in the layout of Linux: the family at 0, the port at 2, the IPv4 address at 4,
  the IPv6 address at 8 and the scope at 24. For IPv4, \<open>inet_ntop\<close> and \<open>inet_pton\<close> are
  written out (dotted decimal, no leading zeros); for IPv6 they are parameters. A failed system
  call is a negative result or \<open>None\<close>, as each definition says; \<open>None\<close> as the result of an
  operation is a failed assertion or \<open>LOG_SYSFATAL\<close>.
\<close>

type_synonym inet_address = bytes

definition sizeof_sockaddr_in :: nat where "sizeof_sockaddr_in = 16"
definition sizeof_sockaddr_in6 :: nat where "sizeof_sockaddr_in6 = 28"
definition AF_INET :: "16 word" where "AF_INET = 2"
definition AF_INET6 :: "16 word" where "AF_INET6 = 10"

definition poke :: "nat \<Rightarrow> bytes \<Rightarrow> bytes \<Rightarrow> bytes" where
  "poke off bs m = take off m @ bs @ drop (off + length bs) m"

definition word16_at :: "nat \<Rightarrow> bytes \<Rightarrow> 16 word" where
  "word16_at off m = of_nat (le_nat (slice off (off + 2) m))"

definition memZero :: "nat \<Rightarrow> bytes \<Rightarrow> bytes" where
  "memZero n m = poke 0 (replicate n (CHR 0x00)) m"

definition set_family :: "16 word \<Rightarrow> bytes \<Rightarrow> bytes" where
  "set_family f m = poke 0 (le_bytes 2 (unat f)) m"

definition set_port :: "16 word \<Rightarrow> bytes \<Rightarrow> bytes" where
  "set_port p m = poke 2 (le_bytes 2 (unat p)) m"

subsection \<open>Dotted decimal\<close>

fun join_dots :: "string list \<Rightarrow> string" where
  "join_dots [] = []"
| "join_dots [p] = p"
| "join_dots (p # q # ps) = p @ CHR ''.'' # join_dots (q # ps)"

fun split_dots :: "string \<Rightarrow> string list" where
  "split_dots [] = [[]]"
| "split_dots (c # s) = (if c = CHR ''.'' then [] # split_dots s else (c # hd (split_dots s)) # tl (split_dots s))"

definition parse_octet :: "string \<Rightarrow> nat option" where
  "parse_octet p =
     (if p \<noteq> [] \<and> list_all is_digit p \<and> (hd p = CHR ''0'' \<longrightarrow> p = ''0'') \<and> read_dec p \<le> 255 then Some (read_dec p) else None)"

definition inet_pton4 :: "string \<Rightarrow> bytes option" where
  "inet_pton4 s =
     (case map parse_octet (split_dots s) of
        [Some a, Some b, Some c, Some d] \<Rightarrow> Some (map byte_of [a, b, c, d])
      | _ \<Rightarrow> None)"

definition inet_ntop4 :: "bytes \<Rightarrow> string" where
  "inet_ntop4 quad = join_dots (map (\<lambda>c. dec_nat (of_char c)) quad)"

subsection \<open>SockOps\<close>

definition sockets_toIp :: "(bytes \<Rightarrow> string) \<Rightarrow> nat \<Rightarrow> bytes \<Rightarrow> string option" where
  "sockets_toIp inet_ntop6 bufsize addr =
     (if word16_at 0 addr = AF_INET then do {
        assert_that (bufsize \<ge> 16);
        Some (inet_ntop4 (slice 4 8 addr)) }
      else if word16_at 0 addr = AF_INET6 then do {
        assert_that (bufsize \<ge> 46);
        Some (inet_ntop6 (slice 8 24 addr)) }
      else Some '''')"

definition sockets_toIpPort :: "(bytes \<Rightarrow> string) \<Rightarrow> nat \<Rightarrow> bytes \<Rightarrow> string option" where
  "sockets_toIpPort inet_ntop6 bufsize addr = do {
     buf \<leftarrow> sockets_toIp inet_ntop6 bufsize addr;
     let end' = length buf;
     let port = networkToHost16 (word16_at 2 addr);
     assert_that (bufsize > end');
     Some (buf @ snprintf (bufsize - end') ('':'' @ dec_nat (unat port))) }"

definition fromIpPort4 :: "string \<Rightarrow> 16 word \<Rightarrow> bytes \<Rightarrow> bytes" where
  "fromIpPort4 ip port addr =
     (let addr = set_family AF_INET addr; addr = set_port (hostToNetwork16 port) addr in
      case inet_pton4 ip of Some quad \<Rightarrow> poke 4 quad addr | None \<Rightarrow> addr)"

definition fromIpPort6 :: "(string \<Rightarrow> bytes option) \<Rightarrow> string \<Rightarrow> 16 word \<Rightarrow> bytes \<Rightarrow> bytes" where
  "fromIpPort6 inet_pton6 ip port addr =
     (let addr = set_family AF_INET6 addr; addr = set_port (hostToNetwork16 port) addr in
      case inet_pton6 ip of Some ip6 \<Rightarrow> poke 8 ip6 addr | None \<Rightarrow> addr)"

definition createNonblockingOrDie :: "int \<Rightarrow> fd option" where
  "createNonblockingOrDie sockfd = do { assert_that (\<not> sockfd < 0); Some sockfd }"

definition bindOrDie :: "int \<Rightarrow> unit option" where
  "bindOrDie ret = assert_that (\<not> ret < 0)"

definition listenOrDie :: "int \<Rightarrow> unit option" where
  "listenOrDie ret = assert_that (\<not> ret < 0)"

text \<open>\<open>getsockopt\<close> fails with an \<open>errno\<close> or gives the pending error.\<close>

definition getSocketError :: "int + int \<Rightarrow> int" where
  "getSocketError r = (case r of Inl errno \<Rightarrow> errno | Inr optval \<Rightarrow> optval)"

text \<open>\<open>getsockname\<close> and \<open>getpeername\<close> fill in the memory or leave it zero.\<close>

definition getLocalAddr :: "bytes option \<Rightarrow> bytes" where
  "getLocalAddr getsockname = (case getsockname of Some a \<Rightarrow> a | None \<Rightarrow> replicate sizeof_sockaddr_in6 (CHR 0x00))"

definition getPeerAddr :: "bytes option \<Rightarrow> bytes" where
  "getPeerAddr getpeername = (case getpeername of Some a \<Rightarrow> a | None \<Rightarrow> replicate sizeof_sockaddr_in6 (CHR 0x00))"

definition isSelfConnect :: "bytes option \<Rightarrow> bytes option \<Rightarrow> bool" where
  "isSelfConnect getsockname getpeername =
     (let localaddr = getLocalAddr getsockname; peeraddr = getPeerAddr getpeername in
      if word16_at 0 localaddr = AF_INET then
        word16_at 2 localaddr = word16_at 2 peeraddr \<and> slice 4 8 localaddr = slice 4 8 peeraddr
      else if word16_at 0 localaddr = AF_INET6 then
        word16_at 2 localaddr = word16_at 2 peeraddr \<and> slice 8 24 localaddr = slice 8 24 peeraddr
      else False)"

subsection \<open>InetAddress\<close>

definition kInaddrAny :: "32 word" where "kInaddrAny = 0"
definition kInaddrLoopback :: "32 word" where "kInaddrLoopback = 0x7f000001"

definition in6addr_loopback :: bytes where "in6addr_loopback = replicate 15 (CHR 0x00) @ [CHR 0x01]"
definition in6addr_any :: bytes where "in6addr_any = replicate 16 (CHR 0x00)"

text \<open>\<open>raw\<close> is the memory of the object before its construction.\<close>

definition InetAddress_ctor_port :: "bytes \<Rightarrow> 16 word \<Rightarrow> bool \<Rightarrow> bool \<Rightarrow> inet_address" where
  "InetAddress_ctor_port raw port loopbackonly ipv6 =
     (if ipv6 then
        (let m = memZero sizeof_sockaddr_in raw;
             m = set_family AF_INET6 m;
             ip = (if loopbackonly then in6addr_loopback else in6addr_any);
             m = poke 8 ip m
         in set_port (hostToNetwork16 port) m)
      else
        (let m = memZero sizeof_sockaddr_in raw;
             m = set_family AF_INET m;
             ip = (if loopbackonly then kInaddrLoopback else kInaddrAny);
             m = poke 4 (le_bytes 4 (unat (hostToNetwork32 ip))) m
         in set_port (hostToNetwork16 port) m))"

definition InetAddress_ctor_ip :: "(string \<Rightarrow> bytes option) \<Rightarrow> bytes \<Rightarrow> string \<Rightarrow> 16 word \<Rightarrow> bool \<Rightarrow> inet_address" where
  "InetAddress_ctor_ip inet_pton6 raw ip port ipv6 =
     (if ipv6 then fromIpPort6 inet_pton6 ip port (memZero sizeof_sockaddr_in6 raw)
      else fromIpPort4 ip port (memZero sizeof_sockaddr_in raw))"

definition InetAddress_family :: "inet_address \<Rightarrow> 16 word" where
  "InetAddress_family a = word16_at 0 a"

definition toIp :: "(bytes \<Rightarrow> string) \<Rightarrow> inet_address \<Rightarrow> string option" where
  "toIp inet_ntop6 a = sockets_toIp inet_ntop6 64 a"

definition toIpPort :: "(bytes \<Rightarrow> string) \<Rightarrow> inet_address \<Rightarrow> string option" where
  "toIpPort inet_ntop6 a = sockets_toIpPort inet_ntop6 64 a"

definition portNetEndian :: "inet_address \<Rightarrow> 16 word" where
  "portNetEndian a = word16_at 2 a"

definition ipNetEndian :: "inet_address \<Rightarrow> 32 word" where
  "ipNetEndian a = of_nat (le_nat (slice 4 8 a))"

definition getPort :: "inet_address \<Rightarrow> 16 word" where
  "getPort a = networkToHost16 (portNetEndian a)"

definition setSockAddrInet6 :: "bytes \<Rightarrow> inet_address \<Rightarrow> inet_address" where
  "setSockAddrInet6 addr a = addr"

text \<open>
  \<open>gethostbyname_r\<close> gives its return value and, when it found the host, the address type, the
  length and the bytes of the first address.
\<close>

definition InetAddress_resolve :: "int \<times> (16 word \<times> nat \<times> bytes) option \<Rightarrow> inet_address \<Rightarrow> (bool \<times> inet_address) option" where
  "InetAddress_resolve answer out =
     (case answer of
        (ret, Some (addrtype, len, h_addr)) \<Rightarrow>
          if ret = 0 then do {
            assert_that (addrtype = AF_INET \<and> len = 4);
            Some (True, poke 4 (take 4 h_addr) out) }
          else Some (True, out)
      | (ret, None) \<Rightarrow> Some (True, out))"

subsection \<open>Socket\<close>

text \<open>The address is stored only when a connection was accepted.\<close>

definition Socket_accept :: "int \<times> bytes \<Rightarrow> inet_address \<Rightarrow> int \<times> inet_address" where
  "Socket_accept accepted peerAddr =
     (let (connfd, addr) = accepted in (connfd, if connfd \<ge> 0 then setSockAddrInet6 addr peerAddr else peerAddr))"

definition SO_REUSEPORT :: int where "SO_REUSEPORT = 15"
definition SO_KEEPALIVE :: int where "SO_KEEPALIVE = 9"
definition SOL_SOCKET :: int where "SOL_SOCKET = 1"
definition IPPROTO_TCP :: int where "IPPROTO_TCP = 6"
definition TCP_NODELAY :: int where "TCP_NODELAY = 1"

text \<open>Level, option and value that each setter hands to \<open>setsockopt\<close>.\<close>

definition Socket_setTcpNoDelay :: "bool \<Rightarrow> int \<times> int \<times> int" where
  "Socket_setTcpNoDelay on = (IPPROTO_TCP, TCP_NODELAY, if on then 1 else 0)"

definition Socket_setReuseAddr :: "bool \<Rightarrow> int \<times> int \<times> int" where
  "Socket_setReuseAddr on = (SOL_SOCKET, SO_REUSEPORT, if on then 1 else 0)"

definition Socket_setReusePort :: "bool \<Rightarrow> int \<times> int \<times> int" where
  "Socket_setReusePort on = (SOL_SOCKET, SO_REUSEPORT, if on then 1 else 0)"

definition Socket_setKeepAlive :: "bool \<Rightarrow> int \<times> int \<times> int" where
  "Socket_setKeepAlive on = (SOL_SOCKET, SO_KEEPALIVE, if on then 1 else 0)"

subsection \<open>Dotted decimal is canonical\<close>

lemma split_dots_ne: "split_dots s \<noteq> []"
  by (induction s) auto

lemma join_dots_Cons: "ps \<noteq> [] \<Longrightarrow> join_dots ((c # p) # ps) = c # join_dots (p # ps)"
  by (cases ps) simp_all

lemma join_split: "join_dots (split_dots s) = s"
proof (induction s)
  case (Cons c s)
  obtain p ps where p: "split_dots s = p # ps" using split_dots_ne by (cases "split_dots s") auto
  then show ?case using Cons by (cases ps) auto
qed simp

lemma digit_char_val: "is_digit c \<Longrightarrow> digit_char (digit_val c) = c"
  by (simp add: is_digit_def digit_val_def digit_char_def)

lemma digit_val_less: "is_digit c \<Longrightarrow> digit_val c < 10"
  by (auto simp: is_digit_def digit_val_def)

lemma dec_read_dec:
  "p \<noteq> [] \<Longrightarrow> list_all is_digit p \<Longrightarrow> hd p = CHR ''0'' \<longrightarrow> p = ''0'' \<Longrightarrow>
     dec_nat (read_dec p) = p \<and> (hd p \<noteq> CHR ''0'' \<longrightarrow> 0 < read_dec p)"
proof (induction p rule: rev_induct)
  case (snoc c p)
  have c: "is_digit c" using snoc.prems by simp
  show ?case
  proof (cases "p = []")
    case True
    have "digit_char 0 = CHR ''0''" by (simp add: digit_char_def char_of_def bit_iff_odd)
    then have "c \<noteq> CHR ''0'' \<longrightarrow> 0 < digit_val c" using digit_char_val [OF c] by (metis gr0I)
    then show ?thesis
      using True digit_val_less [OF c] digit_char_val [OF c]
      by (simp add: read_dec_def dec_nat.simps [of "digit_val c"])
  next
    case False
    then have h: "hd (p @ [c]) = hd p" "hd p \<noteq> CHR ''0''" using snoc.prems by auto
    then have "dec_nat (read_dec p) = p" "0 < read_dec p" using snoc False by auto
    then show ?thesis
      using digit_val_less [OF c] digit_char_val [OF c]
      by (simp add: read_dec_snoc dec_nat.simps [of "10 * read_dec p + digit_val c"] h)
  qed
qed simp

lemma parse_octet_Some: "parse_octet p = Some n \<Longrightarrow> dec_nat n = p \<and> n < 256"
  using dec_read_dec [of p] by (auto simp: parse_octet_def split: if_splits)

lemma inet_pton4_ntop4:
  assumes "inet_pton4 s = Some quad"
  shows "inet_ntop4 quad = s" "length quad = 4"
proof -
  obtain a b c d where ps: "map parse_octet (split_dots s) = [Some a, Some b, Some c, Some d]"
      and q: "quad = map byte_of [a, b, c, d]"
    using assms by (auto simp: inet_pton4_def split: list.splits option.splits)
  then obtain pa pb pc pd where s: "split_dots s = [pa, pb, pc, pd]" and p: "parse_octet pa = Some a"
      "parse_octet pb = Some b" "parse_octet pc = Some c" "parse_octet pd = Some d"
    by (auto simp: map_eq_Cons_conv)
  have "inet_ntop4 quad = join_dots [pa, pb, pc, pd]"
    using p [THEN parse_octet_Some] by (simp add: inet_ntop4_def q of_char_byte_of)
  then show "inet_ntop4 quad = s" using join_split [of s] s by simp
  show "length quad = 4" using q by simp
qed

lemma join_dots_length: "length (join_dots (p # ps)) = sum_list (map length (p # ps)) + length ps"
  by (induction ps arbitrary: p) simp_all

lemma inet_ntop4_length: "length quad = 4 \<Longrightarrow> length (inet_ntop4 quad) \<le> 15"
proof -
  assume "length quad = 4"
  then obtain a b c d where q: "quad = [a, b, c, d]" by (auto simp: numeral_eq_Suc length_Suc_conv)
  have o: "length (dec_nat (of_char x)) \<le> 3" for x :: char
    by (intro dec_nat_length) (rule less_trans [OF of_char_less_256], simp_all)
  show ?thesis using o [of a] o [of b] o [of c] o [of d] by (simp add: q inet_ntop4_def join_dots_length)
qed

subsection \<open>Memory\<close>

lemma length_poke [simp]: "off + length bs \<le> length m \<Longrightarrow> length (poke off bs m) = length m"
  by (simp add: poke_def)

lemma slice_poke:
  assumes "off + length bs \<le> length m"
  shows "off = i \<Longrightarrow> j = off + length bs \<Longrightarrow> slice i j (poke off bs m) = bs"
    "j \<le> off \<Longrightarrow> slice i j (poke off bs m) = slice i j m"
    "off + length bs \<le> i \<Longrightarrow> slice i j (poke off bs m) = slice i j m"
proof -
  have w: "vec_write m off bs = Some (poke off bs m)" using assms by (simp add: vec_write_def poke_def)
  show "off = i \<Longrightarrow> j = off + length bs \<Longrightarrow> slice i j (poke off bs m) = bs" using slice_vec_write_at [OF w] by simp
  show "j \<le> off \<Longrightarrow> slice i j (poke off bs m) = slice i j m" by (rule slice_vec_write_before [OF w])
  show "off + length bs \<le> i \<Longrightarrow> slice i j (poke off bs m) = slice i j m" by (rule slice_vec_write_after [OF w])
qed

lemma word16_le_bytes: "of_nat (le_nat (le_bytes 2 (unat w))) = (w :: 16 word)"
  by (simp add: le_nat_le_bytes unat_width)

lemma port_roundtrip: "networkToHost16 (hostToNetwork16 p) = p"
  using bswap_bswap [of "unat p" 2] unat_width(3) [of p]
  by (simp add: networkToHost16_def unat_hostToNetwork)

lemma slice_zeros: "j \<le> n \<Longrightarrow> n \<le> length m \<Longrightarrow> slice i j (memZero n m) = replicate (j - i) (CHR 0x00)"
  by (simp add: memZero_def poke_def slice_def)

lemma address_fields:
  assumes "length m = 28"
  shows "word16_at 0 (set_port p (set_family f m)) = f" "word16_at 2 (set_port p (set_family f m)) = p"
    "4 \<le> i \<Longrightarrow> slice i j (set_port p (set_family f m)) = slice i j m" "length (set_port p (set_family f m)) = 28"
  using assms by (simp_all add: word16_at_def set_port_def set_family_def slice_poke word16_le_bytes)

lemma poke_fields:
  assumes "length m = 28" "4 \<le> off" "off + length bs \<le> 28"
  shows "word16_at 0 (poke off bs m) = word16_at 0 m" "word16_at 2 (poke off bs m) = word16_at 2 m"
  using assms by (simp_all add: word16_at_def slice_poke)

subsection \<open>Addresses from text\<close>

lemma toIp_quad:
  assumes "length m = 28" "word16_at 0 m = AF_INET"
  shows "toIp ntop6 m = Some (inet_ntop4 (slice 4 8 m))"
    "toIpPort ntop6 m = Some (inet_ntop4 (slice 4 8 m) @ '':'' @ dec_nat (unat (networkToHost16 (word16_at 2 m))))"
proof -
  let ?port = "unat (networkToHost16 (word16_at 2 m))"
  have len: "length (inet_ntop4 (slice 4 8 m)) \<le> 15" using assms(1) by (intro inet_ntop4_length) simp
  have "length (dec_nat ?port) \<le> 5"
    using unat_width(3) [of "networkToHost16 (word16_at 2 m)"] by (intro dec_nat_length) simp_all
  then have "snprintf (64 - length (inet_ntop4 (slice 4 8 m))) ('':'' @ dec_nat ?port) = '':'' @ dec_nat ?port"
    using len by (intro snprintf_fits) simp
  then show "toIp ntop6 m = Some (inet_ntop4 (slice 4 8 m))"
    "toIpPort ntop6 m = Some (inet_ntop4 (slice 4 8 m) @ '':'' @ dec_nat ?port)"
    using len assms(2) by (simp_all add: toIp_def toIpPort_def sockets_toIp_def sockets_toIpPort_def assert_that_bind_True)
qed

text \<open>
  C20: An IPv4 address made from text and port prints as exactly that text and port and has
  the family and port given, whatever was in memory before. For a text that is not
  an IPv4 address, the address is \<open>0.0.0.0\<close>, on which a server listens
  everywhere.
\<close>
theorem inet_address_roundtrip:
  assumes "length raw = sizeof_sockaddr_in6"
  shows "let a = InetAddress_ctor_ip pton6 raw ip port False;
      text' = (case inet_pton4 ip of Some quad \<Rightarrow> ip | None \<Rightarrow> ''0.0.0.0'') in
     toIp ntop6 a = Some text' \<and> toIpPort ntop6 a = Some (text' @ '':'' @ dec_nat (unat port)) \<and>
     getPort a = port \<and> InetAddress_family a = AF_INET"
proof -
  define m where "m = memZero sizeof_sockaddr_in raw"
  have m: "length m = 28" "slice 4 8 m = replicate 4 (CHR 0x00)"
    using assms slice_zeros [of 8 16 raw 4]
    by (simp_all add: m_def memZero_def sizeof_sockaddr_in_def sizeof_sockaddr_in6_def)
  define b where "b = set_port (hostToNetwork16 port) (set_family AF_INET m)"
  have b: "word16_at 0 b = AF_INET" "word16_at 2 b = hostToNetwork16 port" "slice 4 8 b = replicate 4 (CHR 0x00)" "length b = 28"
    using m address_fields [OF m(1)] by (simp_all add: b_def)
  let ?a = "InetAddress_ctor_ip pton6 raw ip port False"
  have a: "?a = (case inet_pton4 ip of Some quad \<Rightarrow> poke 4 quad b | None \<Rightarrow> b)"
    unfolding b_def m_def by (simp add: InetAddress_ctor_ip_def fromIpPort4_def Let_def)
  have "word16_at 0 ?a = AF_INET \<and> word16_at 2 ?a = hostToNetwork16 port \<and> length ?a = 28 \<and>
      inet_ntop4 (slice 4 8 ?a) = (case inet_pton4 ip of Some quad \<Rightarrow> ip | None \<Rightarrow> ''0.0.0.0'')"
  proof (cases "inet_pton4 ip")
    case None
    have "inet_ntop4 (replicate 4 (CHR 0x00)) = ''0.0.0.0''" by code_simp
    then show ?thesis using None b by (simp add: a)
  next
    case (Some quad)
    then show ?thesis using b inet_pton4_ntop4 [OF Some] by (simp add: a poke_fields slice_poke)
  qed
  then show ?thesis
    using toIp_quad [of ?a ntop6] by (simp add: Let_def getPort_def portNetEndian_def InetAddress_family_def port_roundtrip)
qed

theorem inet_address_roundtrip_witness:
  "toIpPort (\<lambda>_. []) (InetAddress_ctor_ip (\<lambda>_. None) (replicate 28 CHR ''x'') ''192.168.0.255'' 8080 False) = Some ''192.168.0.255:8080'' \<and>
   toIpPort (\<lambda>_. []) (InetAddress_ctor_ip (\<lambda>_. None) (replicate 28 CHR ''x'') ''192.168.00.1'' 80 False) = Some ''0.0.0.0:80''"
proof -
  have p: "inet_pton4 ''192.168.0.255'' \<noteq> None" "inet_pton4 ''192.168.00.1'' = None" by code_simp+
  have d: "dec_nat 8080 = ''8080''" "dec_nat 80 = ''80''"
    by (simp_all add: dec_nat.simps digit_char_def char_of_def bit_iff_odd)
  have l: "length (replicate 28 CHR ''x'') = sizeof_sockaddr_in6" by (simp add: sizeof_sockaddr_in6_def)
  show ?thesis
    using inet_address_roundtrip [OF l, of "\<lambda>_. None" "''192.168.0.255''" 8080 "\<lambda>_. []"]
      inet_address_roundtrip [OF l, of "\<lambda>_. None" "''192.168.00.1''" 80 "\<lambda>_. []"] p by (auto simp: Let_def d)
qed

end
