(* ===== verification/LogStream.thy ===== *)
theory LogStream
  imports Timestamp
begin

text \<open>
  \<open>tmuduo/base/LogStream.h\<close> and \<open>LogStream.cc\<close>: the fixed-size buffer under every log
  line, integer formatting, and the stream operators. The buffer is the array \<open>data_\<close> with
  the offset of \<open>cur_\<close> in it; a write outside the array is \<open>None\<close>. The text that the C
  library prints for a floating point number (\<open>%.12g\<close>) is an argument of \<open>put_double\<close>.
\<close>

subsection \<open>FixedBuffer\<close>

record fixed_buffer =
  fb_data :: bytes
  fb_cur :: nat

definition kSmallBuffer :: nat where
  "kSmallBuffer = 4000"

definition kLargeBuffer :: nat where
  "kLargeBuffer = 4000 * 1000"

text \<open>The array is not initialised: its contents are an argument.\<close>

definition FixedBuffer_ctor :: "bytes \<Rightarrow> fixed_buffer" where
  "FixedBuffer_ctor raw = \<lparr>fb_data = raw, fb_cur = 0\<rparr>"

definition fb_avail :: "fixed_buffer \<Rightarrow> int" where
  "fb_avail b = int (length (fb_data b)) - int (fb_cur b)"

definition fb_length :: "fixed_buffer \<Rightarrow> nat" where
  "fb_length b = fb_cur b"

definition fb_add :: "nat \<Rightarrow> fixed_buffer \<Rightarrow> fixed_buffer" where
  "fb_add len b = b\<lparr>fb_cur := fb_cur b + len\<rparr>"

text \<open>\<open>memcpy\<close> and the other writes through \<open>current()\<close>.\<close>

definition fb_write :: "bytes \<Rightarrow> fixed_buffer \<Rightarrow> fixed_buffer option" where
  "fb_write s b = do {
     d \<leftarrow> vec_write (fb_data b) (fb_cur b) s;
     Some (b\<lparr>fb_data := d\<rparr>) }"

definition FixedBuffer_append :: "bytes \<Rightarrow> fixed_buffer \<Rightarrow> fixed_buffer option" where
  "FixedBuffer_append buf b =
     (if nat (fb_avail b mod 2 ^ 64) > length buf then do {
        b \<leftarrow> fb_write buf b;
        Some (fb_add (length buf) b) }
      else Some b)"

definition fb_reset :: "fixed_buffer \<Rightarrow> fixed_buffer" where
  "fb_reset b = b\<lparr>fb_cur := 0\<rparr>"

definition fb_bzero :: "fixed_buffer \<Rightarrow> fixed_buffer" where
  "fb_bzero b = b\<lparr>fb_data := replicate (length (fb_data b)) (CHR 0x00)\<rparr>"

definition fb_toString :: "fixed_buffer \<Rightarrow> string" where
  "fb_toString b = slice 0 (fb_length b) (fb_data b)"

definition fb_debugString :: "fixed_buffer \<Rightarrow> fixed_buffer option" where
  "fb_debugString b = fb_write [CHR 0x00] b"

subsection \<open>Integers to text\<close>

text \<open>The table has the digits on both sides of \<open>zero = digits + 9\<close>: a remainder may be negative.\<close>

definition digits :: string where
  "digits = ''9876543210123456789''"

definition digitsHex :: string where
  "digitsHex = ''0123456789ABCDEF''"

lemma cdiv10_less: "cdiv i 10 \<noteq> 0 \<Longrightarrow> nat \<bar>cdiv i 10\<bar> < nat \<bar>i\<bar>"
  by (auto simp: cdiv_def abs_mult sgn_if split: if_splits)

function convert_digits :: "int \<Rightarrow> string" where
  "convert_digits i =
     (let lsd = cmod i 10; i' = cdiv i 10; c = digits ! nat (9 + lsd) in
      if i' \<noteq> 0 then c # convert_digits i' else [c])"
  by auto
termination
  by (relation "measure (\<lambda>i. nat \<bar>i\<bar>)") (use cdiv10_less in auto)

declare convert_digits.simps [simp del]

definition convert :: "int \<Rightarrow> string" where
  "convert n = (let p = convert_digits n; p = (if n < 0 then p @ ''-'' else p) in rev p)"

fun convertHex_digits :: "nat \<Rightarrow> string" where
  "convertHex_digits i =
     (let lsd = i mod 16; i' = i div 16; c = digitsHex ! lsd in
      if i' \<noteq> 0 then c # convertHex_digits i' else [c])"

declare convertHex_digits.simps [simp del]

definition convertHex :: "nat \<Rightarrow> string" where
  "convertHex n = rev (convertHex_digits n)"

subsection \<open>The stream operators\<close>

definition kMaxNumericSize :: int where
  "kMaxNumericSize = 32"

text \<open>The conversion also writes a terminating zero behind the digits.\<close>

definition formatInteger :: "int \<Rightarrow> fixed_buffer \<Rightarrow> fixed_buffer option" where
  "formatInteger v b =
     (if fb_avail b \<ge> kMaxNumericSize then do {
        let s = convert v;
        b \<leftarrow> fb_write (s @ [CHR 0x00]) b;
        Some (fb_add (length s) b) }
      else Some b)"

text \<open>
  The operators for the integer types; \<open>short\<close> and \<open>unsigned short\<close> are widened first, which
  keeps their value.
\<close>

datatype int_type = TShort | TUShort | TInt | TUInt | TLong | TULong | TLongLong | TULongLong

fun put_integer :: "int_type \<Rightarrow> int \<Rightarrow> fixed_buffer \<Rightarrow> fixed_buffer option" where
  "put_integer TInt v b = formatInteger v b"
| "put_integer TUInt v b = formatInteger v b"
| "put_integer TLong v b = formatInteger v b"
| "put_integer TULong v b = formatInteger v b"
| "put_integer TLongLong v b = formatInteger v b"
| "put_integer TULongLong v b = formatInteger v b"
| "put_integer TShort v b = formatInteger v b"
| "put_integer TUShort v b = formatInteger v b"

definition put_pointer :: "nat \<Rightarrow> fixed_buffer \<Rightarrow> fixed_buffer option" where
  "put_pointer v b =
     (if fb_avail b \<ge> kMaxNumericSize then do {
        let s = convertHex v;
        b \<leftarrow> fb_write (''0x'' @ s @ [CHR 0x00]) b;
        Some (fb_add (length s + 2) b) }
      else Some b)"

definition put_double :: "string \<Rightarrow> fixed_buffer \<Rightarrow> fixed_buffer option" where
  "put_double text b =
     (if fb_avail b \<ge> kMaxNumericSize then do {
        let len = length text;
        b \<leftarrow> fb_write (snprintf 32 text @ [CHR 0x00]) b;
        Some (fb_add len b) }
      else Some b)"

definition put_bool :: "bool \<Rightarrow> fixed_buffer \<Rightarrow> fixed_buffer option" where
  "put_bool v b = FixedBuffer_append (if v then ''1'' else ''0'') b"

definition put_char :: "char \<Rightarrow> fixed_buffer \<Rightarrow> fixed_buffer option" where
  "put_char v b = FixedBuffer_append [v] b"

definition put_cstr :: "string option \<Rightarrow> fixed_buffer \<Rightarrow> fixed_buffer option" where
  "put_cstr str b = (case str of Some s \<Rightarrow> FixedBuffer_append s b | None \<Rightarrow> FixedBuffer_append ''(null)'' b)"

definition put_string :: "string \<Rightarrow> fixed_buffer \<Rightarrow> fixed_buffer option" where
  "put_string v b = FixedBuffer_append v b"

definition put_buffer :: "fixed_buffer \<Rightarrow> fixed_buffer \<Rightarrow> fixed_buffer option" where
  "put_buffer v b = put_string (fb_toString v) b"

text \<open>\<open>Fmt\<close> holds what \<open>snprintf\<close> prints with the given format, which must fit in 32 bytes.\<close>

definition Fmt_ctor :: "string \<Rightarrow> string option" where
  "Fmt_ctor text = do {
     let buf = snprintf 32 text;
     let len = length text;
     assert_that (len < 32);
     Some (take len buf) }"

definition put_fmt :: "string \<Rightarrow> fixed_buffer \<Rightarrow> fixed_buffer option" where
  "put_fmt fmt b = FixedBuffer_append fmt b"

datatype log_op =
    LogBool bool | LogInt int_type int | LogPointer nat | LogDouble string | LogChar char
  | LogCStr "string option" | LogString string | LogFmt string

fun exec_log :: "log_op \<Rightarrow> fixed_buffer \<Rightarrow> fixed_buffer option" where
  "exec_log (LogBool v) b = put_bool v b"
| "exec_log (LogInt ty v) b = put_integer ty v b"
| "exec_log (LogPointer p) b = put_pointer p b"
| "exec_log (LogDouble text) b = put_double text b"
| "exec_log (LogChar c) b = put_char c b"
| "exec_log (LogCStr s) b = put_cstr s b"
| "exec_log (LogString s) b = put_string s b"
| "exec_log (LogFmt text) b = do { fmt \<leftarrow> Fmt_ctor text; put_fmt fmt b }"

primrec exec_logs :: "log_op list \<Rightarrow> fixed_buffer \<Rightarrow> fixed_buffer option" where
  "exec_logs [] b = Some b"
| "exec_logs (x # xs) b = exec_log x b \<bind> exec_logs xs"

subsection \<open>The digits are the decimal digits\<close>

lemma digits_nth: "-9 \<le> d \<Longrightarrow> d \<le> 9 \<Longrightarrow> digits ! nat (9 + d) = digit_char (nat \<bar>d\<bar>)"
proof -
  assume "-9 \<le> d" "d \<le> 9"
  then have "d \<in> set [-9, -8, -7, -6, -5, -4, -3, -2, -1, 0, 1, 2, 3, 4, 5, 6, 7, 8, 9]" by simp presburger
  moreover have "\<forall>d \<in> set [-9, -8, -7, -6, -5, -4, -3, -2, -1, 0, 1, 2, 3, 4, 5, 6, 7, 8, 9].
      digits ! nat (9 + d) = digit_char (nat \<bar>d\<bar>)"
    by (simp add: digits_def digit_char_def char_of_def bit_iff_odd)
  ultimately show ?thesis by blast
qed

lemma cdiv_cmod_abs:
  "nat \<bar>cdiv i 10\<bar> = nat \<bar>i\<bar> div 10" "nat \<bar>cmod i 10\<bar> = nat \<bar>i\<bar> mod 10" "-9 \<le> cmod i 10" "cmod i 10 \<le> 9"
proof -
  have d: "\<bar>cdiv i 10\<bar> = \<bar>i\<bar> div 10" by (auto simp: cdiv_def abs_mult sgn_if)
  then show "nat \<bar>cdiv i 10\<bar> = nat \<bar>i\<bar> div 10" by (simp add: nat_div_distrib)
  have m: "cmod i 10 = sgn i * (\<bar>i\<bar> mod 10)"
    by (simp add: cmod_def cdiv_def minus_mult_div_eq_mod [symmetric] sgn_if algebra_simps)
  have "0 \<le> \<bar>i\<bar> mod 10" "\<bar>i\<bar> mod 10 \<le> 9" using pos_mod_bound [of 10 "\<bar>i\<bar>"] by simp_all
  with m show "-9 \<le> cmod i 10" "cmod i 10 \<le> 9" by (auto simp: sgn_if)
  have "\<bar>cmod i 10\<bar> = \<bar>i\<bar> mod 10" using m by (auto simp: abs_mult sgn_if)
  then show "nat \<bar>cmod i 10\<bar> = nat \<bar>i\<bar> mod 10" by (simp add: nat_mod_distrib)
qed

lemma convert_digits_eq: "rev (convert_digits i) = dec_nat (nat \<bar>i\<bar>)"
proof (induction i rule: convert_digits.induct)
  case (1 i)
  have "cdiv i 10 \<noteq> 0 \<longleftrightarrow> \<not> nat \<bar>i\<bar> < 10"
    using cdiv_cmod_abs(1) [of i] by (auto simp: div_eq_0_iff)
  with 1 show ?case
    using digits_nth [of "cmod i 10"] cdiv_cmod_abs [of i]
    by (auto simp: convert_digits.simps [of i] dec_nat.simps [of "nat \<bar>i\<bar>"] Let_def)
qed

lemma convert_eq_dec_int: "convert n = dec_int n"
  by (simp add: convert_def dec_int_def convert_digits_eq Let_def)

lemma convert_length:
  assumes "- (2 ^ 63) \<le> n" "n < 2 ^ 64"
  shows "length (convert n) \<le> 20"
proof (cases "n < 0")
  case True
  then have "nat (- n) < 10 ^ 19" using assms by simp
  then show ?thesis using True dec_nat_length [of "nat (- n)" 19] by (simp add: convert_eq_dec_int dec_int_def)
next
  case False
  then have "nat n < 10 ^ 20" using assms by simp
  then show ?thesis using False dec_nat_length [of "nat n" 20] by (simp add: convert_eq_dec_int dec_int_def)
qed

definition hex_val :: "char \<Rightarrow> nat" where
  "hex_val c = (if of_char c < (58 :: nat) then of_char c - 48 else of_char c - 55)"

definition read_hex :: "string \<Rightarrow> nat" where
  "read_hex s = foldl (\<lambda>acc c. 16 * acc + hex_val c) 0 s"

lemma read_hex_snoc: "read_hex (s @ [c]) = 16 * read_hex s + hex_val c"
  by (simp add: read_hex_def)

lemma hex_val_digit: "d < 16 \<Longrightarrow> hex_val (digitsHex ! d) = d"
proof -
  assume "d < 16"
  then have "d \<in> set [0 ..< 16]" by simp
  moreover have "\<forall>d \<in> set [0 ..< 16]. hex_val (digitsHex ! d) = d"
    by (simp add: upt_rec digitsHex_def hex_val_def)
  ultimately show ?thesis by blast
qed

lemma read_convertHex: "read_hex (convertHex n) = n"
  unfolding convertHex_def
proof (induction n rule: convertHex_digits.induct)
  case (1 n)
  show ?case
  proof (cases "n div 16 = 0")
    case True
    then have "n < 16" by (simp add: div_eq_0_iff)
    then show ?thesis by (simp add: convertHex_digits.simps [of n] read_hex_def hex_val_digit)
  next
    case False
    have "hex_val (digitsHex ! (n mod 16)) = n mod 16" by (intro hex_val_digit) simp
    with 1 False show ?thesis by (simp add: convertHex_digits.simps [of n] Let_def read_hex_snoc)
  qed
qed

lemma convertHex_length: "n < 16 ^ k \<Longrightarrow> 0 < k \<Longrightarrow> length (convertHex n) \<le> k"
  unfolding convertHex_def
proof (induction n arbitrary: k rule: convertHex_digits.induct)
  case (1 n)
  show ?case
  proof (cases "n div 16 = 0")
    case True
    then show ?thesis using "1.prems" by (simp add: convertHex_digits.simps [of n] Let_def)
  next
    case False
    then obtain j where k: "k = Suc j" "0 < j"
      using "1.prems" by (cases k; cases "k - 1") (auto simp: div_eq_0_iff)
    have "n div 16 < 16 ^ j" using "1.prems" k by (simp add: less_mult_imp_div_less mult.commute)
    with "1.IH" [of _ _ _ j] False k show ?thesis by (simp add: convertHex_digits.simps [of n] Let_def)
  qed
qed

subsection \<open>The stream as a string that stops growing\<close>

text \<open>
  \<open>fb_ok N b\<close>: the array has \<open>N\<close> bytes and the write position is inside it. Every operator
  either appends its whole text or leaves the stream alone.
\<close>

definition fb_ok :: "nat \<Rightarrow> fixed_buffer \<Rightarrow> bool" where
  "fb_ok N b \<longleftrightarrow> length (fb_data b) = N \<and> fb_cur b < N \<and> N < 2 ^ 63"

definition spec_append :: "nat \<Rightarrow> nat \<Rightarrow> string \<Rightarrow> string \<Rightarrow> string" where
  "spec_append N need piece s = (if length s + need \<le> N then s @ piece else s)"

lemma fb_toString_length: "fb_ok N b \<Longrightarrow> length (fb_toString b) = fb_cur b"
  by (simp add: fb_ok_def fb_toString_def fb_length_def)

lemma fb_write_add:
  assumes "fb_ok N b" "fb_cur b + length (s @ z) \<le> N" "fb_cur b + length s < N"
  shows "\<exists>d. fb_write (s @ z) b = Some (b\<lparr>fb_data := d\<rparr>) \<and> fb_ok N (fb_add (length s) (b\<lparr>fb_data := d\<rparr>)) \<and>
     fb_toString (fb_add (length s) (b\<lparr>fb_data := d\<rparr>)) = fb_toString b @ s"
proof -
  let ?c = "fb_cur b"
  obtain d where d: "vec_write (fb_data b) ?c (s @ z) = Some d"
    using vec_write_fits assms unfolding fb_ok_def by blast
  have "slice 0 (?c + length s) d = slice 0 ?c d @ slice ?c (?c + length s) d"
    by (rule slice_split) simp_all
  moreover have "slice 0 ?c d = slice 0 ?c (fb_data b)" using slice_vec_write_before [OF d] by simp
  moreover have "slice ?c (?c + length s) d = s"
    using take_slice [of "length s" "?c + length (s @ z)" ?c d] slice_vec_write_at [OF d] by simp
  ultimately have "slice 0 (?c + length s) d = slice 0 ?c (fb_data b) @ s" by simp
  moreover have "length d = N" using length_vec_write [OF d] assms by (simp add: fb_ok_def)
  ultimately show ?thesis
    using d assms by (intro exI [of _ d]) (simp add: fb_write_def fb_ok_def fb_add_def fb_toString_def fb_length_def)
qed

lemma FixedBuffer_append_spec:
  assumes "fb_ok N b"
  shows "\<exists>b'. FixedBuffer_append s b = Some b' \<and> fb_ok N b' \<and>
     fb_toString b' = spec_append N (length s + 1) s (fb_toString b)"
proof -
  have "nat (fb_avail b mod 2 ^ 64) = N - fb_cur b"
    using assms by (simp add: fb_avail_def fb_ok_def) 
  then show ?thesis
    using assms fb_write_add [OF assms, of s "[]"] fb_toString_length [OF assms]
    by (cases "length s < N - fb_cur b") (auto simp: FixedBuffer_append_def spec_append_def)
qed

lemma fb_number_spec:
  assumes "fb_ok N b" "length s < 32" "length s + length z \<le> 32"
  shows "\<exists>b'. (if fb_avail b \<ge> kMaxNumericSize
      then do { b \<leftarrow> fb_write (s @ z) b; Some (fb_add (length s) b) } else Some b) = Some b' \<and> fb_ok N b' \<and>
     fb_toString b' = spec_append N 32 s (fb_toString b)"
  using assms fb_write_add [OF assms(1), of s z] fb_toString_length [OF assms(1)]
  by (auto simp: spec_append_def fb_avail_def fb_ok_def kMaxNumericSize_def)

fun log_text :: "log_op \<Rightarrow> string" where
  "log_text (LogBool v) = (if v then ''1'' else ''0'')"
| "log_text (LogInt ty v) = dec_int v"
| "log_text (LogPointer p) = ''0x'' @ convertHex p"
| "log_text (LogDouble text) = text"
| "log_text (LogChar c) = [c]"
| "log_text (LogCStr s) = (case s of Some t \<Rightarrow> t | None \<Rightarrow> ''(null)'')"
| "log_text (LogString s) = s"
| "log_text (LogFmt text) = text"

fun log_need :: "log_op \<Rightarrow> nat" where
  "log_need (LogInt ty v) = 32"
| "log_need (LogPointer p) = 32"
| "log_need (LogDouble text) = 32"
| "log_need x = length (log_text x) + 1"

text \<open>Arguments have the range of their C++ types; formatted numbers are shorter than 32 characters.\<close>

definition in_int_type :: "int_type \<Rightarrow> int \<Rightarrow> bool" where
  "in_int_type ty v \<longleftrightarrow> (case ty of
       TShort \<Rightarrow> - (2 ^ 15) \<le> v \<and> v < 2 ^ 15 | TUShort \<Rightarrow> 0 \<le> v \<and> v < 2 ^ 16
     | TInt \<Rightarrow> - (2 ^ 31) \<le> v \<and> v < 2 ^ 31 | TUInt \<Rightarrow> 0 \<le> v \<and> v < 2 ^ 32
     | TLong \<Rightarrow> - (2 ^ 63) \<le> v \<and> v < 2 ^ 63 | TULong \<Rightarrow> 0 \<le> v \<and> v < 2 ^ 64
     | TLongLong \<Rightarrow> - (2 ^ 63) \<le> v \<and> v < 2 ^ 63 | TULongLong \<Rightarrow> 0 \<le> v \<and> v < 2 ^ 64)"

lemma in_int_type_width: "in_int_type ty v \<Longrightarrow> - (2 ^ 63) \<le> v \<and> v < 2 ^ 64"
  by (cases ty) (simp_all add: in_int_type_def)

lemma put_integer_format: "put_integer ty v b = formatInteger v b"
  by (cases ty) simp_all

fun log_ok :: "log_op \<Rightarrow> bool" where
  "log_ok (LogInt ty v) \<longleftrightarrow> in_int_type ty v"
| "log_ok (LogPointer p) \<longleftrightarrow> p < 2 ^ 64"
| "log_ok (LogDouble text) \<longleftrightarrow> length text < 32"
| "log_ok (LogFmt text) \<longleftrightarrow> length text < 32"
| "log_ok _ \<longleftrightarrow> True"

primrec log_spec :: "nat \<Rightarrow> log_op list \<Rightarrow> string \<Rightarrow> string" where
  "log_spec N [] s = s"
| "log_spec N (x # xs) s = log_spec N xs (spec_append N (log_need x) (log_text x) s)"

lemma exec_log_spec:
  assumes "fb_ok N b" "log_ok x"
  shows "\<exists>b'. exec_log x b = Some b' \<and> fb_ok N b' \<and>
     fb_toString b' = spec_append N (log_need x) (log_text x) (fb_toString b)"
proof (cases x)
  case (LogInt ty v)
  have "length (convert v) \<le> 20" using assms LogInt in_int_type_width [of ty v] by (intro convert_length) simp_all
  then show ?thesis
    using fb_number_spec [OF assms(1), of "convert v" "[CHR 0x00]"] LogInt
    by (auto simp: put_integer_format formatInteger_def convert_eq_dec_int Let_def split: if_splits)
next
  case (LogPointer p)
  have "length (convertHex p) \<le> 16" using assms LogPointer by (intro convertHex_length) simp_all
  then show ?thesis
    using fb_number_spec [OF assms(1), of "''0x'' @ convertHex p" "[CHR 0x00]"] LogPointer
    by (auto simp: put_pointer_def Let_def split: if_splits)
next
  case (LogDouble t)
  then show ?thesis
    using fb_number_spec [OF assms(1), of t "[CHR 0x00]"] assms by (auto simp: put_double_def snprintf_fits Let_def split: if_splits)
next
  case (LogFmt t)
  then show ?thesis
    using FixedBuffer_append_spec [OF assms(1), of t] assms
    by (simp add: put_fmt_def Fmt_ctor_def snprintf_fits assert_that_bind_True)
next
  case (LogChar c)
  then show ?thesis using FixedBuffer_append_spec [OF assms(1), of "[c]"] by (simp add: put_char_def)
next
  case (LogCStr s)
  then show ?thesis
    using FixedBuffer_append_spec [OF assms(1), of "log_text x"] by (cases s) (simp_all add: put_cstr_def)
next
  case (LogBool v)
  then show ?thesis
    using FixedBuffer_append_spec [OF assms(1), of "log_text x"] by (cases v) (simp_all add: put_bool_def)
next
  case (LogString s)
  then show ?thesis using FixedBuffer_append_spec [OF assms(1), of s] by (simp add: put_string_def)
qed

lemma exec_logs_spec:
  assumes "fb_ok N b" "\<forall>x \<in> set xs. log_ok x"
  shows "\<exists>b'. exec_logs xs b = Some b' \<and> fb_ok N b' \<and> fb_toString b' = log_spec N xs (fb_toString b)"
  using assms
proof (induction xs arbitrary: b)
  case (Cons x xs)
  then obtain b1 where "exec_log x b = Some b1" "fb_ok N b1"
      "fb_toString b1 = spec_append N (log_need x) (log_text x) (fb_toString b)"
    using exec_log_spec by (metis list.set_intros(1))
  with Cons show ?case by fastforce
qed simp

text \<open>
  C16: Any sequence of stream operators on a fresh log stream stays inside its 4000-byte array,
  whatever bytes the array held before. The line is the concatenation of the texts of the operands, integers of every width
  in decimal (the most negative \<open>int64_t\<close> and the largest \<open>uint64_t\<close> included) and pointers
  in hexadecimal, where an operand is left out as a whole when fewer than 32 bytes (for a number) or
  its length plus one (for text) are left.
\<close>
theorem logstream_content:
  assumes "length raw = kSmallBuffer" "\<forall>x \<in> set xs. log_ok x"
  shows "\<exists>b. exec_logs xs (FixedBuffer_ctor raw) = Some b \<and> fb_toString b = log_spec kSmallBuffer xs '''' \<and>
     fb_length b < kSmallBuffer"
proof -
  have "fb_ok kSmallBuffer (FixedBuffer_ctor raw)" "fb_toString (FixedBuffer_ctor raw) = ''''"
    using assms by (simp_all add: fb_ok_def FixedBuffer_ctor_def kSmallBuffer_def fb_toString_def fb_length_def slice_def)
  with exec_logs_spec [OF _ assms(2)] show ?thesis by (metis fb_length_def fb_ok_def)
qed

theorem logstream_content_witness:
  "\<exists>b. exec_logs [LogString ''fd='', LogInt TLong (- 9223372036854775808), LogCStr None, LogPointer 48879, LogBool True]
         (FixedBuffer_ctor (replicate 4000 CHR ''?'')) = Some b \<and>
     fb_toString b = ''fd=-9223372036854775808(null)0xBEEF1'' \<and> fb_length b < kSmallBuffer"
  using logstream_content [of "replicate 4000 CHR ''?''"
      "[LogString ''fd='', LogInt TLong (- 9223372036854775808), LogCStr None, LogPointer 48879, LogBool True]"]
  by (simp add: kSmallBuffer_def in_int_type_def spec_append_def dec_int_def dec_nat.simps digit_char_def char_of_def bit_iff_odd convertHex_def
      convertHex_digits.simps digitsHex_def)

text \<open>
  C17: The table-driven conversions print numbers the way decimal and hexadecimal notation do. \<open>convert\<close>, which
  divides towards zero and looks negative remainders up in a mirrored table of digits, gives for every value of a
  64-bit type, the most negative included, the digits of its absolute value behind a sign; reading the text back gives the value. The
  same holds of \<open>convertHex\<close> for pointers. Both fit in \<open>kMaxNumericSize\<close> bytes with the terminating null
  character.
\<close>
theorem integer_text:
  assumes "- (2 ^ 63) \<le> v" "v < 2 ^ 64" "a < 2 ^ 64"
  shows "convert v = dec_int v \<and> int (read_dec (if v < 0 then tl (convert v) else convert v)) = \<bar>v\<bar> \<and>
     read_hex (convertHex a) = a \<and>
     int (length (convert v)) + 1 \<le> kMaxNumericSize \<and> int (length (''0x'' @ convertHex a)) + 1 \<le> kMaxNumericSize"
proof -
  have "length (convertHex a) \<le> 16" using assms(3) by (intro convertHex_length) simp_all
  then show ?thesis
    using convert_length [OF assms(1,2)] by (simp add: convert_eq_dec_int dec_int_def read_dec_dec_nat read_convertHex kMaxNumericSize_def)
qed

theorem integer_text_witness:
  "int (read_dec (tl (convert (- 9223372036854775808)))) = 9223372036854775808 \<and>
   read_hex (convertHex 18446744073709551615) = 18446744073709551615"
  using integer_text [of "- 9223372036854775808" 18446744073709551615] by (simp add: convert_eq_dec_int)

end
