(* ===== verification/Logging.thy ===== *)
theory Logging
  imports LogStream
begin

text \<open>
  \<open>tmuduo/base/Logging.h\<close>, \<open>Logging.cc\<close> and the thread-local identity of
  \<open>CurrentThread.cc\<close>: what one \<open>LOG_\<close> statement writes. The thread-local variables are
  the record \<open>thread_vars\<close>; the clock, \<open>gettid\<close>, \<open>localtime_r\<close> and \<open>strerror_r\<close>
  are arguments. \<open>None\<close> is a failed assertion.
\<close>

subsection \<open>Thread-local variables\<close>

record thread_vars =
  t_cachedTid :: int
  t_tidString :: string
  t_tidStringLength :: nat
  t_time :: string
  t_lastSecond :: int

definition fresh_thread :: thread_vars where
  "fresh_thread = \<lparr>t_cachedTid = 0, t_tidString = '''', t_tidStringLength = 6, t_time = '''', t_lastSecond = 0\<rparr>"

definition cacheTid :: "int \<Rightarrow> thread_vars \<Rightarrow> thread_vars" where
  "cacheTid gettid th =
     (if t_cachedTid th = 0 then
        (let s = pad_blank 6 gettid @ '' '' in
         th\<lparr>t_cachedTid := gettid, t_tidStringLength := length s, t_tidString := snprintf 32 s\<rparr>)
      else th)"

definition current_tid :: "int \<Rightarrow> thread_vars \<Rightarrow> int \<times> thread_vars" where
  "current_tid gettid th = (let th = (if t_cachedTid th = 0 then cacheTid gettid th else th) in (t_cachedTid th, th))"

definition isMainThread :: "int \<Rightarrow> int \<Rightarrow> thread_vars \<Rightarrow> bool" where
  "isMainThread gettid getpid th \<longleftrightarrow> fst (current_tid gettid th) = getpid"

text \<open>
  \<open>usec & kMicroSecondsPerSecond * 1000\<close>: the source masks where it means the remainder, so
  \<open>tv_nsec\<close> is a mask of the bits of \<open>usec\<close>.
\<close>

definition sleepUSec :: "nat \<Rightarrow> nat \<times> nat" where
  "sleepUSec usec = (usec div (1000 * 1000), and usec (1000 * 1000 * 1000))"

subsection \<open>Log levels and source files\<close>

datatype log_level = TRACE | DEBUG | INFO | WARN | ERROR | FATAL

fun level_num :: "log_level \<Rightarrow> nat" where
  "level_num TRACE = 0" | "level_num DEBUG = 1" | "level_num INFO = 2"
| "level_num WARN = 3" | "level_num ERROR = 4" | "level_num FATAL = 5"

definition LogLevelName :: "log_level \<Rightarrow> string" where
  "LogLevelName l = [''TRACE '', ''DEBUG '', ''INFO  '', ''WARN  '', ''ERROR '', ''FATAL ''] ! level_num l"

text \<open>\<open>getenv\<close> is given as the set of the variables that are set.\<close>

definition initLogLevel :: "string set \<Rightarrow> log_level" where
  "initLogLevel env = (if ''LOG_TRACE'' \<in> env then TRACE else if ''LOG_DEBUG'' \<in> env then DEBUG else INFO)"

text \<open>\<open>strrchr\<close>: the offset of the last occurrence.\<close>

fun rfind_index :: "'a \<Rightarrow> 'a list \<Rightarrow> nat option" where
  "rfind_index c [] = None"
| "rfind_index c (x # xs) = (case rfind_index c xs of
       Some i \<Rightarrow> Some (Suc i)
     | None \<Rightarrow> if x = c then Some 0 else None)"

definition SourceFile_ctor :: "string \<Rightarrow> string" where
  "SourceFile_ctor filename = (case rfind_index CHR ''/'' filename of
       Some slash \<Rightarrow> drop (slash + 1) filename
     | None \<Rightarrow> filename)"

subsection \<open>The global variables\<close>

text \<open>
  The level and the two function pointers. What the functions act on, the state of the process that they change, is the
  type parameter; the record \<open>stdio\<close> is the part of it that the default functions use, with what has been handed to
  \<open>stdout\<close> and what of it has been flushed. \<open>fwrite\<close> is a parameter: how many bytes it takes.
\<close>

record 'w log_globals =
  g_logLevel :: log_level
  g_output :: "bytes \<Rightarrow> 'w \<Rightarrow> 'w"
  g_flush :: "'w \<Rightarrow> 'w"

record stdio =
  so_written :: bytes
  so_flushed :: bytes

definition defaultOutput :: "(bytes \<Rightarrow> nat) \<Rightarrow> bytes \<Rightarrow> 'a stdio_scheme \<Rightarrow> 'a stdio_scheme" where
  "defaultOutput fwrite msg w = w\<lparr>so_written := so_written w @ take (fwrite msg) msg\<rparr>"

definition defaultFlush :: "'a stdio_scheme \<Rightarrow> 'a stdio_scheme" where
  "defaultFlush w = w\<lparr>so_flushed := so_written w\<rparr>"

definition init_globals :: "(bytes \<Rightarrow> nat) \<Rightarrow> string set \<Rightarrow> 'a stdio_scheme log_globals" where
  "init_globals fwrite env = \<lparr>g_logLevel = initLogLevel env, g_output = defaultOutput fwrite, g_flush = defaultFlush\<rparr>"

definition setLogLevel :: "log_level \<Rightarrow> 'w log_globals \<Rightarrow> 'w log_globals" where
  "setLogLevel level g = g\<lparr>g_logLevel := level\<rparr>"

definition setOutPut :: "(bytes \<Rightarrow> 'w \<Rightarrow> 'w) \<Rightarrow> 'w log_globals \<Rightarrow> 'w log_globals" where
  "setOutPut out g = g\<lparr>g_output := out\<rparr>"

definition setFlush :: "('w \<Rightarrow> 'w) \<Rightarrow> 'w log_globals \<Rightarrow> 'w log_globals" where
  "setFlush flush g = g\<lparr>g_flush := flush\<rparr>"

subsection \<open>Logger\<close>

record logger =
  lg_time :: timestamp
  lg_stream :: fixed_buffer
  lg_level :: log_level
  lg_line :: int
  lg_basename :: string

text \<open>\<open>T(str, len)\<close> and its operator.\<close>

definition put_T :: "string \<Rightarrow> nat \<Rightarrow> logger \<Rightarrow> logger option" where
  "put_T str len l = do {
     assert_that (length str = len);
     b \<leftarrow> FixedBuffer_append str (lg_stream l);
     Some (l\<lparr>lg_stream := b\<rparr>) }"

definition log_ops :: "log_op list \<Rightarrow> logger \<Rightarrow> logger option" where
  "log_ops xs l = do { b \<leftarrow> exec_logs xs (lg_stream l); Some (l\<lparr>lg_stream := b\<rparr>) }"

definition time_text :: "tm \<Rightarrow> string" where
  "time_text t = pad_blank 4 (tm_year t + 1900) @ pad0 2 (tm_mon t + 1) @ pad0 2 (tm_mday t) @ '' '' @
     pad0 2 (tm_hour t) @ '':'' @ pad0 2 (tm_min t) @ '':'' @ pad0 2 (tm_sec t)"

definition formatTime :: "(int \<Rightarrow> tm) \<Rightarrow> thread_vars \<Rightarrow> logger \<Rightarrow> (thread_vars \<times> logger) option" where
  "formatTime localtime_r th l = do {
     let seconds = cdiv (lg_time l) kMicroSecondsPerSecond;
     let microseconds = cmod (lg_time l) kMicroSecondsPerSecond;
     th \<leftarrow> (if seconds \<noteq> t_lastSecond th then do {
         let s = time_text (localtime_r seconds);
         assert_that (length s = 17);
         Some (th\<lparr>t_lastSecond := seconds, t_time := snprintf 64 s\<rparr>) }
       else Some th);
     l \<leftarrow> put_T (t_time th) 17 l;
     fmt \<leftarrow> Fmt_ctor (''.'' @ pad0 6 microseconds @ '' '');
     l \<leftarrow> put_T fmt 8 l;
     Some (th, l) }"

record log_env =
  env_now :: timestamp
  env_gettid :: int
  env_localtime_r :: "int \<Rightarrow> tm"
  env_strerror :: "int \<Rightarrow> string"
  env_raw :: bytes

definition Impl_ctor :: "log_env \<Rightarrow> log_level \<Rightarrow> int \<Rightarrow> string \<Rightarrow> int \<Rightarrow> thread_vars \<Rightarrow> (thread_vars \<times> logger) option" where
  "Impl_ctor env level savedErrno file line th = do {
     let l = \<lparr>lg_time = env_now env, lg_stream = FixedBuffer_ctor (env_raw env), lg_level = level, lg_line = line,
       lg_basename = file\<rparr>;
     (th, l) \<leftarrow> formatTime (env_localtime_r env) th l;
     let th = snd (current_tid (env_gettid env) th);
     l \<leftarrow> put_T (t_tidString th) (t_tidStringLength th) l;
     l \<leftarrow> put_T (LogLevelName level) 6 l;
     l \<leftarrow> (if savedErrno \<noteq> 0 then
         log_ops [LogCStr (Some (env_strerror env savedErrno)), LogCStr (Some '' (errno=''), LogInt TInt savedErrno, LogCStr (Some '')'')] l
       else Some l);
     Some (th, l) }"

definition Logger_finish :: "logger \<Rightarrow> logger option" where
  "Logger_finish l = log_ops [LogCStr (Some '' - ''), LogString (lg_basename l), LogChar CHR '':'', LogInt TInt (lg_line l), LogChar (CHR 0x0A)] l"

definition Logger_line :: "log_env \<Rightarrow> string \<Rightarrow> int \<Rightarrow> thread_vars \<Rightarrow> (thread_vars \<times> logger) option" where
  "Logger_line env file line th = Impl_ctor env INFO 0 file line th"

definition Logger_func ::
  "log_env \<Rightarrow> string \<Rightarrow> int \<Rightarrow> log_level \<Rightarrow> string \<Rightarrow> thread_vars \<Rightarrow> (thread_vars \<times> logger) option" where
  "Logger_func env file line level func th = do {
     (th, l) \<leftarrow> Impl_ctor env level 0 file line th;
     l \<leftarrow> log_ops [LogCStr (Some func), LogChar CHR '' ''] l;
     Some (th, l) }"

definition Logger_level :: "log_env \<Rightarrow> string \<Rightarrow> int \<Rightarrow> log_level \<Rightarrow> thread_vars \<Rightarrow> (thread_vars \<times> logger) option" where
  "Logger_level env file line level th = Impl_ctor env level 0 file line th"

definition Logger_abort ::
  "log_env \<Rightarrow> int \<Rightarrow> string \<Rightarrow> int \<Rightarrow> bool \<Rightarrow> thread_vars \<Rightarrow> (thread_vars \<times> logger) option" where
  "Logger_abort env errno file line toAbort th = Impl_ctor env (if toAbort then FATAL else ERROR) errno file line th"

definition Logger_backtrace ::
  "log_env \<Rightarrow> string \<Rightarrow> int \<Rightarrow> log_level \<Rightarrow> string \<Rightarrow> string \<Rightarrow> thread_vars \<Rightarrow> (thread_vars \<times> logger) option" where
  "Logger_backtrace env file line level func backtrace th = do {
     (th, l) \<leftarrow> Impl_ctor env level 0 file line th;
     l \<leftarrow> log_ops [LogCStr (Some func), LogChar CHR '' '', LogString backtrace, LogChar CHR '' ''] l;
     Some (th, l) }"

text \<open>The destructor; the flag says whether the process ends in \<open>abort\<close>.\<close>

definition Logger_dtor :: "'w log_globals \<Rightarrow> logger \<Rightarrow> 'w \<Rightarrow> (bool \<times> 'w) option" where
  "Logger_dtor g l w = do {
     l \<leftarrow> Logger_finish l;
     let buf = lg_stream l;
     let w = g_output g (slice 0 (fb_length buf) (fb_data buf)) w;
     if lg_level l = FATAL then Some (True, g_flush g w) else Some (False, w) }"

subsection \<open>Log statements\<close>

text \<open>
  A statement such as \<open>LOG_WARN << \<dots>\<close> in a program: the macro, the operands, and what the compiler and the
  moment put into it (\<open>__func__\<close>, \<open>__FILE__\<close>, \<open>__LINE__\<close>, \<open>errno\<close>).
\<close>

datatype log_macro = LOG_TRACE | LOG_DEBUG | LOG_INFO | LOG_WARN | LOG_ERROR | LOG_FATAL | LOG_SYSERR | LOG_SYSFATAL

record log_site =
  ls_macro :: log_macro
  ls_ops :: "log_op list"
  ls_func :: string
  ls_file :: string
  ls_line :: int
  ls_errno :: int

text \<open>Whether the macro creates a logger at all, and the one it creates.\<close>

definition macro_logs :: "log_level \<Rightarrow> log_macro \<Rightarrow> bool" where
  "macro_logs level m \<longleftrightarrow>
     (case m of LOG_TRACE \<Rightarrow> level_num level \<le> level_num TRACE
      | LOG_DEBUG \<Rightarrow> level_num level \<le> level_num DEBUG
      | LOG_INFO \<Rightarrow> level_num level \<le> level_num INFO
      | _ \<Rightarrow> True)"

definition macro_logger :: "log_env \<Rightarrow> 'a log_site_scheme \<Rightarrow> thread_vars \<Rightarrow> (thread_vars \<times> logger) option" where
  "macro_logger env st th =
     (let file = SourceFile_ctor (ls_file st); line = ls_line st in
      case ls_macro st of
        LOG_TRACE \<Rightarrow> Logger_func env file line TRACE (ls_func st) th
      | LOG_DEBUG \<Rightarrow> Logger_func env file line DEBUG (ls_func st) th
      | LOG_INFO \<Rightarrow> Logger_line env file line th
      | LOG_WARN \<Rightarrow> Logger_level env file line WARN th
      | LOG_ERROR \<Rightarrow> Logger_level env file line ERROR th
      | LOG_FATAL \<Rightarrow> Logger_level env file line FATAL th
      | LOG_SYSERR \<Rightarrow> Logger_abort env (ls_errno st) file line False th
      | LOG_SYSFATAL \<Rightarrow> Logger_abort env (ls_errno st) file line True th)"

definition log_statement ::
  "log_env \<Rightarrow> 'a log_site_scheme \<Rightarrow> 'w log_globals \<Rightarrow> thread_vars \<Rightarrow> 'w \<Rightarrow> (bool \<times> thread_vars \<times> 'w) option" where
  "log_statement env st g th w =
     (if macro_logs (g_logLevel g) (ls_macro st) then do {
        (th, l) \<leftarrow> macro_logger env st th;
        l \<leftarrow> log_ops (ls_ops st) l;
        (abort, w) \<leftarrow> Logger_dtor g l w;
        Some (abort, th, w) }
      else Some (False, th, w))"

text \<open>\<open>CHECK_NOTNULL\<close>: a null pointer ends the process with a message.\<close>

definition CheckNotNull ::
  "log_env \<Rightarrow> string \<Rightarrow> int \<Rightarrow> string \<Rightarrow> 'p option \<Rightarrow> 'w log_globals \<Rightarrow> thread_vars \<Rightarrow> 'w \<Rightarrow>
     (bool \<times> thread_vars \<times> 'w \<times> 'p option) option" where
  "CheckNotNull env file line names ptr g th w =
     (if ptr = None then do {
        (th, l) \<leftarrow> Logger_level env (SourceFile_ctor file) line FATAL th;
        l \<leftarrow> log_ops [LogCStr (Some names)] l;
        (abort, w) \<leftarrow> Logger_dtor g l w;
        Some (abort, th, w, ptr) }
      else Some (False, th, w, ptr))"

subsection \<open>Lemmas\<close>

lemma rfind_index_None: "rfind_index c xs = None \<longleftrightarrow> c \<notin> set xs"
  by (induction xs) (auto split: option.splits)

lemma rfind_index_last: "c \<notin> set ys \<Longrightarrow> rfind_index c (xs @ c # ys) = Some (length xs)"
  by (induction xs) (auto simp: rfind_index_None [THEN iffD2])

lemma SourceFile_ctor_base: "CHR ''/'' \<notin> set base \<Longrightarrow> SourceFile_ctor (dir @ CHR ''/'' # base) = base"
  by (simp add: SourceFile_ctor_def rfind_index_last)

lemma level_names: "length (LogLevelName l) = 6"
  by (cases l) (simp_all add: LogLevelName_def)

text \<open>When there is room for everything, nothing is left out.\<close>

lemma log_spec_append: "log_spec N (xs @ ys) s = log_spec N ys (log_spec N xs s)"
  by (induction xs arbitrary: s) simp_all

lemma log_need_le: "log_ok x \<Longrightarrow> log_need x \<le> length (log_text x) + 32"
  by (cases x) simp_all

lemma log_spec_fits:
  assumes "\<forall>x \<in> set xs. log_ok x" "length s + length (concat (map log_text xs)) + 32 \<le> N"
  shows "log_spec N xs s = s @ concat (map log_text xs)"
  using assms
proof (induction xs arbitrary: s)
  case (Cons x xs)
  have "length s + log_need x \<le> N" using Cons.prems log_need_le [of x] by simp
  with Cons show ?case by (simp add: spec_append_def)
qed simp

subsection \<open>One statement, one line\<close>

text \<open>
  What the caches of a thread hold: nothing yet, or the values for its own id and for the second
  they were computed in.
\<close>

definition thread_ok :: "log_env \<Rightarrow> thread_vars \<Rightarrow> bool" where
  "thread_ok env th \<longleftrightarrow>
     (t_cachedTid th = 0 \<or>
      t_cachedTid th = env_gettid env \<and> t_tidString th = pad_blank 6 (env_gettid env) @ '' '' \<and>
      t_tidStringLength th = length (t_tidString th)) \<and>
     (t_lastSecond th = 0 \<or> t_time th = time_text (env_localtime_r env (t_lastSecond th)))"

text \<open>The clock is past the first second of 1970, and \<open>localtime_r\<close> gives years of four digits.\<close>

definition env_ok :: "log_env \<Rightarrow> bool" where
  "env_ok env \<longleftrightarrow> env_now env \<ge> 1000000 \<and> 0 < env_gettid env \<and> env_gettid env < 2 ^ 31 \<and>
     length (time_text (env_localtime_r env (env_now env div 1000000))) = 17 \<and> length (env_raw env) = kSmallBuffer"

lemma dec_int_length: "0 \<le> i \<Longrightarrow> i < 10 ^ k \<Longrightarrow> 0 < k \<Longrightarrow> length (dec_int i) \<le> k"
  by (simp add: dec_int_def nat_less_iff dec_nat_length)

lemma pad0_length: "0 \<le> i \<Longrightarrow> i < 10 ^ w \<Longrightarrow> 0 < w \<Longrightarrow> length (pad0 w i) = w"
  using dec_int_length [of i w] by (simp add: pad0_def Let_def)

lemma cdiv_pos: "0 \<le> a \<Longrightarrow> 0 < b \<Longrightarrow> cdiv a b = a div b" "0 \<le> a \<Longrightarrow> 0 < b \<Longrightarrow> cmod a b = a mod b"
  by (auto simp: cdiv_def cmod_def sgn_if minus_div_mult_eq_mod)

lemma put_T_ops: "length str = len \<Longrightarrow> put_T str len l = log_ops [LogString str] l"
  by (simp add: put_T_def log_ops_def put_string_def)

lemma log_ops_comp: "log_ops xs l \<bind> log_ops ys = log_ops (xs @ ys) l"
proof -
  have "exec_logs (xs @ ys) b = exec_logs xs b \<bind> exec_logs ys" for b
    by (induction xs arbitrary: b) (auto split: bind_splits)
  then show ?thesis by (cases "exec_logs xs (lg_stream l)") (simp_all add: log_ops_def)
qed

definition frac_text :: "timestamp \<Rightarrow> string" where
  "frac_text t = ''.'' @ pad0 6 (t mod 1000000) @ '' ''"

definition tid_text :: "log_env \<Rightarrow> string" where
  "tid_text env = pad_blank 6 (env_gettid env) @ '' ''"

lemma tid_text_length: "env_ok env \<Longrightarrow> length (tid_text env) \<le> 11"
  using dec_int_length [of "env_gettid env" 10] by (simp add: env_ok_def tid_text_def pad_blank_def Let_def)

lemma formatTime_ops:
  assumes "env_ok env" "thread_ok env th" "lg_time l = env_now env"
  shows "\<exists>th'. thread_ok env th' \<and> formatTime (env_localtime_r env) th l =
     log_ops [LogString (time_text (env_localtime_r env (env_now env div 1000000))), LogString (frac_text (env_now env))] l
       \<bind> (\<lambda>l. Some (th', l))"
proof -
  define s where "s = env_now env div 1000000"
  define th' where "th' = (if s \<noteq> t_lastSecond th
      then th\<lparr>t_lastSecond := s, t_time := time_text (env_localtime_r env s)\<rparr> else th)"
  have div: "cdiv (env_now env) kMicroSecondsPerSecond = s" "cmod (env_now env) kMicroSecondsPerSecond = env_now env mod 1000000"
    using assms by (simp_all add: cdiv_pos kMicroSecondsPerSecond_def env_ok_def s_def)
  have "0 < s" using assms(1) by (simp add: env_ok_def s_def pos_imp_zdiv_pos_iff)
  with assms(2) have th': "thread_ok env th'" "t_time th' = time_text (env_localtime_r env s)"
    by (auto simp: thread_ok_def th'_def)
  have len: "length (time_text (env_localtime_r env s)) = 17" using assms(1) by (simp add: env_ok_def s_def)
  have "length (pad0 6 (env_now env mod 1000000)) = 6" by (intro pad0_length) simp_all
  then have fmt: "Fmt_ctor (''.'' @ pad0 6 (env_now env mod 1000000) @ '' '') = Some (frac_text (env_now env))"
      and flen: "length (frac_text (env_now env)) = 8"
    by (simp_all add: Fmt_ctor_def snprintf_fits frac_text_def)
  have "(if s \<noteq> t_lastSecond th then do {
         let t = time_text (env_localtime_r env s);
         assert_that (length t = 17);
         Some (th\<lparr>t_lastSecond := s, t_time := snprintf 64 t\<rparr>) } else Some th) = Some th'"
    using len by (simp add: th'_def snprintf_fits)
  then have "formatTime (env_localtime_r env) th l =
      (log_ops [LogString (time_text (env_localtime_r env s))] l \<bind> log_ops [LogString (frac_text (env_now env))])
        \<bind> (\<lambda>l. Some (th', l))"
    unfolding formatTime_def assms(3) div Let_def
    using fmt by (simp add: put_T_ops len flen th'(2) Option.bind_assoc)
  then show ?thesis using th'(1) by (auto simp: log_ops_comp s_def)
qed

definition header_ops :: "log_env \<Rightarrow> log_level \<Rightarrow> log_op list" where
  "header_ops env level =
     [LogString (time_text (env_localtime_r env (env_now env div 1000000))), LogString (frac_text (env_now env)),
      LogString (tid_text env), LogString (LogLevelName level)]"

lemma current_tid_cached:
  assumes "env_ok env" "thread_ok env th"
  shows "let th' = snd (current_tid (env_gettid env) th) in
     thread_ok env th' \<and> t_tidString th' = tid_text env \<and> t_tidStringLength th' = length (tid_text env)"
  using assms tid_text_length [OF assms(1)]
  by (auto simp: thread_ok_def current_tid_def cacheTid_def Let_def tid_text_def snprintf_fits)

definition errno_ops :: "log_env \<Rightarrow> int \<Rightarrow> log_op list" where
  "errno_ops env savedErrno = (if savedErrno = 0 then [] else
     [LogCStr (Some (env_strerror env savedErrno)), LogCStr (Some '' (errno=''), LogInt TInt savedErrno, LogCStr (Some '')'')])"

lemma log_ops_Nil: "log_ops [] = Some"
  by (simp add: log_ops_def fun_eq_iff)

lemma Impl_ctor_ops:
  assumes "env_ok env" "thread_ok env th"
  shows "\<exists>th'. thread_ok env th' \<and> Impl_ctor env level savedErrno file line th =
     log_ops (header_ops env level @ errno_ops env savedErrno) \<lparr>lg_time = env_now env, lg_stream = FixedBuffer_ctor (env_raw env), lg_level = level,
       lg_line = line, lg_basename = file\<rparr> \<bind> (\<lambda>l. Some (th', l))"
proof -
  let ?l = "\<lparr>lg_time = env_now env, lg_stream = FixedBuffer_ctor (env_raw env), lg_level = level,
       lg_line = line, lg_basename = file\<rparr>"
  obtain th1 where th1: "thread_ok env th1" "formatTime (env_localtime_r env) th ?l =
      log_ops [LogString (time_text (env_localtime_r env (env_now env div 1000000))), LogString (frac_text (env_now env))] ?l
       \<bind> (\<lambda>l. Some (th1, l))"
    using formatTime_ops [OF assms, of ?l] by auto
  define th2 where "th2 = snd (current_tid (env_gettid env) th1)"
  have th2: "thread_ok env th2" "t_tidString th2 = tid_text env" "t_tidStringLength th2 = length (tid_text env)"
    using current_tid_cached [OF assms(1) th1(1)] by (simp_all add: Let_def th2_def)
  have "Impl_ctor env level savedErrno file line th =
      (((log_ops [LogString (time_text (env_localtime_r env (env_now env div 1000000))), LogString (frac_text (env_now env))] ?l
        \<bind> log_ops [LogString (tid_text env)]) \<bind> log_ops [LogString (LogLevelName level)]) \<bind> log_ops (errno_ops env savedErrno))
        \<bind> (\<lambda>l. Some (th2, l))"
    by (simp add: Impl_ctor_def th1(2) Option.bind_assoc put_T_ops level_names th2 errno_ops_def log_ops_Nil flip: th2_def)
  also have "\<dots> = log_ops (header_ops env level @ errno_ops env savedErrno) ?l \<bind> (\<lambda>l. Some (th2, l))"
    unfolding log_ops_comp header_ops_def append_Cons append_Nil ..
  finally show ?thesis using th2(1) by blast
qed

definition footer_ops :: "string \<Rightarrow> int \<Rightarrow> log_op list" where
  "footer_ops file line = [LogCStr (Some '' - ''), LogString file, LogChar CHR '':'', LogInt TInt line, LogChar (CHR 0x0A)]"

fun macro_level :: "log_macro \<Rightarrow> log_level" where
  "macro_level LOG_TRACE = TRACE" | "macro_level LOG_DEBUG = DEBUG" | "macro_level LOG_INFO = INFO" | "macro_level LOG_WARN = WARN"
| "macro_level LOG_ERROR = ERROR" | "macro_level LOG_FATAL = FATAL" | "macro_level LOG_SYSERR = ERROR" | "macro_level LOG_SYSFATAL = FATAL"

text \<open>What a macro puts before its operands: the name of the function, or the text of the error.\<close>

definition macro_ops :: "log_env \<Rightarrow> 'a log_site_scheme \<Rightarrow> log_op list" where
  "macro_ops env st = (case ls_macro st of
       LOG_TRACE \<Rightarrow> [LogCStr (Some (ls_func st)), LogChar CHR '' '']
     | LOG_DEBUG \<Rightarrow> [LogCStr (Some (ls_func st)), LogChar CHR '' '']
     | LOG_SYSERR \<Rightarrow> errno_ops env (ls_errno st)
     | LOG_SYSFATAL \<Rightarrow> errno_ops env (ls_errno st)
     | _ \<Rightarrow> [])"

lemma macro_logger_ops:
  assumes "env_ok env" "thread_ok env th"
  shows "\<exists>th'. thread_ok env th' \<and> macro_logger env st th =
     log_ops (header_ops env (macro_level (ls_macro st)) @ macro_ops env st)
       \<lparr>lg_time = env_now env, lg_stream = FixedBuffer_ctor (env_raw env), lg_level = macro_level (ls_macro st),
        lg_line = ls_line st, lg_basename = SourceFile_ctor (ls_file st)\<rparr> \<bind> (\<lambda>l. Some (th', l))"
proof -
  let ?e = "if ls_macro st = LOG_SYSERR \<or> ls_macro st = LOG_SYSFATAL then ls_errno st else 0"
  let ?l = "\<lparr>lg_time = env_now env, lg_stream = FixedBuffer_ctor (env_raw env), lg_level = macro_level (ls_macro st),
        lg_line = ls_line st, lg_basename = SourceFile_ctor (ls_file st)\<rparr>"
  obtain th' where "thread_ok env th'" "Impl_ctor env (macro_level (ls_macro st)) ?e (SourceFile_ctor (ls_file st)) (ls_line st) th =
      log_ops (header_ops env (macro_level (ls_macro st)) @ errno_ops env ?e) ?l \<bind> (\<lambda>l. Some (th', l))"
    using Impl_ctor_ops [OF assms] by blast
  then show ?thesis
    by (cases "ls_macro st") (auto simp: macro_logger_def Logger_func_def Logger_line_def Logger_level_def Logger_abort_def Let_def
        macro_ops_def errno_ops_def Option.bind_assoc log_ops_comp [symmetric] intro!: exI [of _ th'])
qed

definition log_line :: "log_env \<Rightarrow> 'a log_site_scheme \<Rightarrow> string" where
  "log_line env st = time_text (env_localtime_r env (env_now env div 1000000)) @ frac_text (env_now env) @ tid_text env @
     LogLevelName (macro_level (ls_macro st)) @ concat (map log_text (macro_ops env st @ ls_ops st)) @ '' - '' @
     SourceFile_ctor (ls_file st) @ '':'' @ dec_int (ls_line st) @ [CHR 0x0A]"

definition site_ok :: "log_env \<Rightarrow> 'a log_site_scheme \<Rightarrow> bool" where
  "site_ok env st \<longleftrightarrow> list_all log_ok (macro_ops env st @ ls_ops st) \<and> 0 \<le> ls_line st \<and> ls_line st < 2 ^ 31 \<and>
     length (concat (map log_text (macro_ops env st @ ls_ops st))) + length (SourceFile_ctor (ls_file st)) \<le> 3800"

text \<open>The operators of a whole statement, on the stream of its logger.\<close>

lemma statement_ops:
  assumes "env_ok env" "site_ok env st"
  shows "\<exists>b. exec_logs (header_ops env (macro_level (ls_macro st)) @ macro_ops env st @ ls_ops st @
      footer_ops (SourceFile_ctor (ls_file st)) (ls_line st)) (FixedBuffer_ctor (env_raw env)) = Some b \<and> fb_toString b = log_line env st"
proof -
  let ?ops = "header_ops env (macro_level (ls_macro st)) @ macro_ops env st @ ls_ops st @ footer_ops (SourceFile_ctor (ls_file st)) (ls_line st)"
  let ?b = "FixedBuffer_ctor (env_raw env)"
  have ok: "fb_ok kSmallBuffer ?b" "fb_toString ?b = ''''"
    using assms(1) by (simp_all add: env_ok_def fb_ok_def FixedBuffer_ctor_def kSmallBuffer_def fb_toString_def fb_length_def slice_def)
  have opsok: "\<forall>x \<in> set ?ops. log_ok x"
    using assms(2) by (auto simp: header_ops_def footer_ops_def in_int_type_def site_ok_def list_all_iff)
  obtain b where b: "exec_logs ?ops ?b = Some b" "fb_toString b = log_spec kSmallBuffer ?ops ''''"
    using exec_logs_spec [OF ok(1) opsok] ok(2) by auto
  have "length (dec_int (ls_line st)) \<le> 10" using assms(2) by (intro dec_int_length) (simp_all add: site_ok_def)
  moreover have "length (frac_text (env_now env)) = 8" by (simp add: frac_text_def pad0_length)
  ultimately have "length (concat (map log_text ?ops)) + 32 \<le> kSmallBuffer"
    using assms tid_text_length [OF assms(1)]
    by (simp add: header_ops_def footer_ops_def level_names env_ok_def kSmallBuffer_def site_ok_def)
  then have "fb_toString b = concat (map log_text ?ops)" using log_spec_fits [OF opsok, of "''''" kSmallBuffer] b(2) by simp
  then show ?thesis using b(1) by (simp add: log_line_def header_ops_def footer_ops_def)
qed

text \<open>
  Every \<open>LOG_\<close> statement of a thread that is not below the level gives one complete line: the local time of the
  statement to the second (right even when it comes from the thread's cache), the microseconds in
  six digits, the thread id, the level, what the macro adds, the operands, the source file without its directories and the line number, and
  a newline. It goes to the output function that is set; the caches stay right for the next statement, and the process is flushed
  and aborted exactly at level \<open>FATAL\<close>. This holds for messages of up to 3800 characters.
\<close>

lemma log_statement_text:
  assumes "env_ok env" "thread_ok env th" "site_ok env st" "macro_logs (g_logLevel g) (ls_macro st)"
  shows "\<exists>th'. thread_ok env th' \<and> log_statement env st g th w =
     (let w' = g_output g (log_line env st) w in
      Some (if macro_level (ls_macro st) = FATAL then (True, th', g_flush g w') else (False, th', w')))"
proof -
  let ?l = "\<lparr>lg_time = env_now env, lg_stream = FixedBuffer_ctor (env_raw env), lg_level = macro_level (ls_macro st),
        lg_line = ls_line st, lg_basename = SourceFile_ctor (ls_file st)\<rparr>"
  let ?head = "header_ops env (macro_level (ls_macro st)) @ macro_ops env st"
  let ?foot = "footer_ops (SourceFile_ctor (ls_file st)) (ls_line st)"
  obtain th' where th': "thread_ok env th'" "macro_logger env st th = log_ops ?head ?l \<bind> (\<lambda>l. Some (th', l))"
    using macro_logger_ops [OF assms(1,2)] by blast
  obtain b where b: "exec_logs (?head @ ls_ops st @ ?foot) (lg_stream ?l) = Some b" "fb_toString b = log_line env st"
    using statement_ops [OF assms(1,3)] by auto
  then have "log_ops (?head @ ls_ops st @ ?foot) ?l = Some (?l\<lparr>lg_stream := b\<rparr>)" by (simp add: log_ops_def)
  then obtain l1 l2 where l1: "log_ops ?head ?l = Some l1" and l2: "log_ops (ls_ops st) l1 = Some l2"
      and l3: "log_ops ?foot l2 = Some (?l\<lparr>lg_stream := b\<rparr>)"
    unfolding log_ops_comp [symmetric] by (auto simp: bind_eq_Some_conv)
  have "lg_basename l2 = SourceFile_ctor (ls_file st)" "lg_line l2 = ls_line st"
    using l1 l2 by (auto simp: log_ops_def bind_eq_Some_conv)
  then have "Logger_finish l2 = Some (?l\<lparr>lg_stream := b\<rparr>)" using l3 by (simp add: Logger_finish_def footer_ops_def)
  then have "Logger_dtor g l2 w = (let w' = g_output g (log_line env st) w in
      Some (if macro_level (ls_macro st) = FATAL then (True, g_flush g w') else (False, w')))"
    using b(2) by (simp add: Logger_dtor_def fb_toString_def Let_def)
  then show ?thesis using th' assms(4) l1 l2 by (auto simp: log_statement_def Let_def)
qed

definition demo_env :: log_env where
  "demo_env = \<lparr>env_now = 1700000000000042, env_gettid = 4711,
     env_localtime_r = (\<lambda>s. \<lparr>tm_year = 123, tm_mon = 10, tm_mday = 14, tm_hour = 22, tm_min = 13, tm_sec = 20\<rparr>),
     env_strerror = (\<lambda>e. ''''), env_raw = replicate 4000 CHR ''?''\<rparr>"

lemmas print_digits = dec_int_def dec_nat.simps digit_char_def char_of_def bit_iff_odd pad0_def pad_blank_def

lemma demo_time: "time_text (env_localtime_r demo_env s) = ''20231114 22:13:20''"
  by (simp add: time_text_def demo_env_def print_digits)

lemma demo_frac: "frac_text (env_now demo_env) = ''.000042 ''"
  by code_simp

lemma demo_tid: "tid_text demo_env = ''  4711 ''"
  by code_simp

end
