(* ===== verification/AsyncLogging.thy ===== *)
theory AsyncLogging
  imports FileUtil LogStream
begin

text \<open>
  \<open>tmuduo/base/AsyncLogging.h\<close> and \<open>AsyncLogging.cc\<close>: the asynchronous back end. Front-end
  threads append lines under the mutex; the logging thread swaps the buffers under the mutex and
  then writes them to a \<open>LogFile\<close> without holding it, so that each turn of its loop is two
  atomic steps, \<open>thread_swap\<close> and \<open>thread_write\<close>, between which appends may happen. The
  local variables of \<open>threadFunc\<close> are part of the state. An owning pointer is an option, null
  after a move. \<open>raw\<close> is the (uninitialised) memory of a new buffer.
\<close>

record async_logging =
  al_running :: bool
  al_current :: "fixed_buffer option"
  al_next :: "fixed_buffer option"
  al_buffers :: "fixed_buffer list"
  al_newBuffer1 :: "fixed_buffer option"
  al_newBuffer2 :: "fixed_buffer option"
  al_toWrite :: "fixed_buffer list"

definition AsyncLogging_ctor :: "bytes \<Rightarrow> async_logging" where
  "AsyncLogging_ctor raw = \<lparr>al_running = False, al_current = Some (fb_bzero (FixedBuffer_ctor raw)),
     al_next = Some (fb_bzero (FixedBuffer_ctor raw)), al_buffers = [], al_newBuffer1 = None, al_newBuffer2 = None,
     al_toWrite = []\<rparr>"

definition AsyncLogging_append :: "bytes \<Rightarrow> bytes \<Rightarrow> async_logging \<Rightarrow> async_logging option" where
  "AsyncLogging_append raw logline s = do {
     b \<leftarrow> al_current s;
     if fb_avail b > int (length logline) then do {
       b \<leftarrow> FixedBuffer_append logline b;
       Some (s\<lparr>al_current := Some b\<rparr>) }
     else do {
       let s = s\<lparr>al_buffers := al_buffers s @ [b], al_current := None\<rparr>;
       let c = (case al_next s of Some n \<Rightarrow> n | None \<Rightarrow> FixedBuffer_ctor raw);
       let s = s\<lparr>al_next := None\<rparr>;
       c \<leftarrow> FixedBuffer_append logline c;
       Some (s\<lparr>al_current := Some c\<rparr>) } }"

text \<open>\<open>start\<close>, and \<open>threadFunc\<close> up to its loop, with the log file it opens.\<close>

definition thread_begin :: "file_env \<Rightarrow> bytes \<Rightarrow> string \<Rightarrow> int \<Rightarrow> async_logging \<Rightarrow> (log_file \<times> async_logging) option" where
  "thread_begin env raw basename rollSize s = do {
     let s = s\<lparr>al_running := True\<rparr>;
     assert_that (al_running s);
     output \<leftarrow> LogFile_ctor env basename rollSize 3 1024;
     let newBuffer1 = fb_bzero (FixedBuffer_ctor raw);
     let newBuffer2 = fb_bzero (FixedBuffer_ctor raw);
     Some (output, s\<lparr>al_newBuffer1 := Some newBuffer1, al_newBuffer2 := Some newBuffer2, al_toWrite := []\<rparr>) }"

definition is_empty_buffer :: "fixed_buffer option \<Rightarrow> bool" where
  "is_empty_buffer p \<longleftrightarrow> (case p of None \<Rightarrow> False | Some b \<Rightarrow> fb_length b = 0)"

definition thread_swap :: "async_logging \<Rightarrow> async_logging option" where
  "thread_swap s = do {
     assert_that (is_empty_buffer (al_newBuffer1 s));
     assert_that (is_empty_buffer (al_newBuffer2 s));
     assert_that (al_toWrite s = []);
     b \<leftarrow> al_current s;
     let s = s\<lparr>al_buffers := al_buffers s @ [b]\<rparr>;
     let s = s\<lparr>al_current := al_newBuffer1 s, al_newBuffer1 := None\<rparr>;
     let s = s\<lparr>al_toWrite := al_buffers s, al_buffers := []\<rparr>;
     Some (if al_next s = None then s\<lparr>al_next := al_newBuffer2 s, al_newBuffer2 := None\<rparr> else s) }"

definition dropped_text :: "string \<Rightarrow> nat \<Rightarrow> string" where
  "dropped_text now n = snprintf 256 (''Dropped log messages at '' @ now @ '', '' @ dec_nat n @ '' larger buffers'' @ [CHR 0x0A])"

primrec write_buffers :: "file_env \<Rightarrow> fixed_buffer list \<Rightarrow> log_file \<Rightarrow> log_file option" where
  "write_buffers env [] output = Some output"
| "write_buffers env (b # bs) output = do {
     output \<leftarrow> LogFile_append env (slice 0 (fb_length b) (fb_data b)) output;
     write_buffers env bs output }"

definition take_back :: "fixed_buffer option \<Rightarrow> fixed_buffer list \<Rightarrow> (fixed_buffer option \<times> fixed_buffer list) option" where
  "take_back p bs =
     (if p = None then do {
        assert_that (bs \<noteq> []);
        Some (Some (fb_reset (last bs)), butlast bs) }
      else Some (p, bs))"

definition thread_write :: "file_env \<Rightarrow> string \<Rightarrow> log_file \<times> async_logging \<Rightarrow> (log_file \<times> async_logging) option" where
  "thread_write env now st = do {
     let (output, s) = st;
     assert_that (al_toWrite s \<noteq> []);
     (output, bufs) \<leftarrow> (if length (al_toWrite s) > 25 then do {
         let buf = dropped_text now (length (al_toWrite s) - 2);
         output \<leftarrow> LogFile_append env buf output;
         Some (output, take 2 (al_toWrite s)) }
       else Some (output, al_toWrite s));
     output \<leftarrow> write_buffers env bufs output;
     let bufs = (if length bufs > 2 then take 2 bufs else bufs);
     (n1, bufs) \<leftarrow> take_back (al_newBuffer1 s) bufs;
     (n2, bufs) \<leftarrow> take_back (al_newBuffer2 s) bufs;
     output \<leftarrow> LogFile_flush output;
     Some (output, s\<lparr>al_newBuffer1 := n1, al_newBuffer2 := n2, al_toWrite := []\<rparr>) }"

definition AsyncLogging_stop :: "async_logging \<Rightarrow> async_logging" where
  "AsyncLogging_stop s = (if al_running s then s\<lparr>al_running := False\<rparr> else s)"

definition AsyncLogging_dtor :: "async_logging \<Rightarrow> async_logging" where
  "AsyncLogging_dtor s = (if al_running s then AsyncLogging_stop s else s)"

text \<open>The loop ends at its condition; the destructor of the output is then run.\<close>

definition thread_end :: "log_file \<Rightarrow> log_file option" where
  "thread_end output = LogFile_flush output"

subsection \<open>Interleavings\<close>

datatype al_event = AppendLine bytes | Swap | Write string

fun exec_al :: "file_env \<Rightarrow> bytes \<Rightarrow> al_event \<Rightarrow> log_file \<times> async_logging \<Rightarrow> (log_file \<times> async_logging) option" where
  "exec_al env raw (AppendLine l) (out, s) = do { s \<leftarrow> AsyncLogging_append raw l s; Some (out, s) }"
| "exec_al env raw Swap (out, s) = do { s \<leftarrow> thread_swap s; Some (out, s) }"
| "exec_al env raw (Write now) (out, s) = thread_write env now (out, s)"

primrec exec_als :: "file_env \<Rightarrow> bytes \<Rightarrow> al_event list \<Rightarrow> log_file \<times> async_logging \<Rightarrow> (log_file \<times> async_logging) option" where
  "exec_als env raw [] st = Some st"
| "exec_als env raw (e # es) st = exec_al env raw e st \<bind> exec_als env raw es"

text \<open>The logging thread alternates: a swap, then a write.\<close>

fun alternates :: "bool \<Rightarrow> al_event list \<Rightarrow> bool" where
  "alternates w [] \<longleftrightarrow> True"
| "alternates w (AppendLine l # es) \<longleftrightarrow> alternates w es"
| "alternates w (Swap # es) \<longleftrightarrow> \<not> w \<and> alternates True es"
| "alternates w (Write now # es) \<longleftrightarrow> w \<and> alternates False es"

fun lines_of :: "al_event list \<Rightarrow> bytes list" where
  "lines_of [] = []"
| "lines_of (AppendLine l # es) = l # lines_of es"
| "lines_of (_ # es) = lines_of es"

text \<open>
  The text the buffers in memory hold: first what is being written, then what the front end
  collected.
\<close>

definition texts :: "fixed_buffer list \<Rightarrow> bytes" where
  "texts bs = concat (map fb_toString bs)"

definition pending_text :: "async_logging \<Rightarrow> bytes" where
  "pending_text s = texts (al_toWrite s @ al_buffers s @ (case al_current s of None \<Rightarrow> [] | Some b \<Rightarrow> [b]))"

text \<open>
  The invariant, \<open>w\<close> telling that a swap has happened whose buffers are not written yet. Once the
  front end has used its spare buffer it has also filled one, so that the thread always gets back
  enough buffers to refill both of its own.
\<close>

definition al_inv :: "nat \<Rightarrow> bool \<Rightarrow> async_logging \<Rightarrow> bool" where
  "al_inv N w s \<longleftrightarrow>
     (\<exists>b. al_current s = Some b \<and> fb_ok N b) \<and>
     (\<forall>b \<in> set_option (al_next s) \<union> set_option (al_newBuffer1 s) \<union> set_option (al_newBuffer2 s). fb_ok N b \<and> fb_cur b = 0) \<and>
     (\<forall>b \<in> set (al_buffers s @ al_toWrite s). fb_ok N b) \<and>
     (if w then al_newBuffer1 s = None \<and> (if al_newBuffer2 s = None then 2 else 1) \<le> length (al_toWrite s)
      else al_newBuffer1 s \<noteq> None \<and> al_newBuffer2 s \<noteq> None \<and> al_toWrite s = []) \<and>
     (al_next s = None \<longrightarrow> al_buffers s \<noteq> [])"

lemma fb_avail_ok: "fb_ok N b \<Longrightarrow> fb_avail b = int (N - fb_cur b)"
  by (auto simp: fb_ok_def fb_avail_def)

lemma fb_reset_ok: "fb_ok N b \<Longrightarrow> fb_ok N (fb_reset b) \<and> fb_cur (fb_reset b) = 0"
  by (auto simp: fb_ok_def fb_reset_def)

lemma fb_empty_text: "fb_cur b = 0 \<Longrightarrow> fb_toString b = []"
  by (simp add: fb_toString_def fb_length_def slice_def)

lemma append_fits:
  assumes "fb_ok N b" "length l < N - fb_cur b"
  shows "\<exists>b'. FixedBuffer_append l b = Some b' \<and> fb_ok N b' \<and> fb_toString b' = fb_toString b @ l"
  using FixedBuffer_append_spec [OF assms(1), of l] assms(2) fb_toString_length [OF assms(1)]
  by (auto simp: spec_append_def)

lemma append_inv:
  assumes "al_inv N w s" "length l < N" "length raw = N"
  shows "\<exists>s'. AsyncLogging_append raw l s = Some s' \<and> al_inv N w s' \<and> pending_text s' = pending_text s @ l"
proof -
  obtain b where b: "al_current s = Some b" "fb_ok N b" using assms(1) by (auto simp: al_inv_def)
  show ?thesis
  proof (cases "fb_avail b > int (length l)")
    case True
    then obtain b' where "FixedBuffer_append l b = Some b'" "fb_ok N b'" "fb_toString b' = fb_toString b @ l"
      using append_fits [OF b(2)] fb_avail_ok [OF b(2)] by auto
    with True b assms(1) show ?thesis by (auto simp: AsyncLogging_append_def al_inv_def pending_text_def texts_def)
  next
    case False
    define c where "c = (case al_next s of Some n \<Rightarrow> n | None \<Rightarrow> FixedBuffer_ctor raw)"
    have c: "fb_ok N c" "fb_cur c = 0"
      using assms b(2) by (auto simp: c_def al_inv_def FixedBuffer_ctor_def fb_ok_def split: option.splits)
    obtain c' where "FixedBuffer_append l c = Some c'" "fb_ok N c'" "fb_toString c' = l"
      using append_fits [OF c(1), of l] c(2) assms(2) fb_empty_text by auto
    with False b assms(1) show ?thesis
      by (auto simp: AsyncLogging_append_def al_inv_def pending_text_def texts_def simp flip: c_def)
  qed
qed

lemma swap_inv:
  assumes "al_inv N False s"
  shows "\<exists>s'. thread_swap s = Some s' \<and> al_inv N True s' \<and> pending_text s' = pending_text s"
proof -
  obtain b n1 n2 where "al_current s = Some b" "al_newBuffer1 s = Some n1" "al_newBuffer2 s = Some n2"
    using assms by (auto simp: al_inv_def)
  with assms show ?thesis
    by (cases "al_next s") (auto simp: thread_swap_def al_inv_def is_empty_buffer_def pending_text_def texts_def fb_length_def
        fb_empty_text Suc_le_eq)
qed

lemma write_buffers_stream:
  assumes "files_open env" "lf_inv env out"
  shows "\<exists>out'. write_buffers env bs out = Some out' \<and> lf_inv env out' \<and>
    (fwrite_progress env \<longrightarrow> lf_stream out' = lf_stream out @ texts bs)"
  using assms(2)
proof (induction bs arbitrary: out)
  case (Cons b bs)
  obtain o1 where o1: "LogFile_append env (slice 0 (fb_length b) (fb_data b)) out = Some o1" "lf_inv env o1"
      "fwrite_progress env \<longrightarrow> lf_stream o1 = lf_stream out @ fb_toString b"
    using LogFile_append_stream [OF assms(1) Cons.prems] by (metis fb_toString_def)
  from Cons.IH [OF o1(2)] o1(1,3) show ?case by (auto simp: texts_def)
qed (simp add: texts_def)

lemma LogFile_flush_inv: "lf_inv env lf \<Longrightarrow> \<exists>lf'. LogFile_flush lf = Some lf' \<and> lf_inv env lf' \<and> lf_stream lf' = lf_stream lf"
  by (auto simp: LogFile_flush_def lf_inv_def lf_stream_def)

definition kept :: "fixed_buffer list \<Rightarrow> fixed_buffer list" where
  "kept bs = (if length bs > 25 then take 2 bs else bs)"

definition notice :: "string \<Rightarrow> fixed_buffer list \<Rightarrow> bytes" where
  "notice now bs = (if length bs > 25 then dropped_text now (length bs - 2) else [])"

lemma take_back_inv:
  assumes "\<forall>b \<in> set bs. fb_ok N b" "\<forall>b \<in> set_option p. fb_ok N b \<and> fb_cur b = 0" "p = None \<Longrightarrow> bs \<noteq> []"
  shows "\<exists>q. take_back p bs = Some (Some q, if p = None then butlast bs else bs) \<and> fb_ok N q \<and> fb_cur q = 0"
  using assms fb_reset_ok [of N "last bs"] by (cases p) (auto simp: take_back_def)

lemma kept_length: "(n \<le> length bs \<Longrightarrow> n \<le> 2 \<Longrightarrow> n \<le> length (kept bs))" "set (kept bs) \<subseteq> set bs"
  using set_take_subset [of 2 bs] by (auto simp: kept_def)

lemma notice_written:
  assumes "files_open env" "lf_inv env out"
  shows "\<exists>o1. (if length bs > 25 then do {
         let buf = dropped_text now (length bs - 2);
         output \<leftarrow> LogFile_append env buf out;
         Some (output, take 2 bs) }
       else Some (out, bs)) = Some (o1, kept bs) \<and> lf_inv env o1 \<and>
      (fwrite_progress env \<longrightarrow> lf_stream o1 = lf_stream out @ notice now bs)"
proof (cases "length bs > 25")
  case True
  then show ?thesis
    using LogFile_append_stream [OF assms, of "dropped_text now (length bs - 2)"] by (auto simp: kept_def notice_def)
qed (use assms(2) in \<open>simp add: kept_def notice_def\<close>)

lemma thread_write_inv:
  assumes "files_open env" "lf_inv env out" "al_inv N True s"
  shows "\<exists>out' s'. thread_write env now (out, s) = Some (out', s') \<and> lf_inv env out' \<and> al_inv N False s' \<and>
     al_buffers s' = al_buffers s \<and> al_current s' = al_current s \<and>
     (fwrite_progress env \<longrightarrow> lf_stream out' = lf_stream out @ notice now (al_toWrite s) @ texts (kept (al_toWrite s)))"
proof -
  let ?bs = "kept (al_toWrite s)"
  have lens: "al_newBuffer1 s = None" "(if al_newBuffer2 s = None then 2 else 1) \<le> length (al_toWrite s)"
    using assms(3) by (auto simp: al_inv_def split: if_splits)
  then have ne: "al_toWrite s \<noteq> []" by (auto split: if_splits)
  obtain o1 where o1: "(if length (al_toWrite s) > 25 then do {
         let buf = dropped_text now (length (al_toWrite s) - 2);
         output \<leftarrow> LogFile_append env buf out;
         Some (output, take 2 (al_toWrite s)) }
       else Some (out, al_toWrite s)) = Some (o1, ?bs)" "lf_inv env o1"
      "fwrite_progress env \<longrightarrow> lf_stream o1 = lf_stream out @ notice now (al_toWrite s)"
    using notice_written [OF assms(1,2)] by blast
  obtain o2 where o2: "write_buffers env ?bs o1 = Some o2" "lf_inv env o2"
      "fwrite_progress env \<longrightarrow> lf_stream o2 = lf_stream o1 @ texts ?bs"
    using write_buffers_stream [OF assms(1) o1(2)] by blast
  define cs where "cs = (if length ?bs > 2 then take 2 ?bs else ?bs)"
  have cs: "(if al_newBuffer2 s = None then 2 else 1) \<le> length cs" "\<forall>b \<in> set cs. fb_ok N b"
    using kept_length(1) [of "if al_newBuffer2 s = None then 2 else 1" "al_toWrite s"] kept_length(2) [of "al_toWrite s"] lens(2) assms(3) set_take_subset [of 2 ?bs]
    by (auto simp: cs_def al_inv_def split: if_splits)
  have csne: "cs \<noteq> []" using cs(1) by (auto split: if_splits)
  obtain n1 where n1: "take_back (al_newBuffer1 s) cs = Some (Some n1, butlast cs)" "fb_ok N n1" "fb_cur n1 = 0"
    using take_back_inv [of cs N "al_newBuffer1 s"] cs(2) csne lens(1) by auto
  have "\<forall>b \<in> set (butlast cs). fb_ok N b" using cs(2) by (auto dest: in_set_butlastD)
  moreover have "al_newBuffer2 s = None \<Longrightarrow> butlast cs \<noteq> []" using cs(1) by (cases cs) auto
  ultimately obtain n2 ds where n2: "take_back (al_newBuffer2 s) (butlast cs) = Some (Some n2, ds)" "fb_ok N n2" "fb_cur n2 = 0"
    using take_back_inv [of "butlast cs" N "al_newBuffer2 s"] assms(3) by (auto simp: al_inv_def)
  obtain o3 where o3: "LogFile_flush o2 = Some o3" "lf_inv env o3" "lf_stream o3 = lf_stream o2"
    using LogFile_flush_inv [OF o2(2)] by blast
  have "thread_write env now (out, s) = Some (o3, s\<lparr>al_newBuffer1 := Some n1, al_newBuffer2 := Some n2, al_toWrite := []\<rparr>)"
    using ne o1(1) o2(1) n1(1) n2(1) o3(1) by (simp add: thread_write_def assert_that_bind_True cs_def Let_def)
  moreover have "al_inv N False (s\<lparr>al_newBuffer1 := Some n1, al_newBuffer2 := Some n2, al_toWrite := []\<rparr>)"
    using assms(3) n1 n2 by (auto simp: al_inv_def)
  ultimately show ?thesis using o1(3) o2(3) o3(2,3) by auto
qed

text \<open>No swap hands over more than 25 buffers, the limit above which the thread drops the rest.\<close>

fun within_limit :: "file_env \<Rightarrow> bytes \<Rightarrow> al_event list \<Rightarrow> log_file \<times> async_logging \<Rightarrow> bool" where
  "within_limit env raw [] st \<longleftrightarrow> True"
| "within_limit env raw (e # es) st \<longleftrightarrow>
     (case e of Write now \<Rightarrow> length (al_toWrite (snd st)) \<le> 25 | _ \<Rightarrow> True) \<and>
     (case exec_al env raw e st of None \<Rightarrow> True | Some st' \<Rightarrow> within_limit env raw es st')"

definition al_text :: "log_file \<times> async_logging \<Rightarrow> bytes" where
  "al_text st = lf_stream (fst st) @ pending_text (snd st)"

lemma exec_al_inv:
  assumes "files_open env" "length raw = N" "lf_inv env (fst st)" "al_inv N w (snd st)"
    "alternates w (e # es)" "\<forall>l \<in> set (lines_of [e]). length l < N"
  shows "\<exists>st' w'. exec_al env raw e st = Some st' \<and> lf_inv env (fst st') \<and> al_inv N w' (snd st') \<and> alternates w' es \<and>
     (fwrite_progress env \<and> within_limit env raw [e] st \<longrightarrow> al_text st' = al_text st @ concat (lines_of [e]))"
proof (cases st)
  case (Pair out s)
  show ?thesis
  proof (cases e)
    case (AppendLine l)
    then obtain s' where "AsyncLogging_append raw l s = Some s'" "al_inv N w s'" "pending_text s' = pending_text s @ l"
      using append_inv [of N w s l raw] assms Pair by auto
    with AppendLine Pair assms show ?thesis by (auto simp: al_text_def)
  next
    case Swap
    then obtain s' where "thread_swap s = Some s'" "al_inv N True s'" "pending_text s' = pending_text s"
      using swap_inv [of N s] assms Pair by auto
    with Swap Pair assms show ?thesis by (auto simp: al_text_def)
  next
    case (Write now)
    then have "w" "alternates False es" using assms(5) by auto
    then obtain out' s' where s': "thread_write env now (out, s) = Some (out', s')" "lf_inv env out'" "al_inv N False s'"
        "al_buffers s' = al_buffers s" "al_current s' = al_current s"
        "fwrite_progress env \<longrightarrow> lf_stream out' = lf_stream out @ notice now (al_toWrite s) @ texts (kept (al_toWrite s))"
      using thread_write_inv [of env out N s now] assms Pair by auto
    moreover have "al_toWrite s' = []" using s'(3) by (simp add: al_inv_def)
    ultimately have "fwrite_progress env \<and> within_limit env raw [e] st \<longrightarrow> al_text (out', s') = al_text st"
      using Write Pair by (auto simp: al_text_def pending_text_def texts_def kept_def notice_def)
    with s' \<open>alternates False es\<close> Write Pair show ?thesis by fastforce
  qed
qed

lemma lines_of_Cons: "lines_of (e # es) = lines_of [e] @ lines_of es"
  by (cases e) simp_all

lemma exec_als_inv:
  assumes "files_open env" "length raw = N" "lf_inv env (fst st)" "al_inv N w (snd st)"
    "alternates w es" "\<forall>l \<in> set (lines_of es). length l < N"
  shows "\<exists>st' w'. exec_als env raw es st = Some st' \<and> lf_inv env (fst st') \<and> al_inv N w' (snd st') \<and>
     (fwrite_progress env \<and> within_limit env raw es st \<longrightarrow> al_text st' = al_text st @ concat (lines_of es))"
  using assms(3-)
proof (induction es arbitrary: st w)
  case (Cons e es)
  have len: "\<forall>l \<in> set (lines_of [e]). length l < N" "\<forall>l \<in> set (lines_of es). length l < N"
    using Cons.prems(4) lines_of_Cons [of e es] by auto
  obtain st1 w1 where st1: "exec_al env raw e st = Some st1" "lf_inv env (fst st1)" "al_inv N w1 (snd st1)" "alternates w1 es"
      "fwrite_progress env \<and> within_limit env raw [e] st \<longrightarrow> al_text st1 = al_text st @ concat (lines_of [e])"
    using exec_al_inv [OF assms(1,2) Cons.prems(1,2,3) len(1)] by blast
  obtain st2 w2 where st2: "exec_als env raw es st1 = Some st2" "lf_inv env (fst st2)" "al_inv N w2 (snd st2)"
      "fwrite_progress env \<and> within_limit env raw es st1 \<longrightarrow> al_text st2 = al_text st1 @ concat (lines_of es)"
    using Cons.IH [OF st1(2,3,4) len(2)] by blast
  have "within_limit env raw (e # es) st \<longrightarrow> within_limit env raw [e] st \<and> within_limit env raw es st1"
    using st1(1) by simp
  with st1 st2 show ?case by (subst lines_of_Cons) auto
qed auto

lemma exec_al_counts:
  assumes "exec_al env raw e st = Some st'"
  shows "length (al_buffers (snd st')) \<le> length (al_buffers (snd st)) + 1"
    "length (al_toWrite (snd st')) \<le> max (length (al_toWrite (snd st))) (length (al_buffers (snd st)) + 1)"
  using assms
  by (cases st; cases e; force simp: AsyncLogging_append_def thread_swap_def thread_write_def bind_eq_Some_conv Let_def
      split: if_splits)+

text \<open>Few events cannot fill many buffers.\<close>

lemma within_limit_short:
  "length (al_buffers (snd st)) + length es \<le> 24 \<Longrightarrow> length (al_toWrite (snd st)) \<le> 25 \<Longrightarrow> within_limit env raw es st"
proof (induction es arbitrary: st)
  case (Cons e es)
  have "within_limit env raw es st'" if "exec_al env raw e st = Some st'" for st'
    using Cons.prems exec_al_counts [OF that] by (intro Cons.IH) auto
  then show ?case using Cons.prems(2) by (auto split: al_event.splits option.splits)
qed simp

definition al_start :: "file_env \<Rightarrow> bytes \<Rightarrow> string \<Rightarrow> int \<Rightarrow> (log_file \<times> async_logging) option" where
  "al_start env raw basename rollSize = thread_begin env raw basename rollSize (AsyncLogging_ctor raw)"

lemma al_start_inv:
  assumes "length raw = kLargeBuffer" "CHR ''/'' \<notin> set basename" "0 < fe_time env 0" "files_open env"
  shows "\<exists>st. al_start env raw basename rollSize = Some st \<and> lf_inv env (fst st) \<and> al_inv kLargeBuffer False (snd st) \<and> al_text st = []"
proof -
  obtain lf where "LogFile_ctor env basename rollSize 3 1024 = Some lf" "lf_inv env lf" "lf_stream lf = []"
    using LogFile_ctor_inv [OF assms(2-4)] by blast
  with assms(1) show ?thesis
    by (auto simp: al_start_def thread_begin_def AsyncLogging_ctor_def al_inv_def fb_bzero_def FixedBuffer_ctor_def fb_ok_def
        kLargeBuffer_def al_text_def pending_text_def texts_def fb_toString_def fb_length_def slice_def)
qed

lemma async_log_run:
  assumes "files_open env" "0 < fe_time env 0" "length raw = kLargeBuffer" "CHR ''/'' \<notin> set basename"
    "alternates False es" "\<forall>l \<in> set (lines_of es). length l < kLargeBuffer"
  shows "\<exists>st out s. al_start env raw basename rollSize = Some st \<and> exec_als env raw es st = Some (out, s) \<and>
     (fwrite_progress env \<and> within_limit env raw es st \<longrightarrow> lf_stream out @ pending_text s = concat (lines_of es)) \<and>
     (\<exists>f. lf_file out = Some f \<and> (clock_runs env \<longrightarrow> int (length (af_content f)) \<le> max 0 (lf_rollSize out)))"
proof -
  obtain st where st: "al_start env raw basename rollSize = Some st" "lf_inv env (fst st)"
      "al_inv kLargeBuffer False (snd st)" "al_text st = []"
    using al_start_inv [OF assms(3,4,2,1)] by blast
  obtain st' w' where st': "exec_als env raw es st = Some st'" "lf_inv env (fst st')"
      "fwrite_progress env \<and> within_limit env raw es st \<longrightarrow> al_text st' = al_text st @ concat (lines_of es)"
    using exec_als_inv [OF assms(1,3) st(2,3) assms(5,6)] by blast
  obtain out s where "st' = (out, s)" by (cases st')
  with st st' show ?thesis by (auto simp: al_text_def lf_inv_def)
qed

text \<open>
  C10: The asynchronous logger, whose base name has no slash, when the clock is past the epoch and \<open>fopen\<close> can open every log file
  (a failure is the assertion in \<open>AppendFile\<close>, which aborts the process): it fails no assertion and never uses a moved-from buffer, for any
  interleaving of front-end appends (of lines shorter than a buffer) with the steps of the
  logging thread, whether or not the files take what is written to them. If \<open>fwrite\<close> always takes at least one byte (no write error, no full disk) and
  no swap hands over more than 25 buffers, the bytes of the log files (over all
  rolls, oldest file first) followed by the bytes still in memory are the lines, all of
  them and in the order they were appended. The file in use stays within the roll size when the clock
  advances between two of its readings.
\<close>
theorem async_log_complete:
  assumes "files_open env" "0 < fe_time env 0" "length raw = kLargeBuffer" "CHR ''/'' \<notin> set basename"
    "alternates False es" "\<forall>l \<in> set (lines_of es). length l < kLargeBuffer"
  shows "\<exists>st out s. al_start env raw basename rollSize = Some st \<and> exec_als env raw es st = Some (out, s) \<and>
     (fwrite_progress env \<and> within_limit env raw es st \<longrightarrow> lf_stream out @ pending_text s = concat (lines_of es)) \<and>
     (\<exists>f. lf_file out = Some f \<and> (clock_runs env \<longrightarrow> int (length (af_content f)) \<le> max 0 (lf_rollSize out)))"
  using async_log_run [OF assms] .

definition demo_files :: file_env where
  "demo_files = \<lparr>fe_fopen = (\<lambda>filename. True), fe_fwrite = (\<lambda>f s. (length s + 1) div 2), fe_time = (\<lambda>i. 1700000000 + int i),
     fe_strftime = (\<lambda>t. ''.20231114-221320.''), fe_gethostname = Some ''host'', fe_getpid = 42\<rparr>"

lemma demo_limit: "al_start demo_files raw ''app'' 10 = Some st \<Longrightarrow> length es \<le> 24 \<Longrightarrow> within_limit demo_files raw es st"
  by (rule within_limit_short) (auto simp: al_start_def thread_begin_def AsyncLogging_ctor_def bind_eq_Some_conv)

theorem async_log_complete_witness:
  "\<exists>st out s. al_start demo_files (replicate kLargeBuffer CHR ''?'') ''app'' 10 = Some st \<and>
     exec_als demo_files (replicate kLargeBuffer CHR ''?'')
       [AppendLine ''one'', Swap, AppendLine ''two'', Write [], AppendLine ''three'', Swap, Write []] st = Some (out, s) \<and>
     lf_stream out @ pending_text s = ''onetwothree''"
proof -
  let ?es = "[AppendLine ''one'', Swap, AppendLine ''two'', Write [], AppendLine ''three'', Swap, Write []]"
  have "files_open demo_files" "fwrite_progress demo_files" "0 < fe_time demo_files 0"
    by (simp_all add: demo_files_def fwrite_progress_def files_open_def)
  then show ?thesis
    using async_log_complete [of demo_files "replicate kLargeBuffer CHR ''?''" "''app''" ?es 10] demo_limit [of _ _ ?es]
    by (auto simp: kLargeBuffer_def)
qed

end
