(* ===== verification/LogPipeline.thy ===== *)
theory LogPipeline
  imports Logging AsyncLogging
begin

text \<open>
  The logging of a program as a whole: several threads execute \<open>LOG_\<close> statements and change the global level and the
  output function, whose lines go to \<open>stdout\<close> or, through the function that \<open>examples/httpd/main.cc\<close> sets, to the asynchronous
  logger, while the logging thread swaps buffers and writes them to the log files.
\<close>

record log_stmt = log_site +
  ls_thread :: nat
  ls_now :: timestamp

datatype output_func = DefaultOutput | LogOutput

datatype pipe_event = Statement log_stmt | SetLogLevel log_level | SetOutPut output_func | BackendSwap | BackendWrite string

text \<open>The state of the process: \<open>stdout\<close>, and what has happened to the asynchronous logger so far.\<close>

record pipe_world = stdio +
  pw_async :: "al_event list"

definition logOutput :: "bytes \<Rightarrow> pipe_world \<Rightarrow> pipe_world" where
  "logOutput line w = w\<lparr>pw_async := pw_async w @ [AppendLine line]\<rparr>"

definition output_of :: "(bytes \<Rightarrow> nat) \<Rightarrow> output_func \<Rightarrow> bytes \<Rightarrow> pipe_world \<Rightarrow> pipe_world" where
  "output_of fwrite f = (case f of DefaultOutput \<Rightarrow> defaultOutput fwrite | LogOutput \<Rightarrow> logOutput)"

definition pipe_start :: pipe_world where
  "pipe_start = \<lparr>so_written = [], so_flushed = [], pw_async = []\<rparr>"

text \<open>The environment of a statement: that of its thread, at the time of the statement.\<close>

definition stmt_env :: "(nat \<Rightarrow> log_env) \<Rightarrow> log_stmt \<Rightarrow> log_env" where
  "stmt_env envs st = (envs (ls_thread st))\<lparr>env_now := ls_now st\<rparr>"

text \<open>
  A run of the program. Each thread has its own thread-local variables. A statement at level \<open>FATAL\<close> ends the
  process, and the flag says so; \<open>None\<close> is a failed assertion.
\<close>

fun run_program ::
  "(bytes \<Rightarrow> nat) \<Rightarrow> (nat \<Rightarrow> log_env) \<Rightarrow> pipe_event list \<Rightarrow> pipe_world log_globals \<Rightarrow> (nat \<Rightarrow> thread_vars) \<Rightarrow> pipe_world \<Rightarrow>
     (bool \<times> pipe_world) option" where
  "run_program fw envs [] g ths w = Some (False, w)"
| "run_program fw envs (BackendSwap # es) g ths w = run_program fw envs es g ths (w\<lparr>pw_async := pw_async w @ [Swap]\<rparr>)"
| "run_program fw envs (BackendWrite now # es) g ths w = run_program fw envs es g ths (w\<lparr>pw_async := pw_async w @ [Write now]\<rparr>)"
| "run_program fw envs (SetLogLevel level # es) g ths w = run_program fw envs es (setLogLevel level g) ths w"
| "run_program fw envs (SetOutPut f # es) g ths w = run_program fw envs es (setOutPut (output_of fw f) g) ths w"
| "run_program fw envs (Statement st # es) g ths w = do {
     (abort, th, w) \<leftarrow> log_statement (stmt_env envs st) st g (ths (ls_thread st)) w;
     if abort then Some (True, w) else run_program fw envs es g (ths(ls_thread st := th)) w }"

subsection \<open>What a program logs\<close>

text \<open>
  The specification: the statements that log at all, each with the function its line goes to, up to and including the
  first fatal one. Statements from \<open>WARN\<close> on always log; the others when their level is not before the one that is set.
\<close>

definition logged :: "log_level \<Rightarrow> log_macro \<Rightarrow> bool" where
  "logged level m \<longleftrightarrow> macro_level m \<in> {WARN, ERROR, FATAL} \<or>
     macro_level m \<in> set (dropWhile (\<lambda>l. l \<noteq> level) [TRACE, DEBUG, INFO, WARN, ERROR, FATAL])"

lemma macro_logs_logged: "macro_logs level m \<longleftrightarrow> logged level m"
  by (cases level; cases m; simp add: macro_logs_def logged_def)

fun visible :: "log_level \<Rightarrow> output_func \<Rightarrow> pipe_event list \<Rightarrow> (output_func \<times> log_stmt) list" where
  "visible level f [] = []"
| "visible level f (Statement st # es) =
     (if logged level (ls_macro st) then (f, st) # (if macro_level (ls_macro st) = FATAL then [] else visible level f es)
      else visible level f es)"
| "visible level f (SetLogLevel level' # es) = visible level' f es"
| "visible level f (SetOutPut f' # es) = visible level f' es"
| "visible level f (_ # es) = visible level f es"

definition lines_to :: "(nat \<Rightarrow> log_env) \<Rightarrow> output_func \<Rightarrow> (output_func \<times> log_stmt) list \<Rightarrow> bytes list" where
  "lines_to envs f vs = map (\<lambda>(f, st). log_line (stmt_env envs st) st) (filter (\<lambda>(f', st). f' = f) vs)"

definition stmt_ok :: "(nat \<Rightarrow> log_env) \<Rightarrow> log_stmt \<Rightarrow> bool" where
  "stmt_ok envs st \<longleftrightarrow> env_ok (stmt_env envs st) \<and> site_ok (stmt_env envs st) st"

fun backend_alternates :: "bool \<Rightarrow> pipe_event list \<Rightarrow> bool" where
  "backend_alternates w [] \<longleftrightarrow> True"
| "backend_alternates w (BackendSwap # es) \<longleftrightarrow> \<not> w \<and> backend_alternates True es"
| "backend_alternates w (BackendWrite now # es) \<longleftrightarrow> w \<and> backend_alternates False es"
| "backend_alternates w (_ # es) \<longleftrightarrow> backend_alternates w es"

text \<open>The caches of a thread do not depend on the time of the statement.\<close>

lemma thread_ok_now: "thread_ok (stmt_env envs st) th \<longleftrightarrow> thread_ok (envs (ls_thread st)) th"
  by (simp add: thread_ok_def stmt_env_def)

lemma log_line_length:
  assumes "env_ok env" "site_ok env st"
  shows "length (log_line env st) < kLargeBuffer"
proof -
  have "length (tid_text env) \<le> 11" "length (time_text (env_localtime_r env (env_now env div 1000000))) = 17"
    using assms(1) tid_text_length by (auto simp: env_ok_def)
  moreover have "length (dec_int (ls_line st)) \<le> 10" using assms(2) by (intro dec_int_length) (simp_all add: site_ok_def)
  moreover have "length (frac_text (env_now env)) = 8" by (simp add: frac_text_def pad0_length)
  ultimately show ?thesis using assms(2) by (simp add: log_line_def site_ok_def level_names kLargeBuffer_def)
qed

definition fatal_in :: "(output_func \<times> log_stmt) list \<Rightarrow> bool" where
  "fatal_in vs \<longleftrightarrow> (\<exists>v \<in> set vs. macro_level (ls_macro (snd v)) = FATAL)"

text \<open>What a run adds to the state of the process.\<close>

definition logs :: "(nat \<Rightarrow> log_env) \<Rightarrow> pipe_event list \<Rightarrow> (output_func \<times> log_stmt) list \<Rightarrow> pipe_world \<Rightarrow> bool \<times> pipe_world \<Rightarrow> bool" where
  "logs envs es vs w r \<longleftrightarrow> (\<exists>as. pw_async (snd r) = pw_async w @ as \<and> lines_of as = lines_to envs LogOutput vs \<and>
     (\<forall>b. backend_alternates b es \<longrightarrow> alternates b as) \<and> length as \<le> length es) \<and>
     so_written (snd r) = so_written w @ concat (lines_to envs DefaultOutput vs) \<and> (fst r \<longleftrightarrow> fatal_in vs) \<and>
     (fst r \<longrightarrow> so_flushed (snd r) = so_written (snd r))"

lemma logs_backend:
  assumes "e = BackendSwap \<and> a = Swap \<or> e = BackendWrite now \<and> a = Write now"
    "logs envs es vs (w\<lparr>pw_async := pw_async w @ [a]\<rparr>) r"
  shows "logs envs (e # es) vs w r"
proof -
  obtain as where "pw_async (snd r) = pw_async w @ a # as" "lines_of as = lines_to envs LogOutput vs"
      "\<forall>b. backend_alternates b es \<longrightarrow> alternates b as" "length as \<le> length es"
    using assms(2) by (auto simp: logs_def)
  then show ?thesis using assms by (auto simp: logs_def intro!: exI [of _ "a # as"])
qed

lemma logs_statement:
  assumes "w' = output_of fw f (log_line (stmt_env envs st) st) w" "\<forall>m. fw m = length m" "macro_level (ls_macro st) \<noteq> FATAL"
    "logs envs es vs w' r"
  shows "logs envs (Statement st # es) ((f, st) # vs) w r"
proof -
  obtain as where as: "pw_async (snd r) = pw_async w' @ as" "lines_of as = lines_to envs LogOutput vs"
      "\<forall>b. backend_alternates b es \<longrightarrow> alternates b as" "length as \<le> length es"
    using assms(4) by (auto simp: logs_def)
  let ?as = "(case f of LogOutput \<Rightarrow> [AppendLine (log_line (stmt_env envs st) st)] | DefaultOutput \<Rightarrow> []) @ as"
  have "pw_async (snd r) = pw_async w @ ?as" "lines_of ?as = lines_to envs LogOutput ((f, st) # vs)" "length ?as \<le> Suc (length es)"
      "\<forall>b. backend_alternates b es \<longrightarrow> alternates b ?as"
    using as assms(1) by (cases f; simp add: output_of_def logOutput_def defaultOutput_def lines_to_def)+
  moreover have "so_written w' = so_written w @ concat (lines_to envs DefaultOutput [(f, st)])"
    using assms(1,2) by (cases f) (simp_all add: output_of_def logOutput_def defaultOutput_def lines_to_def)
  moreover have "lines_to envs DefaultOutput ((f, st) # vs) = lines_to envs DefaultOutput [(f, st)] @ lines_to envs DefaultOutput vs"
    by (simp add: lines_to_def)
  ultimately show ?thesis using assms(3,4) unfolding logs_def fatal_in_def by auto
qed

lemma logs_fatal:
  assumes "w' = defaultFlush (output_of fw f (log_line (stmt_env envs st) st) w)" "\<forall>m. fw m = length m"
    "macro_level (ls_macro st) = FATAL"
  shows "logs envs (Statement st # es) [(f, st)] w (True, w')"
  using assms
  by (cases f) (auto simp: logs_def fatal_in_def output_of_def logOutput_def defaultOutput_def defaultFlush_def lines_to_def
      intro!: exI [of _ "[AppendLine (log_line (stmt_env envs st) st)]"])

text \<open>One statement, with the rest of the program as an hypothesis.\<close>

lemma run_statement_logs:
  assumes fw: "\<forall>m. fw m = length m" and g: "g = \<lparr>g_logLevel = level, g_output = output_of fw f, g_flush = defaultFlush\<rparr>"
    and ths: "\<forall>t. thread_ok (envs t) (ths t)" and ok: "logged level (ls_macro st) \<longrightarrow> stmt_ok envs st"
    and rest: "logged level (ls_macro st) \<longrightarrow> macro_level (ls_macro st) \<noteq> FATAL \<Longrightarrow>
      (\<And>ths w. \<forall>t. thread_ok (envs t) (ths t) \<Longrightarrow> \<exists>r. run_program fw envs es g ths w = Some r \<and> logs envs es (visible level f es) w r)"
  shows "\<exists>r. run_program fw envs (Statement st # es) g ths w = Some r \<and> logs envs (Statement st # es) (visible level f (Statement st # es)) w r"
proof (cases "logged level (ls_macro st)")
  case True
  let ?w = "output_of fw f (log_line (stmt_env envs st) st) w"
  have tok: "thread_ok (stmt_env envs st) (ths (ls_thread st))" using ths by (simp add: thread_ok_now)
  obtain th where th: "thread_ok (stmt_env envs st) th" "log_statement (stmt_env envs st) st g (ths (ls_thread st)) w =
      Some (if macro_level (ls_macro st) = FATAL then (True, th, defaultFlush ?w) else (False, th, ?w))"
    using log_statement_text [OF _ tok, of st g w] True ok g by (auto simp: Let_def stmt_ok_def macro_logs_logged)
  show ?thesis
  proof (cases "macro_level (ls_macro st) = FATAL")
    case fatal: True
    then show ?thesis using logs_fatal [OF refl fw fatal] th(2) True by simp
  next
    case False
    have "\<forall>t. thread_ok (envs t) ((ths(ls_thread st := th)) t)" using th(1) ths by (simp add: thread_ok_now)
    then obtain r where "run_program fw envs es g (ths(ls_thread st := th)) ?w = Some r" "logs envs es (visible level f es) ?w r"
      using rest False by blast
    then show ?thesis using logs_statement [OF refl fw False] th(2) True False by simp
  qed
next
  case False
  then have "log_statement (stmt_env envs st) st g (ths (ls_thread st)) w = Some (False, ths (ls_thread st), w)"
    using g by (simp add: log_statement_def macro_logs_logged)
  moreover obtain r where "run_program fw envs es g ths w = Some r" "logs envs es (visible level f es) w r"
    using rest False ths by blast
  ultimately show ?thesis using False by (fastforce simp: logs_def)
qed

lemma run_program_logs:
  assumes "\<forall>m. fw m = length m"
  shows "\<forall>t. thread_ok (envs t) (ths t) \<Longrightarrow> \<forall>v \<in> set (visible level f es). stmt_ok envs (snd v) \<Longrightarrow>
    g = \<lparr>g_logLevel = level, g_output = output_of fw f, g_flush = defaultFlush\<rparr> \<Longrightarrow>
    \<exists>r. run_program fw envs es g ths w = Some r \<and> logs envs es (visible level f es) w r"
proof (induction es arbitrary: level f g ths w)
  case Nil
  then show ?case by (simp add: logs_def lines_to_def fatal_in_def)
next
  case (Cons e es)
  note IH = Cons.IH [OF Cons.prems(1) _ Cons.prems(3)]
  show ?case
  proof (cases e)
    case (Statement st)
    show ?thesis unfolding Statement
      by (rule run_statement_logs [OF assms Cons.prems(3,1)])
        (use Cons.prems(2) Cons.IH [OF _ _ Cons.prems(3)] Statement in \<open>auto split: if_splits\<close>)
  next
    case BackendSwap
    then show ?thesis using IH [of "w\<lparr>pw_async := pw_async w @ [Swap]\<rparr>"] Cons.prems(2) logs_backend by fastforce
  next
    case (BackendWrite now)
    then show ?thesis using IH [of "w\<lparr>pw_async := pw_async w @ [Write now]\<rparr>"] Cons.prems(2) logs_backend by fastforce
  next
    case (SetLogLevel level')
    then show ?thesis
      using Cons.IH [of ths level' f "setLogLevel level' g" w] Cons.prems by (auto simp: setLogLevel_def logs_def intro: le_SucI)
  next
    case (SetOutPut f')
    then show ?thesis
      using Cons.IH [of ths level f' "setOutPut (output_of fw f') g" w] Cons.prems by (auto simp: setOutPut_def logs_def intro: le_SucI)
  qed
qed

text \<open>
  C11: What a program logs is where it should be. For any interleaving of log statements of several threads, changes of the
  level and of the output function, and the steps of the logging thread: every statement of level \<open>WARN\<close> and above (whatever level is set) and every
  other that is not below the level of that moment gives one line, made
  of its own time, thread, level, function or error text, operands and place in the source; no assertion fails. The lines logged under the default
  function are, in order, what \<open>stdout\<close> got; the bytes of the log files over all rolls, followed by those still in memory, are the other
  lines in order, as long as no swap hands over more than 25 buffers and every write to a log file takes at least one byte. The process is
  aborted exactly when a statement is fatal, after that statement, and
  \<open>stdout\<close> has been flushed then. Conditions: the text of a statement and its file name have at most 3800 characters together (what exceeds the
  4000 bytes of a log stream is lost), its operands are of the types that the stream prints and the line number fits an \<open>int\<close> (\<open>site_ok\<close>); the clock is past
  the first second of 1970, local years have four digits and thread ids are positive (\<open>env_ok\<close>); \<open>stdout\<close> takes all that is written; the log
  files can be opened and their base name has no slash.
\<close>
theorem logging_end_to_end:
  assumes "vs = visible (initLogLevel vars) DefaultOutput es" "\<forall>v \<in> set vs. stmt_ok envs (snd v)" "backend_alternates False es"
    "\<forall>m. fw m = length m" "files_open env" "0 < fe_time env 0" "length raw = kLargeBuffer" "CHR ''/'' \<notin> set basename"
  shows "\<exists>abort w st out s. run_program fw envs es (init_globals fw vars) (\<lambda>t. fresh_thread) pipe_start = Some (abort, w) \<and>
     so_written w = concat (lines_to envs DefaultOutput vs) \<and>
     (abort \<longleftrightarrow> (\<exists>v \<in> set vs. macro_level (ls_macro (snd v)) = FATAL)) \<and> (abort \<longrightarrow> so_flushed w = so_written w) \<and>
     al_start env raw basename rollSize = Some st \<and> exec_als env raw (pw_async w) st = Some (out, s) \<and>
     (fwrite_progress env \<and> within_limit env raw (pw_async w) st \<longrightarrow>
        lf_stream out @ pending_text s = concat (lines_to envs LogOutput vs))"
proof -
  have fresh: "\<forall>t. thread_ok (envs t) fresh_thread" by (simp add: thread_ok_def fresh_thread_def)
  have g: "init_globals fw vars = \<lparr>g_logLevel = initLogLevel vars, g_output = output_of fw DefaultOutput, g_flush = defaultFlush\<rparr>"
    by (simp add: init_globals_def output_of_def)
  obtain abort w where r: "run_program fw envs es (init_globals fw vars) (\<lambda>t. fresh_thread) pipe_start = Some (abort, w)"
      "logs envs es vs pipe_start (abort, w)"
    using run_program_logs [where f = DefaultOutput, OF assms(4) fresh _ g] assms(1,2) by force
  then have as: "lines_of (pw_async w) = lines_to envs LogOutput vs" "alternates False (pw_async w)"
    using assms(3) by (auto simp: logs_def pipe_start_def)
  have "\<forall>l \<in> set (lines_of (pw_async w)). length l < kLargeBuffer"
    using as(1) assms(2) by (fastforce simp: lines_to_def stmt_ok_def intro: log_line_length)
  from async_log_run [OF assms(5-8) as(2) this] obtain st out s where
    "al_start env raw basename rollSize = Some st" "exec_als env raw (pw_async w) st = Some (out, s)"
    "fwrite_progress env \<and> within_limit env raw (pw_async w) st \<longrightarrow> lf_stream out @ pending_text s = concat (lines_of (pw_async w))"
    by blast
  then show ?thesis using r as(1) by (auto simp: logs_def fatal_in_def pipe_start_def)
qed

text \<open>
  As in the web server's \<open>main\<close>: the output function is set, then the level; a debug statement is not logged. Before that,
  one line goes to \<open>stdout\<close>.
\<close>

definition demo_stmt :: "nat \<Rightarrow> log_macro \<Rightarrow> log_stmt" where
  "demo_stmt t m = \<lparr>ls_macro = m, ls_ops = [LogString ''x''], ls_func = ''main'', ls_file = ''src/a.cc'', ls_line = 1, ls_errno = 0,
     ls_thread = t, ls_now = 1700000000000042\<rparr>"

definition demo_program :: "pipe_event list" where
  "demo_program = [Statement (demo_stmt 0 LOG_INFO), SetOutPut LogOutput, SetLogLevel WARN, Statement (demo_stmt 0 LOG_WARN),
     BackendSwap, Statement (demo_stmt 1 LOG_DEBUG), BackendWrite []]"

lemma demo_visible:
  "visible (initLogLevel {}) DefaultOutput demo_program = [(DefaultOutput, demo_stmt 0 LOG_INFO), (LogOutput, demo_stmt 0 LOG_WARN)]"
  by (simp add: demo_program_def logged_def demo_stmt_def initLogLevel_def)

lemma demo_stmt_env: "stmt_env (\<lambda>t. demo_env) (demo_stmt t m) = demo_env"
  by (simp add: stmt_env_def demo_env_def demo_stmt_def)

lemma demo_log_line:
  assumes "m = LOG_INFO \<or> m = LOG_WARN"
  shows "log_line demo_env (demo_stmt t m) =
    ''20231114 22:13:20.000042   4711 '' @ LogLevelName (macro_level m) @ ''x - a.cc:1'' @ [CHR 0x0A]"
  using assms
  by (auto simp: log_line_def demo_stmt_def demo_time demo_frac demo_tid macro_ops_def SourceFile_ctor_def print_digits)

lemma demo_log_lines:
  "concat (lines_to (\<lambda>t. demo_env) DefaultOutput (visible (initLogLevel {}) DefaultOutput demo_program)) =
     ''20231114 22:13:20.000042   4711 INFO  x - a.cc:1'' @ [CHR 0x0A]"
  "concat (lines_to (\<lambda>t. demo_env) LogOutput (visible (initLogLevel {}) DefaultOutput demo_program)) =
     ''20231114 22:13:20.000042   4711 WARN  x - a.cc:1'' @ [CHR 0x0A]"
  unfolding demo_visible lines_to_def by (simp_all add: demo_stmt_env demo_log_line LogLevelName_def)

theorem logging_end_to_end_witness:
  "\<exists>w st out s. run_program length (\<lambda>t. demo_env) demo_program (init_globals length {}) (\<lambda>t. fresh_thread) pipe_start = Some (False, w) \<and>
     so_written w = ''20231114 22:13:20.000042   4711 INFO  x - a.cc:1'' @ [CHR 0x0A] \<and>
     al_start demo_files (replicate kLargeBuffer CHR ''?'') ''app'' 10 = Some st \<and>
     exec_als demo_files (replicate kLargeBuffer CHR ''?'') (pw_async w) st = Some (out, s) \<and>
     lf_stream out @ pending_text s = ''20231114 22:13:20.000042   4711 WARN  x - a.cc:1'' @ [CHR 0x0A]"
proof -
  let ?raw = "replicate kLargeBuffer CHR ''?''" and ?vs = "visible (initLogLevel {}) DefaultOutput demo_program"
  have env: "env_ok demo_env" by (simp add: env_ok_def demo_time) (simp add: demo_env_def kSmallBuffer_def)
  have ok: "\<forall>v \<in> set ?vs. stmt_ok (\<lambda>t. demo_env) (snd v)"
    unfolding demo_visible by (simp add: stmt_ok_def demo_stmt_env env) (simp add: site_ok_def demo_stmt_def macro_ops_def SourceFile_ctor_def)
  have alt: "backend_alternates False demo_program" by (simp add: demo_program_def)
  have fw: "\<forall>m::bytes. length m = length m" by simp
  have files: "files_open demo_files" "0 < fe_time demo_files 0" and progress: "fwrite_progress demo_files"
    by (simp_all add: demo_files_def fwrite_progress_def files_open_def)
  have fresh: "\<forall>t. thread_ok ((\<lambda>t. demo_env) t) fresh_thread" by (simp add: thread_ok_def fresh_thread_def)
  have g: "init_globals length {} = \<lparr>g_logLevel = initLogLevel {}, g_output = output_of length DefaultOutput, g_flush = defaultFlush\<rparr>"
    by (simp add: init_globals_def output_of_def)
  obtain abort w st out s where r: "run_program length (\<lambda>t. demo_env) demo_program (init_globals length {}) (\<lambda>t. fresh_thread) pipe_start = Some (abort, w)"
      "so_written w = concat (lines_to (\<lambda>t. demo_env) DefaultOutput ?vs)"
      "abort \<longleftrightarrow> (\<exists>v \<in> set ?vs. macro_level (ls_macro (snd v)) = FATAL)" "al_start demo_files ?raw ''app'' 10 = Some st"
      "exec_als demo_files ?raw (pw_async w) st = Some (out, s)"
      "fwrite_progress demo_files \<and> within_limit demo_files ?raw (pw_async w) st \<longrightarrow> lf_stream out @ pending_text s = concat (lines_to (\<lambda>t. demo_env) LogOutput ?vs)"
    using logging_end_to_end [OF refl ok alt fw files, of ?raw "''app''" 10] unfolding length_replicate by fastforce
  have "length (pw_async w) \<le> 24"
    using run_program_logs [where f = DefaultOutput, OF fw fresh ok g, of pipe_start] r(1)
    by (auto simp: logs_def pipe_start_def demo_program_def)
  then have "within_limit demo_files ?raw (pw_async w) st" using demo_limit [OF r(4)] by blast
  then have "lf_stream out @ pending_text s = ''20231114 22:13:20.000042   4711 WARN  x - a.cc:1'' @ [CHR 0x0A]"
    using r(6) progress by (simp only: demo_log_lines simp_thms)
  moreover have "abort = False" using r(3) unfolding demo_visible by (simp add: demo_stmt_def)
  ultimately show ?thesis using r(1,2,4,5) unfolding demo_log_lines by (intro exI [of _ w] exI [of _ st] exI [of _ out] exI [of _ s]) (simp only: simp_thms)
qed

end
