(* ===== verification/ThreadPool.thy ===== *)
theory ThreadPool
  imports Sync "HOL-Library.Multiset"
begin

text \<open>
  \<open>tmuduo/base/CountDownLatch.cc\<close> and \<open>ThreadPool.h\<close>. A run is a sequence of atomic steps of
  the threads, in any order. A counter changed by an atomic operation and a queue changed under
  the mutex are separate steps: \<open>pushTask\<close> counts the task first and queues it later, a worker takes a
  task, runs it, and counts it down last.
\<close>

subsection \<open>CountDownLatch\<close>

record latch =
  l_count :: int
  l_ready :: nat
  l_waiting :: nat
  l_passed :: nat

definition CountDownLatch_ctor :: "int \<Rightarrow> latch" where
  "CountDownLatch_ctor n = \<lparr>l_count = n, l_ready = 0, l_waiting = 0, l_passed = 0\<rparr>"

text \<open>One test of the loop in \<open>wait\<close> by a thread that holds the mutex.\<close>

definition latch_wait :: "latch \<Rightarrow> latch" where
  "latch_wait l =
     (if l_ready l = 0 then l
      else if l_count l > 0 then l\<lparr>l_ready := l_ready l - 1, l_waiting := l_waiting l + 1\<rparr>
      else l\<lparr>l_ready := l_ready l - 1, l_passed := l_passed l + 1\<rparr>)"

definition countDown :: "latch \<Rightarrow> latch" where
  "countDown l =
     (let l = l\<lparr>l_count := l_count l - 1\<rparr> in
      if l_count l = 0 then l\<lparr>l_ready := l_ready l + l_waiting l, l_waiting := 0\<rparr> else l)"

definition getCount :: "latch \<Rightarrow> int" where
  "getCount l = l_count l"

datatype latch_op = CallWait | TestLatch | SpuriousWake | CallCountDown

fun exec_latch :: "latch_op \<Rightarrow> latch \<Rightarrow> latch" where
  "exec_latch CallWait l = l\<lparr>l_ready := l_ready l + 1\<rparr>"
| "exec_latch TestLatch l = latch_wait l"
| "exec_latch SpuriousWake l = (if l_waiting l = 0 then l else l\<lparr>l_waiting := l_waiting l - 1, l_ready := l_ready l + 1\<rparr>)"
| "exec_latch CallCountDown l = countDown l"

definition is_count_down :: "latch_op \<Rightarrow> bool" where
  "is_count_down x \<longleftrightarrow> x = CallCountDown"

lemma latch_run:
  assumes "l_waiting l > 0 \<longrightarrow> l_count l > 0" "l_passed l > 0 \<longrightarrow> l_count l \<le> 0"
  shows "let l' = fold exec_latch xs l in l_count l' = l_count l - int (length (filter is_count_down xs)) \<and>
     (l_waiting l' > 0 \<longrightarrow> l_count l' > 0) \<and> (l_passed l' > 0 \<longrightarrow> l_count l' \<le> 0)"
  using assms
proof (induction xs arbitrary: l)
  case (Cons x xs)
  have "(l_waiting (exec_latch x l) > 0 \<longrightarrow> l_count (exec_latch x l) > 0) \<and>
      (l_passed (exec_latch x l) > 0 \<longrightarrow> l_count (exec_latch x l) \<le> 0) \<and>
      l_count (exec_latch x l) = l_count l - (if is_count_down x then 1 else 0)"
    using Cons.prems by (cases x) (auto simp: latch_wait_def countDown_def Let_def is_count_down_def)
  with Cons.IH [of "exec_latch x l"] show ?case by (auto simp: Let_def)
qed simp

text \<open>
  A latch lets nobody pass before it has been counted down as often as it was set to, and nobody stays
  blocked after that.
\<close>

lemma latch_correct:
  assumes "l = fold exec_latch xs (CountDownLatch_ctor n)"
  shows "(l_passed l > 0 \<longrightarrow> n \<le> int (length (filter is_count_down xs))) \<and>
     (n \<le> int (length (filter is_count_down xs)) \<longrightarrow> l_waiting l = 0)"
  using latch_run [of "CountDownLatch_ctor n" xs] assms by (auto simp: CountDownLatch_ctor_def Let_def)

subsection \<open>ThreadPool\<close>

text \<open>
  \<open>tp_pushing\<close> holds the tasks of calls of \<open>pushTask\<close> between its two steps. A worker is one
  of \<open>tp_alive\<close> threads: it is before its test of \<open>running_\<close>, or one of the \<open>tp_ready\<close>
  workers that have passed the tests of \<open>running_\<close> and \<open>paused_\<close> and are about to pop, or it
  executes a task of \<open>tp_working\<close>. The three logs \<open>tp_pushed\<close>, \<open>tp_started\<close> and
  \<open>tp_finished\<close> record the order of events. The array of threads is \<open>tp_threadNum\<close> with the count of threads that
  are still alive. \<open>tp_waiter\<close> is where the thread that calls \<open>waitForTasks\<close> stands, for a user or inside \<open>reset\<close>
  and the destructor.
\<close>

datatype wait_pc = WaitTest | WaitRunning | WaitPaused | WaitQueued nat | WaitOver

record 'a thread_pool_state =
  tp_running :: bool
  tp_paused :: bool
  tp_tasks :: "'a list"
  tp_tasksTotal :: nat
  tp_threadNum :: nat
  tp_alive :: nat
  tp_ready :: nat
  tp_pushing :: "'a list"
  tp_working :: "'a list"
  tp_pushed :: "'a list"
  tp_started :: "'a list"
  tp_finished :: "'a list"
  tp_waiter :: wait_pc

definition createThreads :: "'a thread_pool_state \<Rightarrow> 'a thread_pool_state" where
  "createThreads p = p\<lparr>tp_alive := tp_threadNum p\<rparr>"

definition ThreadPool_ctor :: "nat \<Rightarrow> 'a thread_pool_state" where
  "ThreadPool_ctor threadNum = createThreads \<lparr>tp_running = True, tp_paused = False, tp_tasks = [], tp_tasksTotal = 0,
     tp_threadNum = threadNum, tp_alive = 0, tp_ready = 0, tp_pushing = [], tp_working = [], tp_pushed = [], tp_started = [],
     tp_finished = [], tp_waiter = WaitTest\<rparr>"

definition getTasksQueued :: "'a thread_pool_state \<Rightarrow> nat" where
  "getTasksQueued p = length (tp_tasks p)"

text \<open>\<open>getTasksRunning\<close> reads \<open>tasksTotal_\<close> first and takes the mutex for the length of the queue afterwards.\<close>

definition getTasksRunning :: "nat \<Rightarrow> 'a thread_pool_state \<Rightarrow> nat" where
  "getTasksRunning tasksTotal p = sz_sub tasksTotal (getTasksQueued p)"

definition pushTask_count :: "'a \<Rightarrow> 'a thread_pool_state \<Rightarrow> 'a thread_pool_state" where
  "pushTask_count task p = p\<lparr>tp_tasksTotal := tp_tasksTotal p + 1, tp_pushing := tp_pushing p @ [task]\<rparr>"

definition pushTask_enqueue :: "nat \<Rightarrow> 'a thread_pool_state \<Rightarrow> 'a thread_pool_state" where
  "pushTask_enqueue i p =
     (if i < length (tp_pushing p) then
        (let task = tp_pushing p ! i in
         p\<lparr>tp_pushing := take i (tp_pushing p) @ drop (Suc i) (tp_pushing p), tp_tasks := tp_tasks p @ [task],
           tp_pushed := tp_pushed p @ [task]\<rparr>)
      else p)"

definition popTask :: "'a thread_pool_state \<Rightarrow> ('a \<times> 'a thread_pool_state) option" where
  "popTask p = (case tp_tasks p of
       [] \<Rightarrow> None
     | task # rest \<Rightarrow> Some (task, p\<lparr>tp_tasks := rest\<rparr>))"

text \<open>
  The turn of a worker, in three steps: the tests of the two flags (a worker that finds \<open>running_\<close> false
  ends, one that finds \<open>paused_\<close> set sleeps), the pop, and the end of the task.
\<close>

definition worker_check :: "'a thread_pool_state \<Rightarrow> 'a thread_pool_state" where
  "worker_check p =
     (if tp_ready p + length (tp_working p) < tp_alive p then
        (if \<not> tp_running p then p\<lparr>tp_alive := tp_alive p - 1\<rparr>
         else if \<not> tp_paused p then p\<lparr>tp_ready := tp_ready p + 1\<rparr> else p)
      else p)"

definition worker_take :: "'a thread_pool_state \<Rightarrow> 'a thread_pool_state" where
  "worker_take p =
     (if tp_ready p > 0 then
        (let p = p\<lparr>tp_ready := tp_ready p - 1\<rparr> in
         case popTask p of
           Some (task, p) \<Rightarrow> p\<lparr>tp_working := tp_working p @ [task], tp_started := tp_started p @ [task]\<rparr>
         | None \<Rightarrow> p)
      else p)"

definition worker_finish :: "nat \<Rightarrow> 'a thread_pool_state \<Rightarrow> 'a thread_pool_state" where
  "worker_finish i p =
     (if i < length (tp_working p) then
        p\<lparr>tp_working := take i (tp_working p) @ drop (Suc i) (tp_working p), tp_tasksTotal := tp_tasksTotal p - 1,
          tp_finished := tp_finished p @ [tp_working p ! i]\<rparr>
      else p)"

text \<open>
  The loop of \<open>waitForTasks\<close>, one reading of a shared variable per step: \<open>paused_\<close>, then \<open>tasksTotal_\<close>, and
  on a paused pool the length of the queue.
\<close>

definition waitForTasks_step :: "'a thread_pool_state \<Rightarrow> 'a thread_pool_state" where
  "waitForTasks_step p = p\<lparr>tp_waiter := (case tp_waiter p of
       WaitTest \<Rightarrow> if \<not> tp_paused p then WaitRunning else WaitPaused
     | WaitRunning \<Rightarrow> if tp_tasksTotal p = 0 then WaitOver else WaitTest
     | WaitPaused \<Rightarrow> WaitQueued (tp_tasksTotal p)
     | WaitQueued tasksTotal \<Rightarrow> if getTasksRunning tasksTotal p = 0 then WaitOver else WaitTest
     | WaitOver \<Rightarrow> WaitOver)\<rparr>"

text \<open>
  \<open>reset\<close> and the destructor share their first half, up to the moment where the threads are told to
  end; \<open>destroyThreads\<close> then joins them all. \<open>reset\<close> goes on with new threads, \<open>hw\<close> being
  \<open>hardware_concurrency\<close>.
\<close>

definition stop_threads :: "'a thread_pool_state \<Rightarrow> 'a thread_pool_state" where
  "stop_threads p = (if tp_waiter p = WaitOver then p\<lparr>tp_running := False, tp_waiter := WaitTest\<rparr> else p)"

definition destroyThreads_done :: "'a thread_pool_state \<Rightarrow> bool" where
  "destroyThreads_done p \<longleftrightarrow> tp_alive p = 0"

definition reset_restart :: "nat \<Rightarrow> nat \<Rightarrow> bool \<Rightarrow> 'a thread_pool_state \<Rightarrow> 'a thread_pool_state" where
  "reset_restart hw threadNum wasPaused p =
     (if \<not> tp_running p \<and> destroyThreads_done p then
        createThreads (p\<lparr>tp_threadNum := (if threadNum \<noteq> 0 then threadNum else hw), tp_paused := wasPaused, tp_running := True\<rparr>)
      else p)"

datatype 'a pool_step = CountTask 'a | EnqueueTask nat | CheckFlags | TakeTask | FinishTask nat | SetPaused bool
  | WaitStep | StopThreads | RestartThreads nat nat bool

fun exec_pool :: "'a pool_step \<Rightarrow> 'a thread_pool_state \<Rightarrow> 'a thread_pool_state" where
  "exec_pool (CountTask x) p = pushTask_count x p"
| "exec_pool (EnqueueTask i) p = pushTask_enqueue i p"
| "exec_pool CheckFlags p = worker_check p"
| "exec_pool TakeTask p = worker_take p"
| "exec_pool (FinishTask i) p = worker_finish i p"
| "exec_pool (SetPaused b) p = p\<lparr>tp_paused := b\<rparr>"
| "exec_pool WaitStep p = waitForTasks_step p"
| "exec_pool StopThreads p = stop_threads p"
| "exec_pool (RestartThreads hw n b) p = reset_restart hw n b p"

lemmas pool_ops = pushTask_count_def pushTask_enqueue_def worker_check_def worker_take_def popTask_def stop_threads_def
  waitForTasks_step_def reset_restart_def createThreads_def destroyThreads_done_def

definition pool_inv :: "'a thread_pool_state \<Rightarrow> bool" where
  "pool_inv p \<longleftrightarrow>
     tp_tasksTotal p = length (tp_pushing p) + length (tp_tasks p) + length (tp_working p) \<and>
     tp_pushed p = tp_started p @ tp_tasks p \<and>
     mset (tp_started p) = mset (tp_working p) + mset (tp_finished p) \<and>
     tp_ready p + length (tp_working p) \<le> tp_alive p \<and> tp_alive p \<le> tp_threadNum p"

lemma mset_remove_nth: "i < length xs \<Longrightarrow> mset xs = add_mset (xs ! i) (mset (take i xs @ drop (Suc i) xs))"
  by (subst id_take_nth_drop [of i xs]) simp_all

lemma exec_pool_inv: "pool_inv p \<Longrightarrow> pool_inv (exec_pool e p)"
proof (cases e)
  case (FinishTask i)
  assume "pool_inv p"
  then show ?thesis
    using FinishTask mset_remove_nth [of i "tp_working p"] by (auto simp: pool_inv_def worker_finish_def)
qed (auto simp: pool_inv_def pool_ops Let_def split: list.splits)

lemma pool_run_inv: "pool_inv (fold exec_pool es (ThreadPool_ctor n))"
proof -
  have "pool_inv p \<Longrightarrow> pool_inv (fold exec_pool es p)" for p :: "'a thread_pool_state"
    by (induction es arbitrary: p) (simp_all add: exec_pool_inv)
  then show ?thesis by (simp add: pool_inv_def ThreadPool_ctor_def createThreads_def)
qed

text \<open>A reading of zero means that nothing is executed, when the counter has not changed since it was read.\<close>

lemma getTasksRunning_zero:
  assumes "pool_inv p" "tp_tasksTotal p < 2 ^ 64" "getTasksRunning (tp_tasksTotal p) p = 0"
  shows "tp_working p = [] \<and> tp_pushing p = []"
proof -
  have "length (tp_tasks p) \<le> tp_tasksTotal p" using assms(1) by (simp add: pool_inv_def)
  then have "getTasksRunning (tp_tasksTotal p) p = tp_tasksTotal p - length (tp_tasks p)"
    using assms(2) by (simp add: getTasksRunning_def getTasksQueued_def sz_sub_no_wrap)
  with assms show ?thesis by (auto simp: pool_inv_def)
qed

text \<open>
  C18: In every run of a thread pool, tasks start in the order they were queued, and each one at most once; at
  most \<open>threadNum_\<close> run at a time. When \<open>waitForTasks\<close> returns after it found the pool not
  paused, every task that was pushed has been finished exactly once and no call of \<open>pushTask\<close> is
  in progress; when it returns after it found the pool paused, and the counter is still what it read, no task is being executed.
  The bound is that of the 64-bit counter.
\<close>
theorem pool_wait_complete:
  assumes "p = fold exec_pool es (ThreadPool_ctor n)" "tp_tasksTotal p < 2 ^ 64"
  shows "tp_pushed p = tp_started p @ tp_tasks p \<and> length (tp_working p) \<le> tp_threadNum p \<and>
     (tp_waiter p = WaitRunning \<and> tp_waiter (exec_pool WaitStep p) = WaitOver \<longrightarrow>
        tp_working p = [] \<and> tp_pushing p = [] \<and> mset (tp_finished p) = mset (tp_pushed p)) \<and>
     (tp_waiter p = WaitQueued (tp_tasksTotal p) \<and> tp_waiter (exec_pool WaitStep p) = WaitOver \<longrightarrow>
        tp_working p = [] \<and> tp_pushing p = [])"
proof -
  have inv: "pool_inv p" using pool_run_inv assms(1) by blast
  with getTasksRunning_zero [OF inv assms(2)] show ?thesis
    by (auto simp: pool_inv_def waitForTasks_step_def split: if_splits)
qed

theorem pool_wait_complete_witness:
  "let p = fold exec_pool [CountTask ''a'', EnqueueTask 0, CheckFlags, CountTask ''b'', TakeTask, EnqueueTask 0, CheckFlags,
       TakeTask, FinishTask 1, FinishTask 0, WaitStep] (ThreadPool_ctor 2) in
     tp_waiter p = WaitRunning \<and> tp_waiter (exec_pool WaitStep p) = WaitOver \<and> tp_pushed p = [''a'', ''b''] \<and>
     tp_finished p = [''b'', ''a''] \<and> mset (tp_finished p) = mset (tp_pushed p)"
proof -
  let ?es = "[CountTask ''a'', EnqueueTask 0, CheckFlags, CountTask ''b'', TakeTask, EnqueueTask 0, CheckFlags, TakeTask,
    FinishTask 1, FinishTask 0, WaitStep]"
  let ?p = "fold exec_pool ?es (ThreadPool_ctor 2)"
  have p: "tp_waiter ?p = WaitRunning" "tp_waiter (exec_pool WaitStep ?p) = WaitOver" "tp_pushed ?p = [''a'', ''b'']"
      "tp_finished ?p = [''b'', ''a'']" "tp_tasksTotal ?p = 0"
    by code_simp+
  then have "tp_tasksTotal ?p < 2 ^ 64" by (simp only: p(5)) simp
  then show ?thesis using pool_wait_complete [OF refl] p unfolding Let_def by blast
qed

text \<open>Whole calls of \<open>pushTask\<close>, one after the other.\<close>

definition push_tasks :: "'a list \<Rightarrow> 'a pool_step list" where
  "push_tasks ts = concat (map (\<lambda>t. [CountTask t, EnqueueTask 0]) ts)"

lemma push_tasks_run:
  assumes "tp_pushing p = []"
  shows "fold exec_pool (push_tasks ts) p =
    p\<lparr>tp_tasks := tp_tasks p @ ts, tp_tasksTotal := tp_tasksTotal p + length ts, tp_pushed := tp_pushed p @ ts\<rparr>"
  using assms by (induction ts arbitrary: p) (simp_all add: push_tasks_def pool_ops Let_def)

text \<open>
  C40: \<open>waitForTasks\<close> on a paused pool may return while tasks are being executed: when, between its readings of the
  counter and of the queue, as many tasks are pushed as are being executed, the difference it takes for the number of running tasks
  is zero.
\<close>
theorem pool_paused_wait_race:
  assumes "p = fold exec_pool es (ThreadPool_ctor n)" "tp_paused p" "tp_waiter p = WaitTest" "tp_pushing p = []"
    "length ts = length (tp_working p)" "tp_tasksTotal p < 2 ^ 64"
  shows "let q = fold exec_pool ([WaitStep, WaitStep] @ push_tasks ts @ [WaitStep]) p in
    tp_waiter q = WaitOver \<and> tp_working q = tp_working p \<and> tp_finished q = tp_finished p"
proof -
  have "pool_inv p" using pool_run_inv assms(1) by blast
  then have "tp_tasksTotal p = length (tp_tasks p) + length ts" using assms(4,5) by (simp add: pool_inv_def)
  moreover from this have "sz_sub (tp_tasksTotal p) (length (tp_tasks p) + length ts) = 0"
    using assms(6) by (simp add: sz_sub_no_wrap)
  ultimately show ?thesis
    using assms(2,3,4) by (simp add: waitForTasks_step_def push_tasks_run getTasksRunning_def getTasksQueued_def)
qed

text \<open>One task is executed, the pool is paused, and a second task is pushed at the wrong moment.\<close>

theorem pool_paused_wait_race_witness:
  "let p = fold exec_pool [CountTask ''a'', EnqueueTask 0, CheckFlags, TakeTask, SetPaused True] (ThreadPool_ctor 1);
       q = fold exec_pool ([WaitStep, WaitStep] @ push_tasks [''b''] @ [WaitStep]) p in
     tp_waiter q = WaitOver \<and> tp_working q = [''a'']"
proof -
  let ?p = "fold exec_pool [CountTask ''a'', EnqueueTask 0, CheckFlags, TakeTask, SetPaused True] (ThreadPool_ctor 1)"
  have p: "tp_paused ?p" "tp_waiter ?p = WaitTest" "tp_pushing ?p = []" "tp_working ?p = [''a'']" "tp_tasksTotal ?p = 1"
    by (simp_all add: pool_ops Let_def ThreadPool_ctor_def)
  have "length [''b''] = length (tp_working ?p)" "tp_tasksTotal ?p < 2 ^ 64" unfolding p(4,5) by simp_all
  from pool_paused_wait_race [OF refl p(1-3) this] show ?thesis unfolding Let_def p(4) by blast
qed

text \<open>How far the threads are from their ends, once they have been told to end.\<close>

definition pool_left :: "'a thread_pool_state \<Rightarrow> nat" where
  "pool_left p = tp_alive p + length (tp_working p) + 2 * tp_ready p"

lemma worker_step_left:
  assumes "pool_inv p" "\<not> tp_running p" "e \<in> {CheckFlags, TakeTask, FinishTask i}"
  shows "exec_pool e p = p \<or> pool_left (exec_pool e p) < pool_left p"
  using assms by (auto simp: pool_inv_def pool_left_def worker_finish_def pool_ops Let_def split: list.splits)

lemma worker_step_enabled:
  assumes "\<not> tp_running p" "tp_alive p > 0"
  shows "\<exists>e \<in> {CheckFlags, TakeTask, FinishTask 0}. exec_pool e p \<noteq> p"
proof -
  consider (ready) "tp_ready p > 0" | (working) "tp_working p \<noteq> []" | (idle) "tp_ready p = 0" "tp_working p = []" by auto
  then show ?thesis
  proof cases
    case ready
    then have "tp_ready (exec_pool TakeTask p) \<noteq> tp_ready p" by (auto simp: pool_ops Let_def split: list.splits)
    then show ?thesis by auto
  next
    case working
    then have "length (tp_working (exec_pool (FinishTask 0) p)) < length (tp_working p)"
      by (cases "tp_working p") (auto simp: worker_finish_def)
    then show ?thesis by auto
  next
    case idle
    then have "tp_alive (exec_pool CheckFlags p) \<noteq> tp_alive p" using assms by (auto simp: pool_ops)
    then show ?thesis by auto
  qed
qed

text \<open>
  C19: Ending the threads, in \<open>reset\<close> and the destructor. Once \<open>running_\<close> is false, the
  workers come to their ends: while one is left, a step of a worker is possible, and every such step brings the joins nearer. When
  they are joined no task is executed and every task that was started has been finished; the tasks that are left in the
  queue (those of a paused pool) have not been touched and stay for the threads that \<open>reset\<close> creates, as many as
  asked for.
\<close>
theorem pool_threads_end:
  assumes "p = fold exec_pool es (ThreadPool_ctor n)" "\<not> tp_running p"
  shows "(tp_alive p > 0 \<longrightarrow> (\<exists>e \<in> {CheckFlags, TakeTask, FinishTask 0}. exec_pool e p \<noteq> p)) \<and>
     (\<forall>e \<in> {CheckFlags, TakeTask, FinishTask i}. exec_pool e p = p \<or> pool_left (exec_pool e p) < pool_left p) \<and>
     (destroyThreads_done p \<longrightarrow> tp_working p = [] \<and> mset (tp_finished p) = mset (tp_started p) \<and>
        tp_pushed p = tp_started p @ tp_tasks p \<and>
        (let q = exec_pool (RestartThreads hw m b) p in
           tp_tasks q = tp_tasks p \<and> tp_alive q = (if m = 0 then hw else m) \<and> tp_running q \<and> tp_paused q = b))"
proof -
  have inv: "pool_inv p" using pool_run_inv assms(1) by blast
  moreover have "destroyThreads_done p \<longrightarrow> tp_working p = [] \<and> mset (tp_finished p) = mset (tp_started p) \<and>
        tp_pushed p = tp_started p @ tp_tasks p \<and>
        (let q = exec_pool (RestartThreads hw m b) p in
           tp_tasks q = tp_tasks p \<and> tp_alive q = (if m = 0 then hw else m) \<and> tp_running q \<and> tp_paused q = b)"
    using inv assms(2) by (auto simp: pool_inv_def reset_restart_def createThreads_def destroyThreads_done_def)
  ultimately show ?thesis using worker_step_enabled [OF assms(2)] worker_step_left [OF inv assms(2)] by blast
qed

text \<open>A paused pool is reset while a task is queued: the task stays queued, and the new threads are four.\<close>

theorem pool_threads_end_witness:
  "let p = fold exec_pool [SetPaused True, CountTask ''a'', EnqueueTask 0, WaitStep, WaitStep, WaitStep, StopThreads, CheckFlags] (ThreadPool_ctor 1) in
     \<not> tp_running p \<and> destroyThreads_done p \<and> tp_tasks p = [''a''] \<and>
     tp_alive (exec_pool (RestartThreads 4 0 True) p) = 4 \<and> tp_tasks (exec_pool (RestartThreads 4 0 True) p) = [''a'']"
proof -
  let ?p = "fold exec_pool [SetPaused True, CountTask ''a'', EnqueueTask 0, WaitStep, WaitStep, WaitStep, StopThreads, CheckFlags] (ThreadPool_ctor 1)"
  have p: "\<not> tp_running ?p" "destroyThreads_done ?p" "tp_tasks ?p = [''a'']"
    by (simp_all add: pool_ops Let_def getTasksRunning_def getTasksQueued_def sz_sub_no_wrap ThreadPool_ctor_def)
  have "tp_alive (exec_pool (RestartThreads 4 0 True) ?p) = (if 0 = (0::nat) then 4 else 0) \<and>
      tp_tasks (exec_pool (RestartThreads 4 0 True) ?p) = tp_tasks ?p"
    using pool_threads_end [OF refl p(1)] p(2) unfolding Let_def by blast
  then show ?thesis using p unfolding Let_def by (simp only: if_True simp_thms)
qed

end
