(* ===== verification/EventLoopThread.thy ===== *)
theory EventLoopThread
  imports Prelude
begin

text \<open>
  \<open>tmuduo/net/EventLoopThread.cc\<close>: a thread that runs an event loop. Two threads take part: the owner, which
  calls \<open>startLoop\<close> and later the destructor, and the new thread in \<open>threadFunc\<close>. The loop is an object
  on the stack of the new thread: its address is valid while the loop exists. Each step is what a
  thread does up to the next point where the other can interfere.
\<close>

datatype owner_pc = BeforeStart | AtCheck | Waiting | Started | InQuit | Joining | Joined

datatype worker_pc = NotCreated | InCallback | BeforePublish | InLoop | Ended

record loop_thread =
  lt_owner :: owner_pc
  lt_worker :: worker_pc
  lt_callback :: bool
  lt_loop :: "nat option"
  lt_exiting :: bool
  lt_quit :: bool
  lt_callbackRan :: bool
  lt_result :: "nat option"

text \<open>
  What a step does: it is not the next one of its thread or has to wait, it uses a null pointer or an object that does not
  exist any more, or it leads to a new state.
\<close>

datatype outcome = Blocked | Fault | Next loop_thread

definition EventLoopThread_ctor :: "bool \<Rightarrow> loop_thread" where
  "EventLoopThread_ctor cb = \<lparr>lt_owner = BeforeStart, lt_worker = NotCreated, lt_callback = cb, lt_loop = None,
     lt_exiting = False, lt_quit = False, lt_callbackRan = False, lt_result = None\<rparr>"

text \<open>
  The steps of the owner. \<open>EventLoop::quit\<close> in the destructor is two steps: it sets \<open>quit_\<close> and
  then wakes the loop up; both use the loop, which is gone when \<open>threadFunc\<close> has returned.
\<close>

definition startLoop_create :: "loop_thread \<Rightarrow> outcome" where
  "startLoop_create s = (if lt_owner s = BeforeStart then Next (s\<lparr>lt_owner := AtCheck, lt_worker := InCallback\<rparr>) else Blocked)"

definition startLoop_check :: "loop_thread \<Rightarrow> outcome" where
  "startLoop_check s =
     (if lt_owner s = AtCheck then
        (case lt_loop s of
           None \<Rightarrow> Next (s\<lparr>lt_owner := Waiting\<rparr>)
         | Some l \<Rightarrow> Next (s\<lparr>lt_owner := Started, lt_result := Some l\<rparr>))
      else Blocked)"

definition EventLoopThread_dtor :: "loop_thread \<Rightarrow> outcome" where
  "EventLoopThread_dtor s =
     (if lt_owner s = Started \<or> lt_owner s = BeforeStart then
        (case lt_loop s of
           None \<Rightarrow> Fault
         | Some l \<Rightarrow>
             if lt_worker s = Ended then Fault
             else Next (s\<lparr>lt_exiting := True, lt_quit := True, lt_owner := InQuit\<rparr>))
      else Blocked)"

definition dtor_wakeup :: "loop_thread \<Rightarrow> outcome" where
  "dtor_wakeup s =
     (if lt_owner s = InQuit then (if lt_worker s = Ended then Fault else Next (s\<lparr>lt_owner := Joining\<rparr>)) else Blocked)"

definition dtor_join :: "loop_thread \<Rightarrow> outcome" where
  "dtor_join s = (if lt_owner s = Joining \<and> lt_worker s = Ended then Next (s\<lparr>lt_owner := Joined\<rparr>) else Blocked)"

text \<open>The steps of the new thread; \<open>self\<close> is the address of its loop.\<close>

definition threadFunc_callback :: "loop_thread \<Rightarrow> outcome" where
  "threadFunc_callback s =
     (if lt_worker s = InCallback then Next (s\<lparr>lt_callbackRan := lt_callback s, lt_worker := BeforePublish\<rparr>) else Blocked)"

definition threadFunc_publish :: "nat \<Rightarrow> loop_thread \<Rightarrow> outcome" where
  "threadFunc_publish self s =
     (if lt_worker s = BeforePublish then
        Next (s\<lparr>lt_loop := Some self, lt_worker := InLoop, lt_owner := (if lt_owner s = Waiting then AtCheck else lt_owner s)\<rparr>)
      else Blocked)"

definition threadFunc_loop_ends :: "loop_thread \<Rightarrow> outcome" where
  "threadFunc_loop_ends s = (if lt_worker s = InLoop \<and> lt_quit s then Next (s\<lparr>lt_worker := Ended\<rparr>) else Blocked)"

text \<open>
  Any other call of \<open>quit\<close> on the loop while it exists: by the callback, by a functor, or by a thread that has the pointer. In
  the last case the call goes on to \<open>wakeup\<close>, with the same hazard as in the destructor; that part is not followed here.
\<close>

definition user_quit :: "loop_thread \<Rightarrow> outcome" where
  "user_quit s =
     (if lt_worker s \<noteq> NotCreated \<and> lt_worker s \<noteq> Ended \<and> \<not> lt_quit s then Next (s\<lparr>lt_quit := True\<rparr>) else Blocked)"

text \<open>Every step of the threads, and a wake-up of the waiting owner for no reason.\<close>

definition lt_moves :: "nat \<Rightarrow> (loop_thread \<Rightarrow> outcome) list" where
  "lt_moves self = [startLoop_create, startLoop_check, EventLoopThread_dtor, dtor_wakeup, dtor_join,
     threadFunc_callback, threadFunc_publish self, threadFunc_loop_ends, user_quit]"

inductive lt_step :: "nat \<Rightarrow> loop_thread \<Rightarrow> loop_thread \<Rightarrow> bool" for self where
  move: "m \<in> set (lt_moves self) \<Longrightarrow> m s = Next s' \<Longrightarrow> lt_step self s s'"
| spurious: "lt_owner s = Waiting \<Longrightarrow> lt_step self s (s\<lparr>lt_owner := AtCheck\<rparr>)"

inductive_cases lt_step_elim: "lt_step self s s'"

lemmas lt_ops = startLoop_create_def startLoop_check_def EventLoopThread_dtor_def dtor_wakeup_def dtor_join_def
  threadFunc_callback_def threadFunc_publish_def threadFunc_loop_ends_def user_quit_def

text \<open>
  The invariant by the position of the owner: which positions the new thread can have, and what the shared variables
  then hold.
\<close>

fun owner_sees :: "owner_pc \<Rightarrow> worker_pc \<Rightarrow> bool" where
  "owner_sees BeforeStart w \<longleftrightarrow> w = NotCreated"
| "owner_sees AtCheck w \<longleftrightarrow> w \<noteq> NotCreated"
| "owner_sees Waiting w \<longleftrightarrow> w = InCallback \<or> w = BeforePublish"
| "owner_sees Started w \<longleftrightarrow> w = InLoop \<or> w = Ended"
| "owner_sees InQuit w \<longleftrightarrow> w = InLoop \<or> w = Ended"
| "owner_sees Joining w \<longleftrightarrow> w = InLoop \<or> w = Ended"
| "owner_sees Joined w \<longleftrightarrow> w = Ended"

definition lt_inv :: "nat \<Rightarrow> bool \<Rightarrow> loop_thread \<Rightarrow> bool" where
  "lt_inv self cb s \<longleftrightarrow>
     owner_sees (lt_owner s) (lt_worker s) \<and> lt_callback s = cb \<and>
     lt_loop s = (if lt_worker s = InLoop \<or> lt_worker s = Ended then Some self else None) \<and>
     lt_result s = (if lt_owner s \<in> {Started, InQuit, Joining, Joined} then Some self else None) \<and>
     (lt_callbackRan s \<longleftrightarrow> cb \<and> lt_worker s \<noteq> NotCreated \<and> lt_worker s \<noteq> InCallback) \<and>
     (lt_owner s \<in> {InQuit, Joining, Joined} \<or> lt_worker s = Ended \<longrightarrow> lt_quit s) \<and> (lt_worker s = NotCreated \<longrightarrow> \<not> lt_quit s)"

text \<open>Every step but a wake-up for no reason brings the two threads nearer to the end, unless the owner goes to wait.\<close>

primrec owner_left :: "owner_pc \<Rightarrow> nat" where
  "owner_left BeforeStart = 6"
| "owner_left AtCheck = 5"
| "owner_left Waiting = 4"
| "owner_left Started = 3"
| "owner_left InQuit = 2"
| "owner_left Joining = 1"
| "owner_left Joined = 0"

primrec worker_left :: "worker_pc \<Rightarrow> nat" where
  "worker_left NotCreated = 8"
| "worker_left InCallback = 6"
| "worker_left BeforePublish = 4"
| "worker_left InLoop = 2"
| "worker_left Ended = 0"

definition lt_left :: "loop_thread \<Rightarrow> nat" where
  "lt_left s = owner_left (lt_owner s) + worker_left (lt_worker s) + (if lt_quit s then 0 else 1)"

lemma lt_move_cases:
  assumes "m \<in> set (lt_moves self)"
    and "P startLoop_create" and "P startLoop_check" and "P EventLoopThread_dtor" and "P dtor_wakeup" and "P dtor_join"
    and "P threadFunc_callback" and "P (threadFunc_publish self)" and "P threadFunc_loop_ends" and "P user_quit"
  shows "P m"
  using assms by (auto simp: lt_moves_def)

lemma lt_move_inv:
  assumes "m \<in> set (lt_moves self)" and "lt_inv self cb s"
  shows "\<forall>s'. m s = Next s' \<longrightarrow> lt_inv self cb s' \<and> lt_left s' < lt_left s"
  using assms
  by (elim lt_move_cases; cases s; cases "lt_owner s"; cases "lt_worker s";
      simp add: lt_inv_def lt_left_def lt_ops)

lemma lt_step_inv: "lt_step self s s' \<Longrightarrow> lt_inv self cb s \<Longrightarrow> lt_inv self cb s'"
  by (erule lt_step_elim, metis lt_move_inv) (auto simp: lt_inv_def)

lemma lt_reach_inv: "(lt_step self)\<^sup>*\<^sup>* (EventLoopThread_ctor cb) s \<Longrightarrow> lt_inv self cb s"
proof (induction rule: rtranclp_induct)
  case base
  show ?case by (simp add: EventLoopThread_ctor_def lt_inv_def)
next
  case (step s s')
  then show ?case by (metis lt_step_inv)
qed

text \<open>The only uses of an object that is not there are those of the destructor.\<close>

lemma lt_faults:
  assumes "lt_inv self cb s"
  shows "(\<exists>m \<in> set (lt_moves self). m s = Fault) \<longleftrightarrow>
    lt_owner s = BeforeStart \<or> lt_worker s = Ended \<and> (lt_owner s = Started \<or> lt_owner s = InQuit)"
  using assms by (cases "lt_owner s"; cases "lt_worker s") (simp_all add: lt_moves_def lt_inv_def lt_ops)

lemma lt_progress:
  assumes "lt_inv self cb s" and "lt_owner s \<noteq> Joined" and "\<not> (\<exists>m \<in> set (lt_moves self). m s = Fault)"
  shows "\<exists>m \<in> set (lt_moves self). \<exists>s'. m s = Next s'"
  using assms(1,2) assms(3) [unfolded lt_faults [OF assms(1)]]
  by (cases "lt_owner s"; cases "lt_worker s") (simp_all add: lt_moves_def lt_inv_def lt_ops)

text \<open>A given interleaving of the steps, to reach a given state.\<close>

primrec lt_run :: "(loop_thread \<Rightarrow> outcome) list \<Rightarrow> loop_thread \<Rightarrow> outcome" where
  "lt_run [] s = Next s"
| "lt_run (m # ms) s = (case m s of Next s' \<Rightarrow> lt_run ms s' | r \<Rightarrow> r)"

lemma lt_run_reach: "lt_run ms s = Next s' \<Longrightarrow> set ms \<subseteq> set (lt_moves self) \<Longrightarrow> (lt_step self)\<^sup>*\<^sup>* s s'"
proof (induction ms arbitrary: s)
  case Nil
  then show ?case by simp
next
  case (Cons m ms)
  then obtain t where t: "m s = Next t" "lt_run ms t = Next s'" by (auto split: outcome.splits)
  then have "lt_step self s t" using Cons.prems(2) by (auto intro: lt_step.move)
  moreover have "(lt_step self)\<^sup>*\<^sup>* t s'" using Cons.IH t(2) Cons.prems(2) by simp
  ultimately show ?case by (rule converse_rtranclp_into_rtranclp)
qed

text \<open>
  C15: Starting and stopping a loop thread. In every state that the threads reach: once \<open>startLoop\<close> has
  returned, it returned the loop of the new thread, and the initialisation callback, when there is one, ran before; the loop
  does not end before \<open>quit\<close> has been called on it, by the destructor or by anybody else. Neither \<open>startLoop\<close> nor \<open>threadFunc\<close> uses an object
  that does not exist; the destructor does so in exactly these situations: the thread was never started, so that \<open>loop_\<close> is null; somebody else has called
  \<open>quit\<close> and the loop is gone when the destructor begins; or the loop sees \<open>quit_\<close> and is gone before the destructor's own
  call of \<open>quit\<close> comes to \<open>wakeup\<close>. In all other states some step can be taken until the owner has joined the thread, and
  every step (a wake-up for no reason apart) leaves fewer steps to take: neither \<open>startLoop\<close> nor the destructor hangs.
\<close>
theorem loop_thread_handover:
  assumes "(lt_step self)\<^sup>*\<^sup>* (EventLoopThread_ctor cb) s"
  shows "(lt_owner s \<in> {Started, InQuit, Joining, Joined} \<longrightarrow> lt_result s = Some self \<and> (cb \<longrightarrow> lt_callbackRan s)) \<and>
     (lt_worker s = Ended \<longrightarrow> lt_quit s) \<and>
     ((\<exists>m \<in> set (lt_moves self). m s = Fault) \<longleftrightarrow>
        lt_owner s = BeforeStart \<or> lt_worker s = Ended \<and> (lt_owner s = Started \<or> lt_owner s = InQuit)) \<and>
     (lt_owner s = Joined \<or> (\<exists>m \<in> set (lt_moves self). m s = Fault) \<or> (\<exists>m \<in> set (lt_moves self). \<exists>s'. m s = Next s')) \<and>
     (\<forall>m \<in> set (lt_moves self). \<forall>s'. m s = Next s' \<longrightarrow> lt_left s' < lt_left s)"
proof -
  note inv = lt_reach_inv [OF assms]
  have "lt_owner s \<in> {Started, InQuit, Joining, Joined} \<longrightarrow> lt_result s = Some self \<and> (cb \<longrightarrow> lt_callbackRan s)"
    using inv by (cases "lt_owner s"; cases "lt_worker s") (simp_all add: lt_inv_def)
  moreover have "lt_worker s = Ended \<longrightarrow> lt_quit s" using inv by (simp add: lt_inv_def)
  ultimately show ?thesis using lt_faults [OF inv] lt_progress [OF inv] lt_move_inv inv by blast
qed

text \<open>The program of \<open>tests/test6.cc\<close>: the owner calls \<open>quit\<close>, the loop ends, and then the destructor runs.\<close>

lemma lt_quit_early: "(lt_step 7)\<^sup>*\<^sup>* (EventLoopThread_ctor True)
    \<lparr>lt_owner = Started, lt_worker = Ended, lt_callback = True, lt_loop = Some 7, lt_exiting = False, lt_quit = True,
     lt_callbackRan = True, lt_result = Some 7\<rparr>"
  by (rule lt_run_reach [of "[startLoop_create, threadFunc_callback, threadFunc_publish 7, startLoop_check, user_quit, threadFunc_loop_ends]"])
    (simp_all add: lt_ops lt_moves_def EventLoopThread_ctor_def)

theorem loop_thread_handover_witness:
  "\<exists>s. (lt_step 7)\<^sup>*\<^sup>* (EventLoopThread_ctor True) s \<and> lt_owner s = Started \<and> lt_worker s = Ended \<and> lt_result s = Some 7 \<and> lt_callbackRan s \<and>
     (\<exists>m \<in> set (lt_moves 7). m s = Fault)"
  by (rule exI, rule conjI, rule lt_quit_early) (use loop_thread_handover [OF lt_quit_early] in simp)

lemma dtor_unstarted_null: "EventLoopThread_dtor (EventLoopThread_ctor cb) = Fault"
  by (simp add: EventLoopThread_dtor_def EventLoopThread_ctor_def)

lemma dtor_wakeup_after_free:
  "\<exists>s. (lt_step 7)\<^sup>*\<^sup>* (EventLoopThread_ctor True) s \<and> dtor_wakeup s = Fault"
proof -
  let ?ms = "[startLoop_create, threadFunc_callback, threadFunc_publish 7, startLoop_check, EventLoopThread_dtor,
    threadFunc_loop_ends]"
  have "\<exists>s. lt_run ?ms (EventLoopThread_ctor True) = Next s \<and> dtor_wakeup s = Fault"
    by (simp add: lt_ops EventLoopThread_ctor_def)
  moreover have "set ?ms \<subseteq> set (lt_moves 7)" by (simp add: lt_moves_def)
  ultimately show ?thesis using lt_run_reach by blast
qed

end
