(* ===== verification/ProcessInfo.thy ===== *)
theory ProcessInfo
  imports FileUtil Logging
begin

text \<open>
  \<open>tmuduo/base/ProcessInfo.cc\<close> and \<open>stackTrace\<close> of \<open>CurrentThread.cc\<close>: what the library reads out of
  \<open>/proc\<close> and out of the symbol strings of a back trace. The contents of the files, the
  directory entries, the limits of the process and the demangler are arguments.
\<close>

subsection \<open>Identity of the process\<close>

definition pidString :: "int \<Rightarrow> string" where
  "pidString pid = snprintf 32 (dec_int pid)"

definition username :: "string option \<Rightarrow> string" where
  "username pw_name = (case pw_name of Some name \<Rightarrow> name | None \<Rightarrow> ''unknownuser'')"

definition isDebugBuild :: bool where
  "isDebugBuild = True"

definition procname :: "string \<Rightarrow> string" where
  "procname stat = (case (find_index CHR ''('' stat, rfind_index CHR '')'' stat) of
       (Some lp, Some rp) \<Rightarrow> if lp < rp then take (rp - lp - 1) (drop (lp + 1) stat) else []
     | _ \<Rightarrow> [])"

definition threadStat_path :: "int \<Rightarrow> string" where
  "threadStat_path tid = snprintf 64 (''/proc/self/task/'' @ dec_int tid @ ''/stat'')"

definition proc_file :: "(nat \<Rightarrow> nat \<Rightarrow> int + bytes) \<Rightarrow> int + fd \<Rightarrow> string" where
  "proc_file sysread opened = snd (readFile sysread opened 65536 [])"

definition exePath :: "int + bytes \<Rightarrow> string" where
  "exePath readlink = (case readlink of Inr s \<Rightarrow> take 1024 s | Inl errno \<Rightarrow> [])"

subsection \<open>Directories of numbers\<close>

definition starts_with_digit :: "string \<Rightarrow> bool" where
  "starts_with_digit name \<longleftrightarrow> name \<noteq> [] \<and> is_digit (hd name)"

text \<open>\<open>atoi\<close> on a string that starts with a digit.\<close>

definition atoi_digits :: "string \<Rightarrow> nat" where
  "atoi_digits s = read_dec (takeWhile is_digit s)"

definition fdDirFilter :: "string \<Rightarrow> nat \<Rightarrow> nat" where
  "fdDirFilter d_name t_numOpenedFiles = (if starts_with_digit d_name then t_numOpenedFiles + 1 else t_numOpenedFiles)"

definition taskDirFilter :: "string \<Rightarrow> nat list \<Rightarrow> nat list" where
  "taskDirFilter d_name t_pids = (if starts_with_digit d_name then t_pids @ [atoi_digits d_name] else t_pids)"

definition openedFiles :: "string list \<Rightarrow> nat" where
  "openedFiles entries = fold fdDirFilter entries 0"

text \<open>
  The limit, cut to the 32 bits of an \<open>int\<close>, or the number of open files when \<open>getrlimit\<close> fails.
\<close>

definition maxOpenFiles :: "64 word option \<Rightarrow> string list \<Rightarrow> int" where
  "maxOpenFiles rlim entries =
     (case rlim of Some n \<Rightarrow> sint (ucast n :: 32 word) | None \<Rightarrow> int (openedFiles entries))"

definition process_threads :: "string list \<Rightarrow> nat list" where
  "process_threads entries = sort (fold taskDirFilter entries [])"

text \<open>\<open>atoi\<close> skips white space first; no sign follows the label in \<open>/proc\<close>.\<close>

definition numThreads_of :: "string \<Rightarrow> nat" where
  "numThreads_of status = (case search_index ''Threads:'' status of
       Some pos \<Rightarrow> atoi_digits (dropWhile (\<lambda>c. c = CHR '' '' \<or> c = CHR 0x09) (drop (pos + 8) status))
     | None \<Rightarrow> 0)"

subsection \<open>Back traces\<close>

text \<open>
  One symbol string such as \<open>bin(_ZN3Bar4testEv+0x79) [0x401909]\<close>: the last \<open>(\<close> and the last
  \<open>+\<close> delimit the mangled name. \<open>demangler\<close> is \<open>__cxa_demangle\<close>, \<open>None\<close> for a failure. A plus sign that
  stands before the parenthesis ends the string handed to it early: \<open>left_par + 1\<close> then is behind the
  terminator, and the rest of the string up to its own end is passed.
\<close>

definition mangled_name :: "string \<Rightarrow> nat \<Rightarrow> nat \<Rightarrow> string" where
  "mangled_name s left_par plus_at =
     (if left_par < plus_at then slice (left_par + 1) plus_at s else drop (left_par + 1) s)"

definition stack_frame :: "(string \<Rightarrow> string option) \<Rightarrow> bool \<Rightarrow> string \<Rightarrow> string" where
  "stack_frame demangler demangle s =
     (case (rfind_index CHR ''('' s, rfind_index CHR ''+'' s) of
        (Some left_par, Some plus_at) \<Rightarrow>
          (case (if demangle then demangler (mangled_name s left_par plus_at) else None) of
             Some name \<Rightarrow> take (left_par + 1) s @ name @ drop plus_at s @ [CHR 0x0A]
           | None \<Rightarrow> s @ [CHR 0x0A])
      | _ \<Rightarrow> s @ [CHR 0x0A])"

text \<open>Frame 0 is \<open>stackTrace\<close> itself; at most 200 frames are looked at.\<close>

definition stackTrace :: "(string \<Rightarrow> string option) \<Rightarrow> bool \<Rightarrow> string list option \<Rightarrow> string" where
  "stackTrace demangler demangle strings = (case strings of
       Some ss \<Rightarrow> concat (map (stack_frame demangler demangle) (drop 1 (take 200 ss)))
     | None \<Rightarrow> [])"

subsection \<open>Lemmas\<close>

text \<open>The command name of \<open>/proc/self/stat\<close> is found even when it contains parentheses itself.\<close>

lemma procname_stat:
  assumes "CHR ''('' \<notin> set pid" "CHR '')'' \<notin> set rest"
  shows "procname (pid @ ''('' @ name @ '')'' @ rest) = name"
proof -
  have "find_index CHR ''('' (pid @ ''('' @ name @ '')'' @ rest) = Some (length pid)"
    using assms(1) by (induction pid) auto
  moreover have "rfind_index CHR '')'' (pid @ ''('' @ name @ '')'' @ rest) = Some (length (pid @ ''('' @ name))"
    using rfind_index_last [of "CHR '')''" rest "pid @ ''('' @ name"] assms(2) by simp
  ultimately show ?thesis by (simp add: procname_def)
qed

lemma openedFiles_count: "openedFiles entries = length (filter starts_with_digit entries)"
proof -
  have "fold fdDirFilter entries n = n + length (filter starts_with_digit entries)" for n
    by (induction entries arbitrary: n) (simp_all add: fdDirFilter_def)
  then show ?thesis by (simp add: openedFiles_def)
qed

text \<open>No limit at all (\<open>RLIM_INFINITY\<close>) is reported as a negative number.\<close>

lemma maxOpenFiles_unlimited: "maxOpenFiles (Some 0xFFFFFFFFFFFFFFFF) entries = - 1"
  by (simp add: maxOpenFiles_def)

lemma process_threads_tasks:
  "process_threads (map dec_nat tids @ [''.'', ''..'']) = sort tids"
proof -
  have d: "starts_with_digit (dec_nat n)" "atoi_digits (dec_nat n) = n" for n
    using dec_nat_digits dec_nat_digits [OF hd_in_set [OF dec_nat_Nil]] read_dec_dec_nat [of n]
    by (simp_all add: starts_with_digit_def atoi_digits_def takeWhile_eq_all_conv [THEN iffD2])
  have "fold taskDirFilter (map dec_nat tids) acc = acc @ tids" for acc
    by (induction tids arbitrary: acc) (simp_all add: taskDirFilter_def d)
  then show ?thesis
    by (simp add: process_threads_def taskDirFilter_def starts_with_digit_def is_digit_def)
qed

lemma stack_frame_demangled:
  assumes "CHR ''('' \<notin> set name" "CHR ''+'' \<notin> set name" "CHR ''('' \<notin> set off" "CHR ''+'' \<notin> set off"
    "demangler name = Some pretty"
  shows "stack_frame demangler True (bin @ ''('' @ name @ ''+'' @ off) = bin @ ''('' @ pretty @ ''+'' @ off @ [CHR 0x0A]"
proof -
  let ?s = "bin @ ''('' @ name @ ''+'' @ off"
  have "rfind_index CHR ''('' ?s = Some (length bin)"
    using rfind_index_last [of "CHR ''(''" "name @ ''+'' @ off" bin] assms(1,3) by simp
  moreover have "rfind_index CHR ''+'' ?s = Some (length (bin @ ''('' @ name))"
    using rfind_index_last [of "CHR ''+''" off "bin @ ''('' @ name"] assms(4) by simp
  moreover have "mangled_name ?s (length bin) (length (bin @ ''('' @ name)) = name"
    by (simp add: mangled_name_def slice_def)
  ultimately show ?thesis using assms(5) by (simp add: stack_frame_def)
qed

end
