(* ===== verification/Spec2Isabelle.thy ===== *)
theory Spec2Isabelle
  imports ChatService ChatClient HttpConnection WebServer EPollPoller PollPoller EventLoop TimerQueue ServerLife ClientLife
    InetAddress LogPipeline Sync ThreadPool EventLoopThread ProcessInfo
begin

text \<open>
  A verification library for \<open>tmuduo\<close>, a C++ network library in the style of muduo: one event loop
  per thread, non-blocking sockets, callbacks. This theory imports the library, describes it, and holds the
  property that spans components.

  \<^bold>\<open>The program.\<close> An \<open>EventLoop\<close> owns a \<open>Poller\<close> (epoll or poll), a \<open>TimerQueue\<close> and a queue of
  functors; every descriptor it watches is a \<open>Channel\<close> that dispatches events to callbacks. A
  \<open>TcpServer\<close> accepts through an \<open>Acceptor\<close>, picks a loop from an \<open>EventLoopThreadPool\<close>
  and creates a \<open>TcpConnection\<close>, which moves bytes between the socket and two \<open>Buffer\<close>s. A
  \<open>TcpClient\<close> does the same on the active side through a \<open>Connector\<close>. On top are an HTTP server
  and the examples (a chat server with a length-header codec, a web server with users). Below are the
  base utilities: time stamps, logging, files, queues and the thread pool.

  \<^bold>\<open>Conventions.\<close> A C++ object is a record, a method a function on it. Wherever the process may stop (a
  failed \<open>assert\<close> of the Debug build, \<open>LOG_FATAL\<close>, an exception, undefined behaviour such as a null
  or dangling pointer or an access outside a vector), the function returns an option and \<open>None\<close> is the
  stopped process. Operating system calls, the clock, the C library's locale and time functions, the
  database and user callbacks are parameters; what is assumed of them is a named hypothesis. Calls that
  leave the object under study (queue a functor, close a descriptor, update a channel) are recorded as a
  list of effects, in order. The mutex-protected part of a method is one atomic step where threads
  interleave. What the library itself logs, short of \<open>LOG_FATAL\<close>, is left out of the methods; logging has theories of its own.

  \<^bold>\<open>The theories.\<close>

  \<^item> \<open>Prelude\<close>: sizes with wrap-around, faults, byte vectors, searching. \<open>Printf\<close>: decimal output.
    \<open>StdMap\<close>: \<open>std::map\<close> with its contract as the locale \<open>ordered_map\<close>.
  \<^item> \<open>Endian\<close>, \<open>Buffer\<close> (\<open>net/Endian.h\<close>, \<open>net/Buffer.h\<close>, \<open>Buffer.cc\<close>): every operation of the
    buffer on a byte vector with two indices. It refines a queue of bytes (a locale, interpreted as
    \<open>buf\<close>); integers round-trip; \<open>readFd\<close> loses nothing.
  \<^item> \<open>Codec\<close> (\<open>examples/chat/codec.h\<close>): framing. The decoding loop is a \<open>partial_function\<close>, proved to return.
    \<open>ChatServer\<close> (\<open>chat_server.cc\<close>) puts the server on the connections of \<open>TcpConnection\<close>, and has the specification: a room
    with one log of messages, of which every member gets a contiguous piece. \<open>ChatService\<close> is the simulation between the two.
    \<open>ChatClient\<close> (\<open>chat_client.cc\<close>) puts the client on its connection, with the thread that reads what is typed. The
    theorem below joins both ends.
  \<^item> \<open>HttpContext\<close>, \<open>HttpServer\<close> (\<open>net/http\<close>): request parser, responses, what \<open>onMessage\<close> and \<open>onRequest\<close> do
    to a connection. \<open>HttpConnection\<close> puts the server on the connections of \<open>TcpConnection\<close>: the context is part
    of the connection, \<open>handleRead\<close> fills the input buffer and calls \<open>onMessage\<close>, the answers go through the
    output buffer and \<open>handleWrite\<close>. It refines a server that works on lists of bytes. What it shares with the chat
    programs, about the bytes that a connection has written and has still to write, is in \<open>ConnOutput\<close>.
  \<^item> \<open>Channel\<close>, \<open>Poller\<close>, \<open>EPollPoller\<close>, \<open>PollPoller\<close> (\<open>net/Channel.cc\<close>, \<open>net/poller\<close>): dispatch and
    registration. The locales \<open>poller_registry\<close> and \<open>exact_poller\<close> are what a channel relies on; both
    pollers interpret the first. \<open>epoll_kernel\<close> is the contract of \<open>epoll_ctl\<close>, with a list as an
    instance. The calls of channels are legal or not (\<open>legal_ops\<close>); legal ones keep the kernel's interest list exactly as specified,
    the others fail an assertion.
  \<^item> \<open>EventLoop\<close> (\<open>net/EventLoop.cc\<close>): the loop and its functor queue, and a step relation for the loop
    thread interleaved with other threads, whose rules are the operations of the loop, whole or cut where another thread may
    come in between (reachable states, invariants by rule induction). \<open>poll\<close> blocks until a descriptor is readable.
  \<^item> \<open>TimerQueue\<close>, \<open>Timestamp\<close> (\<open>net/TimerQueue.cc\<close>, \<open>Timer.cc\<close>, \<open>base/Timestamp.cc\<close>): timers; doubles are
    exact dyadic numbers with rounding to 53 bits.
  \<^item> \<open>TcpConnection\<close>, \<open>TcpServer\<close>, \<open>Connector\<close> (with \<open>TcpClient\<close>), \<open>InetAddress\<close> (with the address
    functions of \<open>SockOps.cc\<close> and \<open>Socket.cc\<close>): connection life cycle and output (which refines the specification \<open>out_run\<close>, without
    buffer and channel), acceptor, loop
    pool and connection map, connecting with back-off, addresses in memory. \<open>ServerLife\<close> composes the server, its
    connections and the functor queues of the base loop and the io loops: functors, socket events and calls of
    the user in any order, as a step relation with reachable states and a phase for every connection. \<open>ClientLife\<close> does
    the same on the active side: the client, its connector, the connections it had and has, the functors of its loop and the retry
    timers, with \<open>disconnect\<close> and \<open>stop\<close> called at any time and from any thread.
  \<^item> \<open>LogStream\<close>, \<open>Logging\<close>, \<open>FileUtil\<close> (with \<open>LogFile.cc\<close>), \<open>AsyncLogging\<close>: from one operand of a log
    statement to the bytes of the log files. \<open>Logging\<close> has the macros and the global level, output and flush
    functions. \<open>LogPipeline\<close> composes them: the statements of several threads, changes of the level and of the
    output function, the asynchronous logger and its files.
  \<^item> \<open>EventLoopThread\<close> (\<open>net/EventLoopThread.cc\<close>): the owner and the loop thread as an interleaving of
    steps, with blocking and faults as outcomes, an invariant by positions, progress of both, and the exact condition under which
    the destructor uses a loop that no longer exists.
  \<^item> \<open>ProcessInfo\<close> (\<open>base/ProcessInfo.cc\<close>, \<open>stackTrace\<close> of \<open>base/CurrentThread.cc\<close>): what the library computes
    from \<open>/proc\<close> and from back traces.
  \<^item> \<open>Sync\<close>, \<open>ThreadPool\<close> (\<open>base/BlockingQueue.h\<close>, \<open>BoundedBlockingQueue.h\<close>, \<open>CountDownLatch.cc\<close>,
    \<open>ThreadPool.h\<close>): synchronisation; the operations of the queues tell what they wait for and whom they notify; the
    locale \<open>blocking_queue\<close> carries the proof for both queues.
  \<^item> \<open>SqlPool\<close> (\<open>base/Singleton.h\<close>, \<open>net/sql\<close>): database connections and their pool, with the MySQL
    client library as a parameter. \<open>WebServer\<close> (\<open>examples/httpd/WebServer.cc\<close>): pages and users, on the pool.

  \<^bold>\<open>What the properties show.\<close> Refinement of abstract specifications (buffer, epoll interest set, log
  stream, connection map, the HTTP server and the chat server on their connections), the life cycle of a server's connections over several loops and
  of a client's through reconnects, a total order of chat messages from keyboard to screen, round trips (integers, codec, HTTP requests, addresses), absence of lost wakeups
  and first-in first-out order under interleaving (event loop, bounded queue, asynchronous log, thread
  pool), timing (timers in order, exponential back-off), and the failures that the code has: each of
  these is stated as the behaviour of the code, for instance \<open>sendInLoop_partial_write\<close>,
  \<open>poll_reenable_ignored\<close>, \<open>timer_callback_hazards\<close>, \<open>connector_stale_timer\<close>, \<open>web_split_body_throws\<close>,
  \<open>pool_paused_wait_race\<close>.

  \<^bold>\<open>Bounds.\<close> Sizes are natural numbers below \<open>2^64\<close>; a vector holds at most \<open>2^63 - 1\<close> bytes, and
  hypotheses that bound the total amount of data refer to this. Counters of connections and timers
  are unbounded integers, with the point where the code's width matters stated (names of connections,
  timer ids). No definition uses fuel: loops are recursive functions with termination proofs, or
  partial functions with proofs that they return.

  \<^bold>\<open>Not modelled.\<close> Functions that only forward to a system call (\<open>pid\<close>, \<open>uid\<close>, \<open>cpuTime\<close>, the thin wrappers in
  \<open>SockOps.cc\<close> and \<open>Socket.cc\<close>), the copy-control and type helpers, \<open>main\<close> functions, the download
  example (whose functions are empty), \<open>httpServerTest.cc\<close> (an earlier copy of \<open>WebServer.cc\<close> that no build target uses), and
  \<open>ThreadPool::submit\<close> and \<open>BoundedBlockingQueue::capacity\<close>, which do not compile when they are used.
\<close>

section \<open>The chat service, end to end\<close>

lemma sent_prefix:
  assumes "frames (rm_sent m) = (ms, rest, bad)" "rm_sent m @ ys = concat (map wire ls)" "list_all (\<lambda>m. length m \<le> 65536) ls"
  shows "\<exists>ls'. ls = ms @ ls' \<and> (ys = [] \<longrightarrow> ls' = [])"
  using frames_part(1) [of "rm_sent m" ys ls "[]"] frames_stream [OF assms(3)] assms(1,2) by simp

text \<open>
  C8: the chat service, from what is typed at a client to what is printed at a client. The server has handled any events
  of any number of clients. One of the clients, on its connection \<open>c\<close>, has typed lines of at most 65536 bytes, run functors,
  read non-empty pieces of what the server wrote to it (it has not seen the end of the stream) and written, in any order.
  The kernels take no more bytes than they are offered and report no broken pipe; waiting output may be taken in any portions,
  but on this connection no direct write of a frame, at either end, was cut short (\<open>direct_whole\<close>: a frame that is cut is
  corrupted, see \<open>sendInLoop_partial_write\<close>); and the amounts of data fit into the buffers. Then the client has not aborted, and: when the
  bytes that the server has read on
  \<open>c\<close> are the first part of what the client put on the wire or has still to write, the messages of \<open>c\<close> in the server's
  log are the first lines that were typed, and all of them when nothing is under way any more; and the client has
  printed the first messages of the piece of the log that the server sent to it, and all of them when it has read all.
\<close>

theorem chat_end_to_end:
  assumes "\<And>c. write_ok (W c)" and "direct_whole (W c) (map wire (rm_got (rm_members r ! c)))"
    and "r = room_run es empty_room" and "room_fits r"
    and "chat_run W es chat_start = Some s" and "c < length (rm_members r)"
    and "write_ok V" and "direct_whole V (map wire (typed ces))" and "client_up V connName sockfd = Some cl0"
    and "list_all (\<lambda>m. length m \<le> 65536) (typed ces)" and "8 + length (concat (map wire (typed ces))) \<le> max_size"
    and "[] \<notin> set (received ces)" and "concat (received ces) @ on_the_way = written (cs_conns s ! c)"
  shows "\<exists>cl. client_run V ces cl0 = Some cl \<and>
    (\<forall>to_come. rm_sent (rm_members r ! c) @ to_come = written (cc_conn cl) @ readable (outputBuffer (cc_conn cl)) \<longrightarrow>
      (\<exists>ls. typed ces = said_by c (rm_log r) @ ls \<and> (to_come = [] \<longrightarrow> cc_pending cl = [] \<longrightarrow> ls = []))) \<and>
    (\<exists>ms ns. rm_got (rm_members r ! c) = ms @ ns \<and> cc_stdout cl = concat (map printed ms) \<and>
      (on_the_way @ readable (outputBuffer (cs_conns s ! c)) = [] \<longrightarrow> ns = []))"
proof -
  let ?m = "rm_members r ! c" and ?rd = "concat (received ces)"
  have ok: "room_ok r" using room_run_ok [OF empty_room_ok] assms(3) by simp
  have "chat_rel W s r" using chat_run_rel [of W _ _ es, OF assms(1) chat_start_rel] assms(3-5) by auto
  then have "output_is (W c) (map wire (rm_got ?m)) (cs_conns s ! c)" using assms(6) by (simp add: chat_rel_def member_rel_def)
  from output_is_direct_whole [OF this assms(2)] assms(13)
  have down: "?rd @ on_the_way @ readable (outputBuffer (cs_conns s ! c)) = concat (map wire (rm_got ?m))" by (simp flip: append_assoc)
  have got: "frames (?rd @ on_the_way @ readable (outputBuffer (cs_conns s ! c))) = (rm_got ?m, [], False)"
    unfolding down by (rule frames_stream [OF got_small [OF ok assms(6)]])
  have "8 + length (concat (map wire (rm_got ?m))) \<le> max_size" using assms(4,6) by (simp add: room_fits_def list_all_length fits_def)
  then have len: "8 + length ([] @ ?rd) \<le> max_size" unfolding down [symmetric] by simp
  have "client_ok V [] [] cl0" using client_up_ok [of V connName sockfd] assms(9) by simp
  from client_run_ok [OF assms(7) this assms(10,12) _ len] frames_part(2) [OF got] assms(11)
  obtain cl where cl: "client_run V ces cl0 = Some cl" "client_ok V (typed ces) ?rd cl" by auto
  obtain ls1 ls2 where l: "typed ces = ls1 @ ls2" "cc_pending cl = map (\<lambda>m. SendInLoop (wire m)) ls2" "output_is V (map wire ls1) (cc_conn cl)"
    using cl(2) by (auto simp: client_ok_def sent_ok_def)
  have up: "written (cc_conn cl) @ readable (outputBuffer (cc_conn cl)) = concat (map wire ls1)"
    using output_is_direct_whole [OF l(3)] direct_whole_prefix [of V "map wire ls1" "map wire ls2"] assms(8) l(1) by simp
  obtain rest bad where f: "frames (rm_sent ?m) = (said_by c (rm_log r), rest, bad)"
    using ok assms(6) by (auto simp: room_ok_def member_ok_def)
  have "\<exists>ls. typed ces = said_by c (rm_log r) @ ls \<and> (to_come = [] \<longrightarrow> cc_pending cl = [] \<longrightarrow> ls = [])"
    if "rm_sent ?m @ to_come = written (cc_conn cl) @ readable (outputBuffer (cc_conn cl))" for to_come
    using sent_prefix [OF f, of to_come ls1] that up assms(10) l(1,2) by auto
  moreover obtain ms where "fst (frames ?rd) = ms" "cc_stdout cl = concat (map printed ms)"
    using cl(2) by (auto simp: client_ok_def printed_ok_def)
  then have "\<exists>ms ns. rm_got ?m = ms @ ns \<and> cc_stdout cl = concat (map printed ms) \<and>
      (on_the_way @ readable (outputBuffer (cs_conns s ! c)) = [] \<longrightarrow> ns = [])"
    using frames_part(1) [OF got] by auto
  ultimately show ?thesis using cl(1) by blast
qed

text \<open>
  A kernel that has no room for the first write and later takes at most four bytes at once: no direct write of a first message is
  cut short, but waiting frames leave in portions.
\<close>

definition busy_kernel :: sys_write where
  "busy_kernel n d = (if n = 0 then WriteError EWOULDBLOCK else Wrote (min 4 (length d)))"

lemma busy_kernel_direct_whole: "direct_whole busy_kernel [d]"
proof -
  have none: "direct W is p = []" if "messages is = []" for W p "is"
    using that by (induction W "is" p rule: direct.induct) simp_all
  have "direct busy_kernel is (0, [], []) = [0]" if "messages is = [d]" for "is"
    using that by (induction "is") (auto simp: busy_kernel_def none elim!: messages.elims)
  then show ?thesis by (simp add: direct_whole_def)
qed

lemma busy_kernel_writes:
  assumes "output_is busy_kernel [d] c"
  shows "0 < writes c" "written c @ readable (outputBuffer c) = d"
proof -
  obtain "is" where i: "messages is = [d]" "out_state c = out_run busy_kernel is (0, [], [])" using assms by (auto simp: output_is_def)
  have more: "n \<le> fst (out_run W js (n, p))" for W js n p
  proof (induction js arbitrary: n p)
    case (Cons i js)
    have "n \<le> fst (out_step W i (n, p))" by (cases p; cases i) (auto split: write_result.splits)
    with Cons [of "fst (out_step W i (n, p))" "snd (out_step W i (n, p))"] show ?case by simp
  qed simp
  have "0 < fst (out_run busy_kernel is (0, [], []))" using i(1)
  proof (induction "is")
    case (Cons i js)
    then show ?case using more [of 1 busy_kernel js "([], d)"] by (cases i) (auto simp: busy_kernel_def [of 0])
  qed simp
  then show "0 < writes c" using i(2) [symmetric] by (simp add: out_state_def)
qed (rule output_is_direct_whole [OF assms busy_kernel_direct_whole, simplified])

theorem chat_end_to_end_witness:
  "\<exists>s cl0 cl. chat_run (\<lambda>c. busy_kernel) (demo_chat @ [Writable 1, Writable 1]) chat_start = Some s \<and>
     client_up busy_kernel ''b'' 6 = Some cl0 \<and>
     client_run busy_kernel [Types ''yo'', LoopRuns, Receives (take 4 (wire ''yo'')), MaySend, Receives (drop 4 (wire ''yo''))] cl0
       = Some cl \<and> cc_stdout cl = ''<<< yo'' @ [CHR 0x0A]"
proof -
  let ?V = busy_kernel and ?W = "\<lambda>c. busy_kernel" and ?es = "(demo_chat @ [Writable 1]) @ [Writable 1]" and ?r = "room_run demo_chat empty_room"
  let ?ces = "[Types ''yo'', LoopRuns, Receives (take 4 (wire ''yo'')), MaySend, Receives (drop 4 (wire ''yo''))]"
  have V: "write_ok ?V" by (simp add: write_ok_def busy_kernel_def EWOULDBLOCK_def EPIPE_def)
  have r: "1 < length (rm_members ?r)" "rm_got (rm_members ?r ! 1) = [''yo'']" "rm_in (rm_members ?r ! 1)" by (simp_all add: demo_room)
  have es: "?r = room_run ?es empty_room" "?r = room_run (demo_chat @ [Writable 1]) empty_room" by (simp_all add: room_run_append)
  have rel: "\<exists>s. chat_run ?W fs chat_start = Some s \<and> chat_rel ?W s ?r" if "?r = room_run fs empty_room" for fs
    using chat_run_rel [of ?W _ _ fs, OF V chat_start_rel] demo_room_fits that by simp
  obtain s1 where s1: "chat_run ?W demo_chat chat_start = Some s1" "chat_rel ?W s1 ?r" using rel [OF refl] by blast
  from writable_out [OF s1(2) r(1,3) V] s1(1) obtain s2 where s2: "chat_run ?W (demo_chat @ [Writable 1]) chat_start = Some s2"
    "out_state (cs_conns s2 ! 1) = out_step ?V TcpConnection.Writable (out_state (cs_conns s1 ! 1))" by (auto simp: chat_run_append)
  have "chat_rel ?W s2 ?r" using rel [OF es(2)] s2(1) by simp
  from writable_out [OF this r(1,3) V] s2(1) obtain s where s: "chat_run ?W ?es chat_start = Some s"
    "out_state (cs_conns s ! 1) = out_step ?V TcpConnection.Writable (out_state (cs_conns s2 ! 1))"
    unfolding chat_run_append [of _ "demo_chat @ [Writable 1]"] by (auto simp del: chat_step.simps append_assoc)
  have o1: "output_is ?V [wire ''yo''] (cs_conns s1 ! 1)"
    using s1(2) r unfolding chat_rel_def member_rel_def by (metis list.simps(8,9))
  have "length (readable (outputBuffer (cs_conns s1 ! 1))) \<le> 8"
    using arg_cong [OF busy_kernel_writes(2) [OF o1], of length] by simp
  then have drained: "readable (outputBuffer (cs_conns s ! 1)) = []"
    using s(2) s2(2) busy_kernel_writes(1) [OF o1] by (auto simp: out_state_def busy_kernel_def split: if_splits)
  have "chat_rel ?W s ?r" using rel [OF es(1)] s(1) by simp
  then have "output_is ?V [wire ''yo''] (cs_conns s ! 1)" using r unfolding chat_rel_def member_rel_def by (metis list.simps(8,9))
  from busy_kernel_writes(2) [OF this] drained have w: "concat (received ?ces) @ [] = written (cs_conns s ! 1)" by simp
  obtain cl0 where cl0: "client_up ?V ''b'' 6 = Some cl0" using client_up_ok by blast
  have lines: "list_all (\<lambda>m. length m \<le> 65536) (typed ?ces)" "8 + length (concat (map wire (typed ?ces))) \<le> max_size"
    "[] \<notin> set (received ?ces)" by (auto simp: max_size_def simp flip: length_0_conv)
  have d: "direct_whole ?V (map wire (rm_got (rm_members ?r ! 1)))" "direct_whole ?V (map wire (typed ?ces))"
    using busy_kernel_direct_whole r(2) by simp_all
  from chat_end_to_end [of ?W 1 ?r, OF V d(1) es(1) demo_room_fits s(1) r(1) V d(2) cl0 lines w] obtain cl ms ns where
    "client_run ?V ?ces cl0 = Some cl" "rm_got (rm_members ?r ! 1) = ms @ ns" "cc_stdout cl = concat (map printed ms)" "ns = []"
    using drained by blast
  then show ?thesis using s(1) cl0 r(2) by (auto simp: printed_def simp del: client_run.simps)
qed

end
